(* ===== verification/Prelude.thy ===== *)
theory Prelude
  imports Main "HOL-Library.Word"
begin

text \<open>
  Shared material of the development: the machine types of the i386 target
  (\<^verbatim>\<open>include/arch/i386/types.h\<close>), the ways a kernel routine can fail to return
  (\<^verbatim>\<open>panic\<close>, a failed \<^verbatim>\<open>assert\<close>, a CPU exception, a store outside an array),
  and the generic facts on words, masks and lists that the component theories use through the
  collections \<open>word_unat\<close> and \<open>kernel_defs\<close>.
\<close>

unbundle bit_operations_syntax

named_theorems word_unat \<open>unsigned value of word operations\<close>
named_theorems kernel_defs \<open>definitions unfolded by the component proofs\<close>

section \<open>Machine types and outcomes\<close>

type_synonym u8 = "8 word"
type_synonym u16 = "16 word"
type_synonym u32 = "32 word"
type_synonym u64 = "64 word"

text \<open>
  \<^verbatim>\<open>panic(x)\<close> and \<^verbatim>\<open>assert(x)\<close> (\<^verbatim>\<open>include/bmk/kernel.h\<close>) print a message and
  spin for ever; a division by zero raises the CPU's divide error; a store past the end of a
  static array corrupts whatever lies behind it, and a load there gives what happens to be there.
  None of them returns a value the code accounts for, so they share one sum with the normal result.
\<close>

datatype halt = Panic string | AssertFail string | DivideError | WildStore | WildLoad

type_synonym 'a outcome = "halt + 'a"

abbreviation Returns :: "'a \<Rightarrow> 'a outcome" where
  "Returns \<equiv> Inr"

abbreviation Halts :: "halt \<Rightarrow> 'a outcome" where
  "Halts \<equiv> Inl"

definition bind_outcome :: "'a outcome \<Rightarrow> ('a \<Rightarrow> 'b outcome) \<Rightarrow> 'b outcome" where
  "bind_outcome r f = (case r of Inl h \<Rightarrow> Inl h | Inr x \<Rightarrow> f x)"

lemma bind_outcome_simps [simp]:
  "bind_outcome (Inl h) f = Inl h"
  "bind_outcome (Inr x) f = f x"
  by (simp_all add: bind_outcome_def)

lemma bind_outcome_Returns:
  "bind_outcome r f = Inr y \<longleftrightarrow> (\<exists>x. r = Inr x \<and> f x = Inr y)"
  by (cases r) simp_all

section \<open>Unsigned values of word operations\<close>

lemma unat_push_bit [word_unat]:
  "unat (push_bit n (w :: 'a::len word)) = unat w * 2 ^ n mod 2 ^ LENGTH('a)"
  unfolding unsigned_push_bit_eq by (simp only: push_bit_eq_mult take_bit_eq_mod)

lemma unat_drop_bit [word_unat]:
  "unat (drop_bit n (w :: 'a::len word)) = unat w div 2 ^ n"
  unfolding unat_drop_bit_eq by (simp only: drop_bit_eq_div)

lemma unat_lt_exp: "unat (w :: 'a::len word) < 2 ^ LENGTH('a)"
  by (rule unsigned_less)

lemma unat_or_disjoint:
  assumes "(a :: 'a::len word) AND b = 0"
  shows "unat (a OR b) = unat a + unat b"
proof -
  have z: "unat a AND unat b = 0"
    by (metis assms unsigned_0 unsigned_and_eq)
  have "unat (a OR b) = unat a OR unat b"
    by (simp add: unsigned_or_eq)
  with z show ?thesis
    by (simp add: disjunctive_add_eq_or)
qed

lemma unat_add_no_wrap:
  "unat (a :: 'a::len word) + unat b < 2 ^ LENGTH('a) \<Longrightarrow> unat (a + b) = unat a + unat b"
  by (simp add: unat_add_lem)

lemma unat_sub_no_wrap:
  "unat (b :: 'a::len word) \<le> unat a \<Longrightarrow> unat (a - b) = unat a - unat b"
  by (simp add: unat_sub word_le_nat_alt)

lemma unat_dec [simp]: "(n :: 'a::len word) \<noteq> 0 \<Longrightarrow> unat (n - 1) = unat n - 1"
  by (rule unat_minus_one)

lemma unat_0_less: "(n :: 'a::len word) \<noteq> 0 \<Longrightarrow> 0 < unat n"
  by (simp add: unat_gt_0)

section \<open>Single bits, powers of two and masks\<close>

lemma two_power_len: "(2::nat) ^ LENGTH('a::len) = 2 * 2 ^ (LENGTH('a) - 1)"
  by (simp flip: power_Suc)

lemma unat_exp: "m < LENGTH('a) \<Longrightarrow> unat (2 ^ m :: 'a::len word) = 2 ^ m"
  by transfer simp

lemma upt_split: "m < n \<Longrightarrow> [0..<n] = [0..<m] @ m # [Suc m..<n]"
  using upt_add_eq_append [of 0 m "n - m"] by (simp add: upt_conv_Cons)

lemma takeWhile_prefix:
  "xs = ys @ y # zs \<Longrightarrow> \<forall>x \<in> set ys. P x \<Longrightarrow> \<not> P y \<Longrightarrow> takeWhile P xs = ys"
  by (simp add: takeWhile_append2)

lemma bit_unat_iff: "bit (w :: 'a::len word) n \<longleftrightarrow> odd (unat w div 2 ^ n)"
  by (cases "n < LENGTH('a)")
    (simp_all add: bit_unsigned_iff flip: bit_iff_odd)

lemma bit_unat_exact:
  fixes w :: "'a::len word"
  assumes "2 ^ m \<le> unat w" "unat w < 2 ^ Suc m"
  shows "bit w m"
proof -
  have "unat w div 2 ^ m = 1"
    using assms by (intro div_nat_eqI) simp_all
  then show ?thesis by (simp add: bit_unat_iff)
qed

lemma top_bit_exists:
  fixes w :: "'a::len word"
  assumes "w \<noteq> 0"
  obtains m where "m < LENGTH('a)" "2 ^ m \<le> unat w" "unat w < 2 ^ Suc m"
proof -
  have "1 \<le> unat w" using assms by (simp add: Suc_leI unat_gt_0)
  then obtain m where m: "2 ^ m \<le> unat w" "unat w < 2 ^ (m + 1)"
    using ex_power_ivl1 [of 2 "unat w"] by auto
  moreover have "m < LENGTH('a)"
    using m(1) unat_lt_exp [of w] by (meson le_less_trans one_less_numeral_iff power_less_imp_less_exp semiring_norm(76))
  ultimately show thesis using that by simp
qed

lemma no_bit_above:
  fixes w :: "'a::len word"
  assumes "unat w < 2 ^ m" "m \<le> n"
  shows "\<not> bit w n"
proof -
  have "unat w < 2 ^ n" using assms by (meson less_le_trans one_le_numeral power_increasing)
  then show ?thesis by (simp add: bit_unat_iff)
qed

lemma power_of_two_test:
  fixes w :: "'a::len word"
  assumes "w AND (w - 1) = 0" "w \<noteq> 0"
  obtains m where "m < LENGTH('a)" "w = 2 ^ m"
proof -
  obtain m where m: "m < LENGTH('a)" "2 ^ m \<le> unat w" "unat w < 2 ^ Suc m"
    using assms(2) by (rule top_bit_exists)
  have "unat w = 2 ^ m"
  proof (rule ccontr)
    assume "unat w \<noteq> 2 ^ m"
    then have "bit (w - 1) m"
      using m assms(2) by (intro bit_unat_exact) simp_all
    moreover have "bit w m" using m(2,3) by (rule bit_unat_exact)
    ultimately have "bit (w AND (w - 1)) m" by (simp add: bit_simps)
    with assms(1) show False by simp
  qed
  then have "w = 2 ^ m" using m(1) by (simp add: word_unat_eq_iff unat_exp)
  with m(1) that show thesis by blast
qed

lemma and_pow2_minus:
  fixes w :: "'a::len word"
  assumes "m < LENGTH('a)"
  shows "unat (w AND (2 ^ m - 1)) = unat w mod 2 ^ m"
proof -
  have "w AND (2 ^ m - 1) = take_bit m w"
    by (simp add: take_bit_eq_mask mask_eq_exp_minus_1)
  then show ?thesis
    using assms by (simp add: take_bit_eq_mod unat_mod unat_exp)
qed

lemma and_not_pow2_minus:
  fixes w :: "'a::len word"
  assumes "m < LENGTH('a)"
  shows "unat (w AND NOT (2 ^ m - 1)) = unat w - unat w mod 2 ^ m"
proof -
  have "w = (w AND NOT (2 ^ m - 1)) OR (w AND (2 ^ m - 1))"
    by (rule bit_eqI) (auto simp: bit_simps)
  moreover have "(w AND NOT (2 ^ m - 1)) AND (w AND (2 ^ m - 1)) = 0"
    by (rule bit_eqI) (auto simp: bit_simps)
  ultimately have "unat w = unat (w AND NOT (2 ^ m - 1)) + unat (w AND (2 ^ m - 1))"
    by (metis unat_or_disjoint)
  then show ?thesis using and_pow2_minus [OF assms, of w] by simp
qed

lemma word_divmod_eqI:
  fixes a b :: "'a::len word"
  assumes "unat q = unat a div unat b" "unat r = unat a mod unat b"
  shows "(q, r) = (a div b, a mod b)"
  using assms by (simp add: word_unat_eq_iff unat_div unat_mod)

lemma div_power_lt:
  fixes a :: nat
  assumes "a < 2 ^ m" "m \<le> sr + k"
  shows "a div 2 ^ sr < 2 ^ k"
proof -
  have "a < 2 ^ (sr + k)"
    using assms by (meson less_le_trans one_le_numeral power_increasing)
  then show ?thesis by (simp add: less_mult_imp_div_less power_add mult.commute)
qed

lemma signed_drop_bit_top:
  "signed_drop_bit (LENGTH('a) - 1) (w :: 'a::len word) =
     (if bit w (LENGTH('a) - 1) then - 1 else 0)"
  by (rule bit_word_eqI) (auto simp: bit_signed_drop_bit_iff Suc_le_eq)

lemma bit_top_iff:
  "bit (w :: 'a::len word) (LENGTH('a) - 1) \<longleftrightarrow> 2 ^ (LENGTH('a) - 1) \<le> unat w"
proof -
  have "bit w (LENGTH('a) - 1) \<longleftrightarrow> odd (unat w div 2 ^ (LENGTH('a) - 1))"
    by (simp add: bit_unsigned_iff flip: bit_iff_odd)
  moreover have "unat w div 2 ^ (LENGTH('a) - 1) < 2"
  proof -
    have "(2::nat) ^ LENGTH('a) = 2 * 2 ^ (LENGTH('a) - 1)"
      by (simp flip: power_Suc)
    then have "unat w < 2 * 2 ^ (LENGTH('a) - 1)"
      using unat_lt_exp [of w] by simp
    then show ?thesis by (rule less_mult_imp_div_less)
  qed
  moreover have "odd n \<longleftrightarrow> 0 < n" if "n < 2" for n :: nat
    using that by (cases "n = 0") (auto simp: less_2_cases_iff)
  ultimately show ?thesis
    by (simp add: div_greater_zero_iff)
qed

end
