(* ===== verification/Librt.thy ===== *)
theory Librt
  imports Prelude "HOL-Library.Signed_Division"
begin

text \<open>
  The integer division helpers of \<^verbatim>\<open>librt/\<close> (compiler-rt), linked in when no libc is
  present: \<^verbatim>\<open>__udivmoddi4\<close>, \<^verbatim>\<open>__udivdi3\<close>, \<^verbatim>\<open>__umoddi3\<close>,
  \<^verbatim>\<open>__udivsi3\<close>, \<^verbatim>\<open>__divdi3\<close> and \<^verbatim>\<open>__moddi3\<close>. The double word routines work on
  32-bit halves as the source does (\<^verbatim>\<open>union udwords\<close>). Both shift-and-subtract loops are shown
  equal to one width-generic loop \<open>shift_subtract\<close>, whose invariant gives the quotient and the
  remainder, so every routine is proved equal to the mathematical division.
\<close>

section \<open>The compiler builtins and the two-word union\<close>

text \<open>
  \<^verbatim>\<open>__builtin_clz\<close> and \<^verbatim>\<open>__builtin_ctz\<close> count the leading and the trailing zero bits of
  a nonzero 32-bit word.
\<close>

definition builtin_clz :: "u32 \<Rightarrow> nat" where
  "builtin_clz x = length (takeWhile (\<lambda>i. \<not> bit x i) (rev [0..<32]))"

definition builtin_ctz :: "u32 \<Rightarrow> nat" where
  "builtin_ctz x = length (takeWhile (\<lambda>i. \<not> bit x i) [0..<32])"

definition udw_high :: "u64 \<Rightarrow> u32" where
  "udw_high n = ucast (drop_bit 32 n)"

definition udw_low :: "u64 \<Rightarrow> u32" where
  "udw_low n = ucast n"

definition udwords :: "u32 \<Rightarrow> u32 \<Rightarrow> u64" where
  "udwords high low = push_bit 32 (ucast high) OR ucast low"

section \<open>Unsigned division\<close>

text \<open>
  The loop of \<^verbatim>\<open>__udivmoddi4\<close>: \<open>sr\<close> counts down, the halves of \<open>r\<close> and \<open>q\<close> are
  shifted left as one four-word register, and the arithmetic shift of \<open>d - r - 1\<close> decides
  without a branch whether \<open>d\<close> is subtracted. The result is the pair of the returned quotient
  and the remainder stored through \<^verbatim>\<open>rem\<close>.
\<close>

fun udivmoddi4_loop ::
  "nat \<Rightarrow> u64 \<Rightarrow> u32 \<Rightarrow> u32 \<Rightarrow> u32 \<Rightarrow> u32 \<Rightarrow> u32 \<Rightarrow> u64 \<times> u64" where
  "udivmoddi4_loop 0 d rh rl qh ql carry =
     (push_bit 1 (udwords qh ql) OR ucast carry, udwords rh rl)"
| "udivmoddi4_loop (Suc sr) d rh rl qh ql carry =
     (let rh' = push_bit 1 rh OR drop_bit 31 rl;
          rl' = push_bit 1 rl OR drop_bit 31 qh;
          qh' = push_bit 1 qh OR drop_bit 31 ql;
          ql' = push_bit 1 ql OR carry;
          s = signed_drop_bit 63 (d - udwords rh' rl' - 1);
          r = udwords rh' rl' - (d AND s)
      in udivmoddi4_loop sr d (udw_high r) (udw_low r) qh' ql' (ucast (s AND 1)))"

definition udivmoddi4 :: "u64 \<Rightarrow> u64 \<Rightarrow> (u64 \<times> u64) outcome" where
  "udivmoddi4 a b =
     (let nh = udw_high a; nl = udw_low a; dh = udw_high b; dl = udw_low b in
      if nh = 0 then
        if dh = 0 then
          (if dl = 0 then Halts DivideError
           else Returns (ucast (nl div dl), ucast (nl mod dl)))
        else Returns (0, ucast nl)
      else if dl = 0 then
        if dh = 0 then Halts DivideError
        else if nl = 0 then Returns (ucast (nh div dh), udwords (nh mod dh) 0)
        else if dh AND (dh - 1) = 0 then
          Returns (ucast (drop_bit (builtin_ctz dh) nh), udwords (nh AND (dh - 1)) nl)
        else
          (let sr = word_of_nat (builtin_clz dh) - word_of_nat (builtin_clz nh) :: u32 in
           if sr > 30 then Returns (0, a)
           else let sr = unat (sr + 1) in
             Returns (udivmoddi4_loop sr b (drop_bit sr nh)
               (push_bit (32 - sr) nh OR drop_bit sr nl) (push_bit (32 - sr) nl) 0 0))
      else if dh = 0 then
        if dl AND (dl - 1) = 0 then
          if dl = 1 then Returns (a, ucast (nl AND (dl - 1)))
          else (let sr = builtin_ctz dl in
            Returns (udwords (drop_bit sr nh) (push_bit (32 - sr) nh OR drop_bit sr nl),
                     ucast (nl AND (dl - 1))))
        else
          (let sr = unat (1 + 32 + word_of_nat (builtin_clz dl)
                 - word_of_nat (builtin_clz nh) :: u32) in
           if sr = 32 then Returns (udivmoddi4_loop sr b 0 nh nl 0 0)
           else if sr < 32 then
             Returns (udivmoddi4_loop sr b (drop_bit sr nh)
               (push_bit (32 - sr) nh OR drop_bit sr nl) (push_bit (32 - sr) nl) 0 0)
           else
             Returns (udivmoddi4_loop sr b 0 (drop_bit (sr - 32) nh)
               (push_bit (64 - sr) nh OR drop_bit (sr - 32) nl) (push_bit (64 - sr) nl) 0))
      else
        (let sr = word_of_nat (builtin_clz dh) - word_of_nat (builtin_clz nh) :: u32 in
         if sr > 31 then Returns (0, a)
         else let sr = unat (sr + 1) in
           if sr = 32 then Returns (udivmoddi4_loop sr b 0 nh nl 0 0)
           else Returns (udivmoddi4_loop sr b (drop_bit sr nh)
             (push_bit (32 - sr) nh OR drop_bit sr nl) (push_bit (32 - sr) nl) 0 0)))"

definition udivdi3 :: "u64 \<Rightarrow> u64 \<Rightarrow> u64 outcome" where
  "udivdi3 a b = bind_outcome (udivmoddi4 a b) (\<lambda>(q, r). Returns q)"

definition umoddi3 :: "u64 \<Rightarrow> u64 \<Rightarrow> u64 outcome" where
  "umoddi3 a b = bind_outcome (udivmoddi4 a b) (\<lambda>(q, r). Returns r)"

fun udivsi3_loop :: "nat \<Rightarrow> u32 \<Rightarrow> u32 \<Rightarrow> u32 \<Rightarrow> u32 \<Rightarrow> u32" where
  "udivsi3_loop 0 d r q carry = push_bit 1 q OR carry"
| "udivsi3_loop (Suc sr) d r q carry =
     (let r' = push_bit 1 r OR drop_bit 31 q;
          q' = push_bit 1 q OR carry;
          s = signed_drop_bit 31 (d - r' - 1)
      in udivsi3_loop sr d (r' - (d AND s)) q' (s AND 1))"

text \<open>\<^verbatim>\<open>__udivsi3\<close> returns 0 for a zero divisor instead of trapping.\<close>

definition udivsi3 :: "u32 \<Rightarrow> u32 \<Rightarrow> u32" where
  "udivsi3 n d =
     (if d = 0 then 0
      else if n = 0 then 0
      else let sr = word_of_nat (builtin_clz d) - word_of_nat (builtin_clz n) :: u32 in
        if sr > 31 then 0
        else if sr = 31 then n
        else let sr = unat (sr + 1) in
          udivsi3_loop sr d (drop_bit sr n) (push_bit (32 - sr) n) 0)"

section \<open>Signed division\<close>

definition divdi3 :: "u64 \<Rightarrow> u64 \<Rightarrow> u64 outcome" where
  "divdi3 a b =
     (let s_a = signed_drop_bit 63 a;
          s_b = signed_drop_bit 63 b;
          a = (a XOR s_a) - s_a;
          b = (b XOR s_b) - s_b;
          s_a = s_a XOR s_b
      in bind_outcome (udivmoddi4 a b) (\<lambda>(q, r). Returns ((q XOR s_a) - s_a)))"

definition moddi3 :: "u64 \<Rightarrow> u64 \<Rightarrow> u64 outcome" where
  "moddi3 a b =
     (let s = signed_drop_bit 63 b;
          b = (b XOR s) - s;
          s = signed_drop_bit 63 a;
          a = (a XOR s) - s
      in bind_outcome (udivmoddi4 a b) (\<lambda>(q, r). Returns ((r XOR s) - s)))"

section \<open>The width-generic loop\<close>

text \<open>
  One register pair of any width, with the sign test of both sources. It is the reference both
  loops are compared with.
\<close>

fun shift_subtract ::
  "nat \<Rightarrow> 'a::len word \<Rightarrow> 'a word \<Rightarrow> 'a word \<Rightarrow> 'a word \<Rightarrow> 'a word \<times> 'a word" where
  "shift_subtract 0 d r q c = (push_bit 1 q OR c, r)"
| "shift_subtract (Suc k) d r q c =
     (let r' = push_bit 1 r OR drop_bit (LENGTH('a) - 1) q;
          s = signed_drop_bit (LENGTH('a) - 1) (d - r' - 1)
      in shift_subtract k d (r' - (d AND s)) (push_bit 1 q OR c) (s AND 1))"

lemma sign_test:
  fixes d r :: "'a::len word"
  defines "H \<equiv> 2 ^ (LENGTH('a) - 1)"
  assumes "unat d \<le> H \<and> unat r < 2 * unat d \<or> H \<le> unat d \<and> H \<le> unat r"
  shows "signed_drop_bit (LENGTH('a) - 1) (d - r - 1) = (if d \<le> r then - 1 else 0)"
proof -
  have H: "2 ^ LENGTH('a) = 2 * H"
    unfolding H_def by (simp flip: power_Suc)
  have r: "unat r < 2 * H" and d: "unat d < 2 * H" 
    using unat_lt_exp [of r] unat_lt_exp [of d] H by simp_all
  have "bit (d - r - 1) (LENGTH('a) - 1) \<longleftrightarrow> d \<le> r"
  proof (cases "d \<le> r")
    case True
    then have le: "unat d \<le> unat r" by (simp add: word_le_nat_alt)
    have eq: "d - r - 1 = 0 - (r - d + 1)" by simp
    have "unat (r - d + 1) = unat r - unat d + 1"
      using le assms(2) r H 
      by (subst unat_add_no_wrap) (auto simp: unat_sub_no_wrap)
    moreover have "unat r - unat d + 1 \<le> H"
      using le assms(2) r by linarith
    ultimately have "H \<le> unat (d - r - 1)"
      unfolding eq by (subst unat_sub_if') (simp add: H)
    with True show ?thesis using bit_top_iff [of "d - r - 1"] by (simp add: H_def)
  next
    case False
    then have lt: "unat r < unat d" by (simp add: word_less_nat_alt not_le)
    then have "d - r \<noteq> 0" by auto
    then have "unat (d - r - 1) = unat d - unat r - 1"
      using lt by (simp add: unat_sub_no_wrap)
    also have "\<dots> < H" using lt assms(2) d by linarith
    finally show ?thesis using False bit_top_iff [of "d - r - 1"] by (simp add: H_def)
  qed
  then show ?thesis by (simp only: signed_drop_bit_top)
qed

lemma unat_shift_in:
  fixes w c :: "'a::len word"
  assumes "unat c \<le> 1"
  shows "unat (push_bit 1 w OR c) = (2 * unat w + unat c) mod 2 ^ LENGTH('a)"
proof -
  have c: "c = 0 \<or> c = 1"
    using assms by (metis le_antisym less_one not_le unat_1 unat_eq_zero word_unat_eq_iff)
  then have "push_bit 1 w AND c = 0"
    by (auto simp: and_one_eq mod_2_eq_odd)
  then have eq: "unat (push_bit 1 w OR c) = unat w * 2 mod 2 ^ LENGTH('a) + unat c"
    by (simp only: unat_or_disjoint unat_push_bit power_one_right)
  let ?M = "2 ^ (LENGTH('a) - 1) :: nat"
  have "unat w * 2 mod 2 ^ LENGTH('a) = 2 * (unat w mod ?M)"
    by (simp only: two_power_len mult.commute [of "unat w" 2] mod_mult_mult1)
  moreover have "unat w mod ?M < ?M" by simp
  ultimately have "unat w * 2 mod 2 ^ LENGTH('a) + unat c < 2 ^ LENGTH('a)"
    using assms unfolding two_power_len by linarith
  then show ?thesis
    unfolding eq by (metis mod_add_left_eq mod_less mult.commute)
qed

lemma unat_top_bit:
  "unat (drop_bit (LENGTH('a) - 1) (w :: 'a::len word)) \<le> 1"
proof -
  have "unat w < 2 * 2 ^ (LENGTH('a) - 1)"
    using unat_lt_exp [of w] two_power_len [where 'a = 'a] by simp
  then have "unat w div 2 ^ (LENGTH('a) - 1) < 2" by (rule less_mult_imp_div_less)
  then show ?thesis by (simp add: unat_drop_bit)
qed

lemma div_step:
  fixes n k :: nat
  shows "n div 2 ^ k = 2 * (n div 2 ^ Suc k) + n mod 2 ^ Suc k div 2 ^ k"
proof -
  have "n mod 2 ^ Suc k div 2 ^ k = n div 2 ^ k mod 2"
    using mod_mult2_eq [of n "2 ^ k" 2] by (simp add: mult.commute [of 2])
  moreover have "n div 2 ^ Suc k = n div 2 ^ k div 2"
    by (simp add: div_mult2_eq mult.commute [of 2])
  ultimately show ?thesis
    by simp
qed

lemma queue_top:
  fixes n k L ql :: nat
  assumes "k < L" "ql < 2 ^ (L - Suc k)"
  shows "(n mod 2 ^ Suc k * 2 ^ (L - Suc k) + ql) div 2 ^ (L - 1) = n mod 2 ^ Suc k div 2 ^ k"
proof -
  have L: "(2::nat) ^ (L - 1) = 2 ^ (L - Suc k) * 2 ^ k"
    using assms(1) by (simp flip: power_add)
  show ?thesis
    unfolding L div_mult2_eq using assms(2) by simp
qed

lemma queue_shift:
  fixes n k L ql c :: nat
  assumes "k < L" "ql < 2 ^ (L - Suc k)" "c \<le> 1"
  shows "(2 * (n mod 2 ^ Suc k * 2 ^ (L - Suc k) + ql) + c) mod 2 ^ L =
    n mod 2 ^ k * 2 ^ (L - k) + (2 * ql + c)"
    and "2 * ql + c < 2 ^ (L - k)"
proof -
  have p: "(2::nat) ^ (L - k) = 2 * 2 ^ (L - Suc k)"
    using assms(1) by (simp flip: power_Suc add: Suc_diff_Suc)
  then show lt: "2 * ql + c < 2 ^ (L - k)" using assms(2,3) by simp
  let ?b = "n mod 2 ^ Suc k div 2 ^ k"
  have n: "n mod 2 ^ Suc k = ?b * 2 ^ k + n mod 2 ^ k"
    using mod_mod_cancel [of "2 ^ k" "2 ^ Suc k" n]
    by (metis div_mult_mod_eq le_imp_power_dvd lessI less_imp_le_nat)
  have L: "(2::nat) ^ L = 2 ^ k * 2 ^ (L - k)"
    using assms(1) by (simp flip: power_add)
  have "2 * (n mod 2 ^ Suc k * 2 ^ (L - Suc k) + ql) + c =
      n mod 2 ^ Suc k * 2 ^ (L - k) + (2 * ql + c)"
    unfolding p by (simp add: algebra_simps)
  also have "\<dots> = ?b * 2 ^ L + (n mod 2 ^ k * 2 ^ (L - k) + (2 * ql + c))"
    unfolding L by (subst n) (simp add: algebra_simps)
  also have "\<dots> mod 2 ^ L = (n mod 2 ^ k * 2 ^ (L - k) + (2 * ql + c)) mod 2 ^ L"
    by simp
  also have "n mod 2 ^ k * 2 ^ (L - k) + (2 * ql + c) < 2 ^ L"
  proof -
    have "n mod 2 ^ k * 2 ^ (L - k) + 2 ^ (L - k) \<le> 2 ^ L"
      unfolding L using mult_le_mono1 [of "Suc (n mod 2 ^ k)" "2 ^ k" "2 ^ (L - k)"]
      by (simp add: Suc_leI)
    with lt show ?thesis by linarith
  qed
  ultimately show "(2 * (n mod 2 ^ Suc k * 2 ^ (L - Suc k) + ql) + c) mod 2 ^ L =
    n mod 2 ^ k * 2 ^ (L - k) + (2 * ql + c)" by simp
qed

text \<open>One round of the loop, on unsigned values.\<close>

lemma shift_subtract_round:
  fixes d r q c :: "'a::len word" and n k Q ql :: nat
  assumes n: "n < 2 ^ LENGTH('a)" and k: "k < LENGTH('a)"
    and R: "n div 2 ^ Suc k = Q * unat d + unat r" "unat r < unat d"
    and q: "unat q = n mod 2 ^ Suc k * 2 ^ (LENGTH('a) - Suc k) + ql"
      "ql < 2 ^ (LENGTH('a) - Suc k)"
    and B: "unat d \<le> 2 ^ (LENGTH('a) - 1) \<or> k = 0 \<and> Q = 0 \<and> 2 ^ (LENGTH('a) - 1) \<le> n"
  defines "r' \<equiv> push_bit 1 r OR drop_bit (LENGTH('a) - 1) q"
  defines "s \<equiv> signed_drop_bit (LENGTH('a) - 1) (d - r' - 1)"
  shows "s = (if d \<le> r' then - 1 else 0)"
    and "n div 2 ^ k = (2 * Q + (if d \<le> r' then 1 else 0)) * unat d + unat (r' - (d AND s))"
    and "unat (r' - (d AND s)) < unat d"
proof -
  let ?b = "n mod 2 ^ Suc k div 2 ^ k"
  have b: "unat (drop_bit (LENGTH('a) - 1) q) = ?b"
    unfolding unat_drop_bit q(1) using k q(2) by (rule queue_top)
  have b1: "?b \<le> 1" using unat_top_bit [of q] b by simp
  have nk: "n div 2 ^ k = 2 * Q * unat d + (2 * unat r + ?b)"
    using div_step [of n k] unfolding R(1) by (simp add: distrib_left)
  have "2 * unat r + ?b \<le> n div 2 ^ k" unfolding nk by simp
  also have "\<dots> \<le> n" by (rule div_le_dividend)
  finally have "2 * unat r + ?b < 2 ^ LENGTH('a)" using n by simp
  then have r': "unat r' = 2 * unat r + ?b"
    unfolding r'_def using unat_shift_in [of "drop_bit (LENGTH('a) - 1) q" r] b b1 by simp
  have lt: "unat r' < 2 * unat d" using r' b1 R(2) by linarith
  have "unat d \<le> 2 ^ (LENGTH('a) - 1) \<and> unat r' < 2 * unat d \<or>
      2 ^ (LENGTH('a) - 1) \<le> unat d \<and> 2 ^ (LENGTH('a) - 1) \<le> unat r'"
    using B lt nk r' by auto
  then show s: "s = (if d \<le> r' then - 1 else 0)"
    unfolding s_def by (rule sign_test)
  show "n div 2 ^ k = (2 * Q + (if d \<le> r' then 1 else 0)) * unat d + unat (r' - (d AND s))"
    using nk r' by (auto simp: s unat_sub word_le_nat_alt algebra_simps)
  show "unat (r' - (d AND s)) < unat d"
    using lt by (auto simp: s unat_sub word_le_nat_alt)
qed

lemma shift_subtract_correct:
  fixes d r q c :: "'a::len word" and n k Q ql :: nat
  assumes n: "n < 2 ^ LENGTH('a)" and k: "k \<le> LENGTH('a)"
    and R: "n div 2 ^ k = Q * unat d + unat r" "unat r < unat d"
    and q: "unat q = n mod 2 ^ k * 2 ^ (LENGTH('a) - k) + ql" "ql < 2 ^ (LENGTH('a) - k)"
    and c: "Q = 2 * ql + unat c" "unat c \<le> 1"
    and B: "unat d \<le> 2 ^ (LENGTH('a) - 1) \<or> k = 0 \<or>
      k = 1 \<and> Q = 0 \<and> 2 ^ (LENGTH('a) - 1) \<le> n"
  shows "shift_subtract k d r q c = (word_of_nat (n div unat d), word_of_nat (n mod unat d))"
  using k R q c B
proof (induction k arbitrary: r q c Q ql)
  case 0
  then have nQ: "n = Q * unat d + unat r" by simp
  have "Q \<le> n" using nQ 0 by (cases "unat d") auto
  then have "unat (push_bit 1 q OR c) = Q"
    using 0 n unat_shift_in [of c q] by simp
  moreover have "n div unat d = Q" "n mod unat d = unat r"
    using nQ 0 by simp_all
  ultimately show ?case
    by (simp add: word_unat_eq_iff unat_of_nat) (metis mod_less n unat_lt_exp)
next
  case (Suc k)
  define r' where "r' = push_bit 1 r OR drop_bit (LENGTH('a) - 1) q"
  define s where "s = signed_drop_bit (LENGTH('a) - 1) (d - r' - 1)"
  have k: "k < LENGTH('a)" using Suc.prems(1) by simp
  have B': "unat d \<le> 2 ^ (LENGTH('a) - 1) \<or> k = 0 \<and> Q = 0 \<and> 2 ^ (LENGTH('a) - 1) \<le> n"
    using Suc.prems(8) by auto
  note round = shift_subtract_round [OF n k Suc.prems(2-5) B', folded r'_def, folded s_def]
  have c': "unat (s AND 1) = (if d \<le> r' then 1 else 0)"
    unfolding round(1) by simp
  have q': "unat (push_bit 1 q OR c) = n mod 2 ^ k * 2 ^ (LENGTH('a) - k) + Q"
    using queue_shift(1) [OF k Suc.prems(5,7), of n]
    by (simp only: unat_shift_in [OF Suc.prems(7)] Suc.prems(4,6))
  have "Q < 2 ^ (LENGTH('a) - k)"
    using queue_shift(2) [OF k Suc.prems(5,7)] Suc.prems(6) by simp
  moreover have "unat d \<le> 2 ^ (LENGTH('a) - 1) \<or> k = 0 \<or>
      k = 1 \<and> 2 * Q + (if d \<le> r' then 1 else 0) = 0 \<and> 2 ^ (LENGTH('a) - 1) \<le> n"
    using B' by blast
  ultimately have "shift_subtract k d (r' - (d AND s)) (push_bit 1 q OR c) (s AND 1) =
      (word_of_nat (n div unat d), word_of_nat (n mod unat d))"
    using k by (intro Suc.IH [OF _ round(2,3) q']) (simp_all only: c' less_imp_le, simp)
  then show ?case
    by (simp only: shift_subtract.simps Let_def r'_def s_def)
qed

corollary shift_subtract_divides:
  fixes d n :: "'a::len word"
  assumes "0 < sr" "sr < LENGTH('a)" and lt: "unat n div 2 ^ sr < unat d"
    and B: "unat d \<le> 2 ^ (LENGTH('a) - 1) \<or> sr = 1 \<and> 2 ^ (LENGTH('a) - 1) \<le> unat n"
  shows "shift_subtract sr d (drop_bit sr n) (push_bit (LENGTH('a) - sr) n) 0 = (n div d, n mod d)"
proof -
  have "unat n * 2 ^ (LENGTH('a) - sr) mod 2 ^ LENGTH('a) =
      unat n mod 2 ^ sr * 2 ^ (LENGTH('a) - sr)"
    using assms(2) mod_mult_mult2 [of "unat n" "2 ^ (LENGTH('a) - sr)" "2 ^ sr"]
    by (simp flip: power_add)
  then have "shift_subtract sr d (drop_bit sr n) (push_bit (LENGTH('a) - sr) n) 0 =
      (word_of_nat (unat n div unat d), word_of_nat (unat n mod unat d))"
    using assms
    by (intro shift_subtract_correct [where Q = 0 and ql = 0 and n = "unat n"])
      (auto simp: unat_lt_exp unat_push_bit unat_drop_bit)
  then show ?thesis
    by (simp flip: unat_div unat_mod)
qed

lemma builtin_clz_bounds:
  assumes "x \<noteq> 0"
  shows "builtin_clz x < 32" "2 ^ (31 - builtin_clz x) \<le> unat x"
    "unat x < 2 ^ (32 - builtin_clz x)"
proof -
  obtain m where m: "m < 32" "2 ^ m \<le> unat x" "unat x < 2 ^ Suc m"
    using assms by (rule top_bit_exists) simp
  have "rev [0..<32] = rev [Suc m..<32] @ m # rev [0..<m]"
    using m(1) by (simp add: upt_split [of m 32])
  then have "takeWhile (\<lambda>i. \<not> bit x i) (rev [0..<32]) = rev [Suc m..<32]"
    using no_bit_above [OF m(3)] bit_unat_exact [OF m(2,3)]
    by (intro takeWhile_prefix) auto
  then have "builtin_clz x = 31 - m"
    by (simp add: builtin_clz_def)
  with m show "builtin_clz x < 32" "2 ^ (31 - builtin_clz x) \<le> unat x"
    "unat x < 2 ^ (32 - builtin_clz x)"
    by (simp_all add: Suc_diff_le)
qed

lemma builtin_ctz_power:
  assumes "m < 32"
  shows "builtin_ctz (2 ^ m) = m"
proof -
  have "takeWhile (\<lambda>i. \<not> bit (2 ^ m :: u32) i) [0..<32] = [0..<m]"
    using assms by (intro takeWhile_prefix [OF upt_split]) (auto simp: bit_exp_iff)
  then show ?thesis by (simp add: builtin_ctz_def)
qed

lemma udw_high_udwords [simp]: "udw_high (udwords h l) = h"
  by (rule bit_word_eqI) (auto simp: udw_high_def udwords_def bit_simps dest: bit_imp_le_length)

lemma udw_low_udwords [simp]: "udw_low (udwords h l) = l"
  by (rule bit_word_eqI) (simp add: udw_low_def udwords_def bit_simps)

lemma udwords_high_low [simp]: "udwords (udw_high w) (udw_low w) = w"
  by (rule bit_word_eqI) (auto simp: udw_high_def udw_low_def udwords_def bit_simps)

lemma unat_udwords: "unat (udwords h l) = unat h * 2 ^ 32 + unat l"
proof -
  have "push_bit 32 (ucast h :: u64) AND ucast l = 0"
    by (rule bit_word_eqI) (auto simp: bit_simps dest: bit_imp_le_length)
  moreover have "unat h * 2 ^ 32 < 2 ^ 64"
    using unat_lt_exp [of h] by simp
  moreover have "unat l < 2 ^ 64" using unat_lt_exp [of l] by simp
  ultimately show ?thesis
    by (simp add: udwords_def unat_or_disjoint unat_push_bit unsigned_ucast_eq take_bit_eq_mod)
qed

lemma unat_udw: "unat a = unat (udw_high a) * 2 ^ 32 + unat (udw_low a)"
  using unat_udwords [of "udw_high a" "udw_low a"] by simp

lemma udwords_shift_left:
  "udwords (push_bit 1 h OR drop_bit 31 l) (push_bit 1 l OR c) = push_bit 1 (udwords h l) OR ucast c"
proof (rule bit_word_eqI)
  fix n assume "n < LENGTH(64)"
  then have "n < 32 \<or> n = 32 \<or> 32 < n \<and> n < 64" by auto
  then show "bit (udwords (push_bit 1 h OR drop_bit 31 l) (push_bit 1 l OR c)) n =
      bit (push_bit 1 (udwords h l) OR ucast c) n"
    by (auto simp: udwords_def bit_simps simp del: push_bit_Suc dest: bit_imp_le_length)
qed

lemma udwords_top: "ucast (drop_bit 31 h) = drop_bit 63 (udwords h l)"
  by (rule bit_word_eqI) (auto simp: udwords_def bit_simps dest: bit_imp_le_length)

lemma udivmoddi4_loop_eq:
  "udivmoddi4_loop k d rh rl qh ql c = shift_subtract k d (udwords rh rl) (udwords qh ql) (ucast c)"
proof (induction k arbitrary: rh rl qh ql c)
  case 0
  show ?case by simp
next
  case (Suc k)
  have "ucast (ucast (s AND 1) :: u32) = s AND 1" for s :: u64
    by (rule bit_word_eqI) (auto simp: bit_simps)
  then show ?case
    by (simp add: Let_def Suc.IH udwords_shift_left udwords_top [of qh ql] del: push_bit_Suc One_nat_def)
qed

lemma bit_udwords: "bit (udwords h l) n \<longleftrightarrow> (if n < 32 then bit l n else bit h (n - 32))"
  by (auto simp: udwords_def bit_simps dest: bit_imp_le_length)

lemma udwords_drop_small:
  assumes "0 < sr" "sr < 32"
  shows "udwords (drop_bit sr h) (push_bit (32 - sr) h OR drop_bit sr l) = drop_bit sr (udwords h l)"
proof (rule bit_word_eqI)
  fix n assume "n < LENGTH(64)"
  consider "n < 32 - sr" | "32 - sr \<le> n" "n < 32" | "32 \<le> n" by linarith
  then show "bit (udwords (drop_bit sr h) (push_bit (32 - sr) h OR drop_bit sr l)) n =
      bit (drop_bit sr (udwords h l)) n"
  proof cases
    case 1
    then have "sr + n < 32" "n < 32" by auto
    with 1 show ?thesis using assms by (simp add: bit_udwords bit_or_iff bit_push_bit_iff bit_drop_bit_eq)
  next
    case 2
    moreover have "\<not> bit l (sr + n)" "\<not> n + sr < 32"
      using 2 bit_imp_le_length [of l "sr + n"] by auto
    ultimately show ?thesis
      using assms by (simp add: bit_udwords bit_or_iff bit_push_bit_iff bit_drop_bit_eq add.commute)
  next
    case 3
    then show ?thesis using assms by (simp add: bit_udwords bit_drop_bit_eq)
  qed
qed

lemma udwords_push_small:
  "0 < sr \<Longrightarrow> sr \<le> 32 \<Longrightarrow> udwords (push_bit (32 - sr) l) 0 = push_bit (64 - sr) (udwords h l)"
  by (rule bit_word_eqI) (auto simp: udwords_def bit_simps dest: bit_imp_le_length)

lemma udwords_drop_big:
  "32 \<le> sr \<Longrightarrow> udwords 0 (drop_bit (sr - 32) h) = drop_bit sr (udwords h l)"
  by (rule bit_word_eqI) (auto simp: udwords_def bit_simps dest: bit_imp_le_length)

lemma udwords_push_big:
  assumes "32 < sr" "sr < 64"
  shows "udwords (push_bit (64 - sr) h OR drop_bit (sr - 32) l) (push_bit (64 - sr) l) =
    push_bit (64 - sr) (udwords h l)"
proof (rule bit_word_eqI)
  fix n assume n: "n < LENGTH(64)"
  consider "n < 32" | "32 \<le> n" "n < 96 - sr" | "96 - sr \<le> n" by linarith
  then show "bit (udwords (push_bit (64 - sr) h OR drop_bit (sr - 32) l) (push_bit (64 - sr) l)) n =
      bit (push_bit (64 - sr) (udwords h l)) n"
  proof cases
    case 1
    then have "n - (64 - sr) < 32" by auto
    with 1 show ?thesis using assms by (simp add: bit_udwords bit_push_bit_iff)
  next
    case 2
    then have "sr - 32 + (n - 32) = n - (64 - sr)" "n - (64 - sr) < 32" "n - 32 < 64 - sr" "64 - sr \<le> n"
      using assms by auto
    with 2 assms n show ?thesis
      by (simp add: bit_udwords bit_or_iff bit_push_bit_iff bit_drop_bit_eq)
  next
    case 3
    then have "n - 32 - (64 - sr) = n - (64 - sr) - 32" "32 \<le> n - (64 - sr)" "32 \<le> n"
      "64 - sr \<le> n - 32" "64 - sr \<le> n" "n - 32 < 32"
      using assms n by auto
    moreover have "\<not> bit l (sr - 32 + (n - 32))"
      using 3 assms bit_imp_le_length [of l "sr - 32 + (n - 32)"] by auto
    ultimately show ?thesis
      using 3 assms n by (simp add: bit_udwords bit_or_iff bit_push_bit_iff bit_drop_bit_eq)
  qed
qed

lemma udivmoddi4_loop_divides:
  assumes "udwords rh rl = drop_bit sr a" "udwords qh ql = push_bit (64 - sr) a"
    and "0 < sr" "sr < 64" "unat a div 2 ^ sr < unat b"
    and "unat b \<le> 2 ^ 63 \<or> sr = 1 \<and> 2 ^ 63 \<le> unat a"
  shows "udivmoddi4_loop sr b rh rl qh ql 0 = (a div b, a mod b)"
  using shift_subtract_divides [of sr a b] assms by (simp add: udivmoddi4_loop_eq)

lemma unat_ucast_u64 [simp]: "unat (ucast (w :: u32) :: u64) = unat w"
proof -
  have "unat w < 2 ^ 64" using unat_lt_exp [of w] by simp
  then show ?thesis by (simp add: unsigned_ucast_eq take_bit_eq_mod)
qed

lemma clz_udw_bounds:
  assumes "udw_high a \<noteq> 0"
  shows "unat a < 2 ^ (64 - builtin_clz (udw_high a))"
    and "2 ^ (63 - builtin_clz (udw_high a)) \<le> unat a"
proof -
  let ?c = "builtin_clz (udw_high a)"
  note c = builtin_clz_bounds [OF assms]
  have e: "(2::nat) ^ (64 - ?c) = 2 ^ (32 - ?c) * 2 ^ 32" "(2::nat) ^ (63 - ?c) = 2 ^ (31 - ?c) * 2 ^ 32"
    using c(1) power_add [of "2::nat" "32 - ?c" 32] power_add [of "2::nat" "31 - ?c" 32]
    by simp_all
  have "Suc (unat (udw_high a)) * 2 ^ 32 \<le> 2 ^ (32 - ?c) * 2 ^ 32"
    using c(3) by (intro mult_le_mono1) simp
  then show "unat a < 2 ^ (64 - ?c)"
    unfolding e using unat_udw [of a] unat_lt_exp [of "udw_low a"] by simp
  have "2 ^ (31 - ?c) * 2 ^ 32 \<le> unat (udw_high a) * 2 ^ 32"
    using c(2) by (intro mult_le_mono1)
  then show "2 ^ (63 - ?c) \<le> unat a"
    unfolding e using unat_udw [of a] by simp
qed

text \<open>The shift count of the two branches with a nonzero high divisor half.\<close>

lemma clz_difference:
  assumes "udw_high a \<noteq> 0" "udw_high b \<noteq> 0"
  defines "sr \<equiv> word_of_nat (builtin_clz (udw_high b)) - word_of_nat (builtin_clz (udw_high a)) :: u32"
  shows "sr > 31 \<Longrightarrow> unat a < unat b"
    and "sr \<le> 31 \<Longrightarrow> unat (sr + 1) = builtin_clz (udw_high b) - builtin_clz (udw_high a) + 1"
    and "sr \<le> 31 \<Longrightarrow> builtin_clz (udw_high a) \<le> builtin_clz (udw_high b)"
proof -
  let ?m = "builtin_clz (udw_high b)" and ?k = "builtin_clz (udw_high a)"
  note m = builtin_clz_bounds [OF assms(2)] and k = builtin_clz_bounds [OF assms(1)]
  have w: "unat (word_of_nat ?m :: u32) = ?m" "unat (word_of_nat ?k :: u32) = ?k"
    using m(1) k(1) by (simp_all add: unat_of_nat)
  have sr: "unat sr = (if ?k \<le> ?m then ?m - ?k else ?m + 2 ^ 32 - ?k)"
    unfolding sr_def unat_sub_if' w by simp
  have "\<not> ?k \<le> ?m" if "sr > 31"
    using that sr m(1) by (auto simp: word_less_nat_alt split: if_splits)
  moreover have "unat a < unat b" if "\<not> ?k \<le> ?m"
  proof -
    have "unat a < 2 ^ (64 - ?k)" by (rule clz_udw_bounds [OF assms(1)])
    also have "\<dots> \<le> 2 ^ (63 - ?m)" using that k(1) by (intro power_increasing) auto
    also have "\<dots> \<le> unat b" by (rule clz_udw_bounds [OF assms(2)])
    finally show ?thesis .
  qed
  ultimately show "sr > 31 \<Longrightarrow> unat a < unat b" by blast
  show le: "?k \<le> ?m" if "sr \<le> 31"
    using that sr k(1) by (auto simp: word_le_nat_alt split: if_splits)
  show "unat (sr + 1) = ?m - ?k + 1" if "sr \<le> 31"
    using sr le [OF that] m(1) by (subst unat_add_no_wrap) auto
qed

lemma udivmoddi4_high_divisor:
  assumes h: "udw_high a \<noteq> 0" "udw_high b \<noteq> 0"
    and sr: "word_of_nat (builtin_clz (udw_high b)) - word_of_nat (builtin_clz (udw_high a)) \<le> (31 :: u32)"
  defines "k \<equiv> builtin_clz (udw_high b) - builtin_clz (udw_high a) + 1"
  shows "0 < k" "k \<le> 32" "unat a div 2 ^ k < unat b"
    "unat b \<le> 2 ^ 63 \<or> k = 1 \<and> 2 ^ 63 \<le> unat a"
proof -
  note le = clz_difference(3) [OF h sr]
  note m = builtin_clz_bounds [OF h(2)]
  show "0 < k" "k \<le> 32" using m(1) by (simp_all add: k_def)
  have "unat a div 2 ^ k < 2 ^ (63 - builtin_clz (udw_high b))"
    using clz_udw_bounds(1) [OF h(1)] by (rule div_power_lt) (use le m(1) in \<open>simp add: k_def\<close>)
  also have "\<dots> \<le> unat b" by (rule clz_udw_bounds(2) [OF h(2)])
  finally show "unat a div 2 ^ k < unat b" .
  show "unat b \<le> 2 ^ 63 \<or> k = 1 \<and> 2 ^ 63 \<le> unat a"
  proof (cases "builtin_clz (udw_high b) = 0")
    case True
    with le have "builtin_clz (udw_high a) = 0" by simp
    then show ?thesis
      using clz_udw_bounds(2) [OF h(1)] True by (simp add: k_def)
  next
    case False
    then have "(2::nat) ^ (64 - builtin_clz (udw_high b)) \<le> 2 ^ 63"
      by (intro power_increasing) auto
    then show ?thesis using clz_udw_bounds(1) [OF h(2)] by linarith
  qed
qed

lemma udivmoddi4_low_divisor:
  assumes h: "udw_high a \<noteq> 0" "udw_high b = 0"
    and p: "udw_low b AND (udw_low b - 1) \<noteq> 0"
  defines "k \<equiv> unat (1 + 32 + word_of_nat (builtin_clz (udw_low b))
                 - word_of_nat (builtin_clz (udw_high a)) :: u32)"
  shows "1 < k" "k < 64" "unat a div 2 ^ k < unat b" "unat b \<le> 2 ^ 63"
proof -
  let ?d = "udw_low b"
  have d0: "?d \<noteq> 0" using p by auto
  note m = builtin_clz_bounds [OF d0] and n = builtin_clz_bounds [OF h(1)]
  have b: "unat b = unat ?d" using unat_udw [of b] h(2) by simp
  have "2 \<le> unat ?d"
  proof (rule ccontr)
    assume "\<not> 2 \<le> unat ?d"
    then have "unat ?d = 1" using d0 by (metis One_nat_def Suc_leI le_antisym not_less_eq_eq numeral_2_eq_2 unat_gt_0)
    then have "?d = 1" by (simp add: word_unat_eq_iff)
    with p show False by simp
  qed
  then have m30: "builtin_clz ?d \<le> 30"
    using m(3) by (cases "builtin_clz ?d = 31") (use m(1) in auto)
  have "unat (1 + 32 + word_of_nat (builtin_clz ?d) :: u32) = 33 + builtin_clz ?d"
    using m(1) by (subst unat_add_no_wrap) (simp_all add: unat_of_nat)
  moreover have "unat (word_of_nat (builtin_clz (udw_high a)) :: u32) = builtin_clz (udw_high a)"
    using n(1) by (simp add: unat_of_nat)
  ultimately have k: "k = 33 + builtin_clz ?d - builtin_clz (udw_high a)"
    unfolding k_def using n(1) by (subst unat_sub_no_wrap) simp_all
  show "1 < k" "k < 64" using k n(1) m30 by auto
  have "unat a div 2 ^ k < 2 ^ (31 - builtin_clz ?d)"
    using clz_udw_bounds(1) [OF h(1)] by (rule div_power_lt) (use m30 n(1) in \<open>simp add: k\<close>)
  with m(2) b show "unat a div 2 ^ k < unat b" by simp
  show "unat b \<le> 2 ^ 63" using b unat_lt_exp [of ?d] by simp
qed

lemma udivmoddi4_simple:
  fixes a b :: u64
  defines "nh \<equiv> udw_high a" and "nl \<equiv> udw_low a" and "dh \<equiv> udw_high b" and "dl \<equiv> udw_low b"
  shows "nh = 0 \<Longrightarrow> dh = 0 \<Longrightarrow> (ucast (nl div dl), ucast (nl mod dl)) = (a div b, a mod b)"
    and "nh = 0 \<Longrightarrow> dh \<noteq> 0 \<Longrightarrow> (0, ucast nl) = (a div b, a mod b)"
    and "nl = 0 \<Longrightarrow> dl = 0 \<Longrightarrow> (ucast (nh div dh), udwords (nh mod dh) 0) = (a div b, a mod b)"
    and "unat a < unat b \<Longrightarrow> (0, a) = (a div b, a mod b)"
proof -
  note a = unat_udw [of a, folded nh_def nl_def] and b = unat_udw [of b, folded dh_def dl_def]
  show "(ucast (nl div dl), ucast (nl mod dl)) = (a div b, a mod b)" if "nh = 0" "dh = 0"
    using that a b by (intro word_divmod_eqI) (simp_all add: unat_div unat_mod)
  show "(0, ucast nl) = (a div b, a mod b)" if "nh = 0" "dh \<noteq> 0"
  proof -
    have "unat nl < 2 ^ 32 * 1" using unat_lt_exp [of nl] by simp
    also have "\<dots> \<le> 2 ^ 32 * unat dh" using that(2) by (intro mult_le_mono2) (simp add: Suc_leI unat_gt_0)
    finally have "unat a < unat b" using a b that by simp
    then show ?thesis using a that by (intro word_divmod_eqI) simp_all
  qed
  show "(ucast (nh div dh), udwords (nh mod dh) 0) = (a div b, a mod b)" if "nl = 0" "dl = 0"
    using that a b
    by (intro word_divmod_eqI) (simp_all add: unat_div unat_mod unat_udwords mod_mult_mult2)
  show "(0, a) = (a div b, a mod b)" if "unat a < unat b"
    using that by (intro word_divmod_eqI) simp_all
qed

lemma udivmoddi4_pow2_high:
  assumes "udw_low b = 0" "udw_high b = 2 ^ m" "m < 32"
  shows "(ucast (drop_bit m (udw_high a)), udwords (udw_high a AND (2 ^ m - 1)) (udw_low a)) =
    (a div b, a mod b)"
proof (rule word_divmod_eqI)
  have b: "unat b = 2 ^ 32 * 2 ^ m"
    using unat_udw [of b] assms by (simp add: unat_exp)
  have a: "unat a = 2 ^ 32 * unat (udw_high a) + unat (udw_low a)" 
    using unat_udw [of a] by simp
  have l: "unat (udw_low a) < 2 ^ 32" using unat_lt_exp [of "udw_low a"] by simp
  have d: "unat a div 2 ^ 32 = unat (udw_high a)" and r: "unat a mod 2 ^ 32 = unat (udw_low a)"
    unfolding a using l by simp_all
  show "unat (ucast (drop_bit m (udw_high a)) :: u64) = unat a div unat b"
    unfolding b div_mult2_eq d by (simp add: unat_drop_bit)
  show "unat (udwords (udw_high a AND (2 ^ m - 1)) (udw_low a)) = unat a mod unat b"
    unfolding b mod_mult2_eq d r using and_pow2_minus [of m "udw_high a"] assms(3)
    by (simp add: unat_udwords)
qed

lemma udivmoddi4_pow2_low:
  assumes "udw_high b = 0" "udw_low b = 2 ^ m" "0 < m" "m < 32"
  shows "(udwords (drop_bit m (udw_high a)) (push_bit (32 - m) (udw_high a) OR drop_bit m (udw_low a)),
      ucast (udw_low a AND (2 ^ m - 1))) = (a div b, a mod b)"
proof (rule word_divmod_eqI)
  have b: "unat b = 2 ^ m" using unat_udw [of b] assms by (simp add: unat_exp)
  show "unat (udwords (drop_bit m (udw_high a))
      (push_bit (32 - m) (udw_high a) OR drop_bit m (udw_low a))) = unat a div unat b"
    using assms by (simp add: udwords_drop_small b unat_drop_bit)
  have "(2::nat) ^ m dvd 2 ^ 32" using assms(4) by (intro le_imp_power_dvd) simp
  then have "unat a mod 2 ^ m = unat (udw_low a) mod 2 ^ m"
    by (subst unat_udw) (metis mod_add_left_eq dvd_imp_mod_0 dvd_mult add_0)
  then show "unat (ucast (udw_low a AND (2 ^ m - 1)) :: u64) = unat a mod unat b"
    using and_pow2_minus [of m "udw_low a"] assms(4) by (simp add: b)
qed

lemma udivmoddi4_loop_start:
  assumes "0 < k" "k < 64" "unat a div 2 ^ k < unat b"
    and "unat b \<le> 2 ^ 63 \<or> k = 1 \<and> 2 ^ 63 \<le> unat a"
  shows "k < 32 \<Longrightarrow> udivmoddi4_loop k b (drop_bit k (udw_high a))
      (push_bit (32 - k) (udw_high a) OR drop_bit k (udw_low a)) (push_bit (32 - k) (udw_low a)) 0 0 =
      (a div b, a mod b)"
    and "k = 32 \<Longrightarrow> udivmoddi4_loop k b 0 (udw_high a) (udw_low a) 0 0 = (a div b, a mod b)"
    and "32 < k \<Longrightarrow> udivmoddi4_loop k b 0 (drop_bit (k - 32) (udw_high a))
      (push_bit (64 - k) (udw_high a) OR drop_bit (k - 32) (udw_low a))
      (push_bit (64 - k) (udw_low a)) 0 = (a div b, a mod b)"
proof -
  note loop = udivmoddi4_loop_divides [OF _ _ assms]
  let ?h = "udw_high a" and ?l = "udw_low a"
  show "udivmoddi4_loop k b (drop_bit k ?h) (push_bit (32 - k) ?h OR drop_bit k ?l)
      (push_bit (32 - k) ?l) 0 0 = (a div b, a mod b)" if "k < 32"
    using that assms(1) by (intro loop) (simp_all add: udwords_drop_small udwords_push_small [where h = ?h])
  show "udivmoddi4_loop k b 0 ?h ?l 0 0 = (a div b, a mod b)" if "k = 32"
    using that udwords_drop_big [of k ?h ?l] udwords_push_small [of k ?l ?h] by (intro loop) simp_all
  show "udivmoddi4_loop k b 0 (drop_bit (k - 32) ?h) (push_bit (64 - k) ?h OR drop_bit (k - 32) ?l)
      (push_bit (64 - k) ?l) 0 = (a div b, a mod b)" if "32 < k"
    using that assms(2) udwords_drop_big [of k ?h ?l] by (intro loop) (simp_all add: udwords_push_big)
qed

lemma word_pred_bound: "w \<le> 31 \<Longrightarrow> unat (w + 1) < 32 \<Longrightarrow> w \<le> 30" for w :: u32
  by (simp add: word_le_nat_alt unat_plus_if')

lemma word_30_31: "(30 :: u32) < 31"
  by simp

text \<open>The three branches that enter the loop.\<close>

lemma udivmoddi4_even_divisor:
  assumes "udw_high a \<noteq> 0" "udw_low b = 0" "udw_low a \<noteq> 0"
    and p: "udw_high b AND (udw_high b - 1) \<noteq> 0"
  shows "udivmoddi4 a b = Returns (a div b, a mod b)"
proof -
  let ?sr = "word_of_nat (builtin_clz (udw_high b)) - word_of_nat (builtin_clz (udw_high a)) :: u32"
  have h: "udw_high b \<noteq> 0" using p by auto
  have "builtin_clz (udw_high b) \<noteq> 31"
  proof
    assume "builtin_clz (udw_high b) = 31"
    then have "unat (udw_high b) = 1"
      using builtin_clz_bounds(2,3) [OF h] by simp
    then have "udw_high b = 1" by (simp add: word_unat_eq_iff)
    with p show False by simp
  qed
  then have k: "builtin_clz (udw_high b) - builtin_clz (udw_high a) + 1 < 32"
    using builtin_clz_bounds(1) [OF h] by simp
  have "?sr \<le> 30" if "?sr \<le> 31"
  proof -
    have "unat (?sr + 1) < 32" using clz_difference(2) [OF assms(1) h that] k by simp
    with that show ?thesis by (rule word_pred_bound)
  qed
  then have cases: "?sr > 31 \<and> ?sr > 30 \<or> ?sr \<le> 31 \<and> \<not> ?sr > 30"
    by (meson leD leI less_trans word_30_31)
  then show ?thesis
  proof
    assume "?sr > 31 \<and> ?sr > 30"
    then show ?thesis
      using assms h p clz_difference(1) [OF assms(1) h] udivmoddi4_simple(4) [of a b]
      by (simp add: udivmoddi4_def Let_def)
  next
    assume sr: "?sr \<le> 31 \<and> \<not> ?sr > 30"
    then show ?thesis
      using assms h p k clz_difference(2) [OF assms(1) h] udivmoddi4_high_divisor [OF assms(1) h]
        udivmoddi4_loop_start(1) [of "builtin_clz (udw_high b) - builtin_clz (udw_high a) + 1" a b]
      by (simp add: udivmoddi4_def Let_def)
  qed
qed

lemma udivmoddi4_word_divisor:
  assumes "udw_high a \<noteq> 0" "udw_high b = 0" "udw_low b \<noteq> 0"
    and p: "udw_low b AND (udw_low b - 1) \<noteq> 0"
  shows "udivmoddi4 a b = Returns (a div b, a mod b)"
proof -
  define k where "k = unat (1 + 32 + word_of_nat (builtin_clz (udw_low b))
                 - word_of_nat (builtin_clz (udw_high a)) :: u32)"
  note low = udivmoddi4_low_divisor [OF assms(1,2) p, folded k_def]
  note start = udivmoddi4_loop_start [of k a b]
  have "udivmoddi4 a b =
      (if k = 32 then Returns (udivmoddi4_loop k b 0 (udw_high a) (udw_low a) 0 0)
       else if k < 32 then
         Returns (udivmoddi4_loop k b (drop_bit k (udw_high a))
           (push_bit (32 - k) (udw_high a) OR drop_bit k (udw_low a)) (push_bit (32 - k) (udw_low a)) 0 0)
       else
         Returns (udivmoddi4_loop k b 0 (drop_bit (k - 32) (udw_high a))
           (push_bit (64 - k) (udw_high a) OR drop_bit (k - 32) (udw_low a))
           (push_bit (64 - k) (udw_low a)) 0))"
    using assms unfolding udivmoddi4_def Let_def k_def by simp
  then show ?thesis using low start by (cases k "32 :: nat" rule: linorder_cases) simp_all
qed

lemma udivmoddi4_full_divisor:
  assumes "udw_high a \<noteq> 0" "udw_high b \<noteq> 0" "udw_low b \<noteq> 0"
  shows "udivmoddi4 a b = Returns (a div b, a mod b)"
proof -
  define sr :: u32
    where "sr = word_of_nat (builtin_clz (udw_high b)) - word_of_nat (builtin_clz (udw_high a))"
  define k where "k = unat (sr + 1)"
  have eq: "udivmoddi4 a b =
    (if sr > 31 then Returns (0, a)
     else if k = 32 then Returns (udivmoddi4_loop k b 0 (udw_high a) (udw_low a) 0 0)
     else Returns (udivmoddi4_loop k b (drop_bit k (udw_high a))
       (push_bit (32 - k) (udw_high a) OR drop_bit k (udw_low a)) (push_bit (32 - k) (udw_low a)) 0 0))"
    using assms by (simp only: udivmoddi4_def Let_def k_def sr_def if_False)
  show ?thesis
  proof (cases "sr > 31")
    case True
    then show ?thesis
      using clz_difference(1) [OF assms(1,2)] udivmoddi4_simple(4) [of a b]
      by (simp add: eq sr_def)
  next
    case False
    then have sr: "sr \<le> 31" by simp
    have k: "k = builtin_clz (udw_high b) - builtin_clz (udw_high a) + 1"
      unfolding k_def sr_def by (rule clz_difference(2) [OF assms(1,2) sr [unfolded sr_def]])
    note high = udivmoddi4_high_divisor [OF assms(1,2) sr [unfolded sr_def], folded k]
    have lt: "k < 64" using high(2) by simp
    note start = udivmoddi4_loop_start [OF high(1) lt high(3,4)]
    show ?thesis
      using False start(1,2) high(2) by (cases "k = 32") (simp_all add: eq)
  qed
qed

lemma udivmoddi4_eq:
  assumes "b \<noteq> 0"
  shows "udivmoddi4 a b = Returns (a div b, a mod b)"
proof -
  let ?nh = "udw_high a" and ?nl = "udw_low a" and ?dh = "udw_high b" and ?dl = "udw_low b"
  have nz: "\<not> (?dh = 0 \<and> ?dl = 0)"
    using assms udwords_high_low [of b] by (auto simp: udwords_def)
  consider (nh0) "?nh = 0"
    | (nl0) "?nh \<noteq> 0" "?dl = 0" "?nl = 0"
    | (dhp) "?nh \<noteq> 0" "?dl = 0" "?nl \<noteq> 0" "?dh AND (?dh - 1) = 0"
    | (dh) "?nh \<noteq> 0" "?dl = 0" "?nl \<noteq> 0" "?dh AND (?dh - 1) \<noteq> 0"
    | (dlp) "?nh \<noteq> 0" "?dl \<noteq> 0" "?dh = 0" "?dl AND (?dl - 1) = 0"
    | (dl) "?nh \<noteq> 0" "?dl \<noteq> 0" "?dh = 0" "?dl AND (?dl - 1) \<noteq> 0"
    | (full) "?nh \<noteq> 0" "?dl \<noteq> 0" "?dh \<noteq> 0"
    by blast
  then show ?thesis
  proof cases
    case nh0
    then show ?thesis using nz udivmoddi4_simple(1,2) [of a b] by (auto simp: udivmoddi4_def Let_def)
  next
    case nl0
    then show ?thesis using nz udivmoddi4_simple(3) [of a b] by (simp add: udivmoddi4_def Let_def)
  next
    case dhp
    then obtain m where "m < 32" "?dh = 2 ^ m"
      using nz power_of_two_test [of ?dh] by auto
    with dhp nz show ?thesis using udivmoddi4_pow2_high [of b m a]
      by (simp add: udivmoddi4_def Let_def builtin_ctz_power)
  next
    case dlp
    then obtain m where m: "m < 32" "?dl = 2 ^ m"
      using power_of_two_test [of ?dl] by auto
    show ?thesis
    proof (cases "m = 0")
      case True
      with m dlp have "b = 1" using udwords_high_low [of b] by (simp add: udwords_def)
      with True m dlp show ?thesis by (simp add: udivmoddi4_def Let_def)
    next
      case False
      with m have "?dl \<noteq> 1" by (simp add: word_unat_eq_iff unat_exp)
      with False dlp m show ?thesis using udivmoddi4_pow2_low [of b m a]
        by (simp add: udivmoddi4_def Let_def builtin_ctz_power)
    qed
  next
    case dh
    then show ?thesis by (rule udivmoddi4_even_divisor)
  next
    case dl
    then show ?thesis by (intro udivmoddi4_word_divisor)
  next
    case full
    then show ?thesis by (intro udivmoddi4_full_divisor)
  qed
qed

lemma udivmoddi4_zero: "udivmoddi4 a 0 = Halts DivideError"
  by (simp add: udivmoddi4_def udw_high_def udw_low_def Let_def)

lemma udivsi3_loop_eq: "udivsi3_loop k d r q c = fst (shift_subtract k d r q c)"
  by (induction k arbitrary: r q c) (simp_all add: Let_def)

lemma udivsi3_eq: "udivsi3 n d = n div d"
proof (cases "d = 0 \<or> n = 0")
  case True
  then show ?thesis by (auto simp: udivsi3_def)
next
  case False
  then have nz: "d \<noteq> 0" "n \<noteq> 0" by auto
  let ?m = "builtin_clz d" and ?k = "builtin_clz n"
  let ?sr = "word_of_nat ?m - word_of_nat ?k :: u32"
  note m = builtin_clz_bounds [OF nz(1)] and k = builtin_clz_bounds [OF nz(2)]
  have w: "unat (word_of_nat ?m :: u32) = ?m" "unat (word_of_nat ?k :: u32) = ?k"
    using m(1) k(1) by (simp_all add: unat_of_nat)
  have sr: "unat ?sr = (if ?k \<le> ?m then ?m - ?k else ?m + 2 ^ 32 - ?k)"
    unfolding unat_sub_if' w by simp
  consider (lt) "?m < ?k" | (one) "?m = 31" "?k = 0" | (loop) "?k \<le> ?m" "?m - ?k < 31"
    using m(1) by linarith
  then show ?thesis
  proof cases
    case lt
    have "unat n < 2 ^ (32 - ?k)" by (rule k(3))
    also have "\<dots> \<le> 2 ^ (31 - ?m)" using lt k(1) by (intro power_increasing) auto
    also have "\<dots> \<le> unat d" by (rule m(2))
    finally have "n div d = 0" by (simp add: word_unat_eq_iff unat_div)
    moreover have "?sr > 31" using sr lt k(1) by (simp add: word_less_nat_alt)
    ultimately show ?thesis using nz by (simp add: udivsi3_def)
  next
    case one
    then have "unat d = 1" using m(2,3) by simp
    then have "d = 1" by (simp add: word_unat_eq_iff)
    moreover have "?sr = 31" using one by simp
    ultimately show ?thesis using nz by (simp add: udivsi3_def Let_def)
  next
    case loop
    have "\<not> ?sr > 31" "?sr \<noteq> 31" 
      using sr loop by (auto simp: word_less_nat_alt word_unat_eq_iff)
    moreover have t: "unat (?sr + 1) = ?m - ?k + 1"
      using sr loop by (subst unat_add_no_wrap) simp_all
    moreover have "unat n div 2 ^ (?m - ?k + 1) < 2 ^ (31 - ?m)"
      using k(3) by (rule div_power_lt) (use loop m(1) in simp)
    moreover have "unat d \<le> 2 ^ 31 \<or> ?m - ?k + 1 = 1 \<and> 2 ^ 31 \<le> unat n"
    proof (cases "?m = 0")
      case True
      then show ?thesis using k(2) loop by simp
    next
      case False
      then have "(2::nat) ^ (32 - ?m) \<le> 2 ^ 31" by (intro power_increasing) auto
      then show ?thesis using m(3) by linarith
    qed
    ultimately show ?thesis
      using nz m(2) loop shift_subtract_divides [of "?m - ?k + 1" n d]
      by (simp add: udivsi3_def Let_def udivsi3_loop_eq)
  qed
qed

lemma sint_uint_u64: "sint w = uint w - 2 ^ 64 * of_bool (sint w < 0)" for w :: u64
proof -
  have "sint w = signed_take_bit 63 (uint w)" by (simp add: sint_uint)
  also have "\<dots> = take_bit 64 (uint w) - 2 ^ 64 * of_bool (bit (uint w) 63)"
    by (subst signed_take_bit_eq_take_bit_minus) simp
  also have "bit (uint w) 63 \<longleftrightarrow> sint w < 0"
    using bit_last_iff [of w] by (simp add: bit_uint_iff)
  also have "take_bit 64 (uint w) = uint w"
    using uint_lt2p [of w] by (simp add: take_bit_int_eq_self_iff)
  finally show ?thesis .
qed

lemma sign_mask: "signed_drop_bit 63 (w :: u64) = (if sint w < 0 then - 1 else 0)"
  using signed_drop_bit_top [of w] bit_last_iff [of w] by simp

lemma negate_if_mask:
  "(w XOR (if P then - 1 else 0)) - (if P then - 1 else 0) = (if P then - w else w)" for w :: u64
  by (simp add: not_eq_complement)

lemma mask_xor:
  "(if P then - 1 else 0) XOR (if Q then - 1 else 0) = (if P \<noteq> Q then - 1 else (0 :: u64))"
  by simp

lemma abs_word:
  "uint (if sint w < 0 then - w else w) = \<bar>sint w\<bar>" for w :: u64
proof (cases "sint w < 0")
  case True
  then have "uint w = sint w + 2 ^ 64" using sint_uint_u64 [of w] by simp
  moreover have "- (2 ^ 63) \<le> sint w" using sint_ge [of w] by simp
  ultimately show ?thesis using True uint_sub_if' [of 0 w] by simp
next
  case False
  then show ?thesis using sint_uint_u64 [of w] by simp
qed

lemma uint_word_div: "uint (a div b) = uint a div uint b" "uint (a mod b) = uint a mod uint b"
  for a b :: u64
  by (simp_all add: uint_div_distrib uint_mod_distrib)

lemma sdiv_by_signs:
  "k sdiv l = (if (k < 0) \<noteq> (l < 0) then - (\<bar>k\<bar> div \<bar>l\<bar>) else \<bar>k\<bar> div \<bar>l\<bar>)" for k l :: int
  by (simp add: signed_divide_int_def sgn_if)

lemma smod_by_signs:
  "k smod l = (if k < 0 then - (\<bar>k\<bar> mod \<bar>l\<bar>) else \<bar>k\<bar> mod \<bar>l\<bar>)" for k l :: int
  by (simp add: signed_modulo_int_def sgn_if)

lemma divdi3_eq:
  assumes "b \<noteq> 0"
  shows "divdi3 a b = Returns (word_of_int (sint a sdiv sint b))"
proof -
  define x where "x = (if sint a < 0 then - a else a)"
  define y where "y = (if sint b < 0 then - b else b)"
  have "y \<noteq> 0" using assms by (simp add: y_def)
  then have "divdi3 a b = Returns (if (sint a < 0) \<noteq> (sint b < 0) then - (x div y) else x div y)"
    unfolding divdi3_def Let_def sign_mask negate_if_mask mask_xor x_def [symmetric] y_def [symmetric]
    by (simp add: udivmoddi4_eq)
  moreover have "x div y = word_of_int (\<bar>sint a\<bar> div \<bar>sint b\<bar>)"
    unfolding abs_word [symmetric] x_def y_def uint_word_div(1) [symmetric] by simp
  ultimately show ?thesis
    by (simp add: sdiv_by_signs)
qed

lemma moddi3_eq:
  assumes "b \<noteq> 0"
  shows "moddi3 a b = Returns (word_of_int (sint a smod sint b))"
proof -
  define x where "x = (if sint a < 0 then - a else a)"
  define y where "y = (if sint b < 0 then - b else b)"
  have "y \<noteq> 0" using assms by (simp add: y_def)
  then have "moddi3 a b = Returns (if sint a < 0 then - (x mod y) else x mod y)"
    unfolding moddi3_def Let_def sign_mask negate_if_mask x_def [symmetric] y_def [symmetric]
    by (simp add: udivmoddi4_eq)
  moreover have "x mod y = word_of_int (\<bar>sint a\<bar> mod \<bar>sint b\<bar>)"
    unfolding abs_word [symmetric] x_def y_def uint_word_div(2) [symmetric] by simp
  ultimately show ?thesis by (simp add: smod_by_signs)
qed

section \<open>What the routines compute\<close>

text \<open>
  (C37) \<^verbatim>\<open>__udivmoddi4\<close>, \<^verbatim>\<open>__udivdi3\<close> and \<^verbatim>\<open>__umoddi3\<close> compute the
  quotient and the remainder of the unsigned 64-bit division for every dividend and every nonzero
  divisor, on each of the branches of the source, and raise the divide error for a zero divisor.
\<close>

theorem udivmoddi4_divides:
  "udivmoddi4 a b = (if b = 0 then Halts DivideError else Returns (a div b, a mod b)) \<and>
   udivdi3 a b = (if b = 0 then Halts DivideError else Returns (a div b)) \<and>
   umoddi3 a b = (if b = 0 then Halts DivideError else Returns (a mod b))"
  by (simp add: udivdi3_def umoddi3_def udivmoddi4_eq udivmoddi4_zero)

text \<open>
  \<^verbatim>\<open>__udivsi3\<close> computes the unsigned 32-bit quotient, and returns 0 when the divisor
  is 0.
\<close>

theorem udivsi3_divides:
  "unat (udivsi3 n d) = (if d = 0 then 0 else unat n div unat d)"
  by (simp add: udivsi3_eq unat_div)

text \<open>
  (C38) \<^verbatim>\<open>__divdi3\<close> and \<^verbatim>\<open>__moddi3\<close> are C's signed division: the quotient is
  truncated towards zero and the remainder has the sign of the dividend, both taken modulo
  \<open>2^64\<close> (so the one overflowing quotient, the least value divided by -1, wraps to itself). A zero
  divisor raises the divide error.
\<close>

theorem divdi3_moddi3_truncate:
  "divdi3 a b = (if b = 0 then Halts DivideError else Returns (word_of_int (sint a sdiv sint b))) \<and>
   moddi3 a b = (if b = 0 then Halts DivideError else Returns (word_of_int (sint a smod sint b)))"
  by (simp add: divdi3_eq moddi3_eq) (simp add: divdi3_def moddi3_def udivmoddi4_zero)

end
