(* ===== verification/Queue.thy ===== *)
theory Queue
  imports Prelude
begin

text \<open>
  What the queue and list macros of \<^verbatim>\<open>include/bmk/queue.h\<close> promise, whatever their
  representation: the locale \<open>linked_list\<close> for the kinds that insert at the head, its extension
  \<open>tail_queue\<close> for those that also insert at the tail. Both are interpreted on each kind and on the
  lists with which the scheduler and the wait queues are modelled. The theory also has the
  notions the representations share: chains of pointers and the cells pointers live in.
\<close>

section \<open>Chains of pointers\<close>

text \<open>
  \<open>seg ptr nx p xs q\<close>: the pointer \<open>p\<close> leads over the elements \<open>xs\<close>, each to the next by \<open>nx\<close>, to
  the pointer \<open>q\<close>. \<open>ptr\<close> is the pointer to an element.
\<close>

fun seg :: "('e \<Rightarrow> 'p) \<Rightarrow> ('e \<Rightarrow> 'p) \<Rightarrow> 'p \<Rightarrow> 'e list \<Rightarrow> 'p \<Rightarrow> bool" where
  "seg ptr nx p [] q \<longleftrightarrow> p = q"
| "seg ptr nx p (x # xs) q \<longleftrightarrow> p = ptr x \<and> seg ptr nx (nx x) xs q"

lemma seg_append [simp]: "seg ptr nx p (xs @ ys) q \<longleftrightarrow> (\<exists>r. seg ptr nx p xs r \<and> seg ptr nx r ys q)"
  by (induction xs arbitrary: p) auto

lemma seg_cong: "(\<And>x. x \<in> set xs \<Longrightarrow> nx' x = nx x) \<Longrightarrow> seg ptr nx' p xs q \<longleftrightarrow> seg ptr nx p xs q"
  by (induction xs arbitrary: p) auto

lemma seg_update [simp]: "e \<notin> set xs \<Longrightarrow> seg ptr (nx(e := v)) p xs q \<longleftrightarrow> seg ptr nx p xs q"
  by (rule seg_cong) auto

lemma seg_if [simp]:
  "e \<notin> set xs \<Longrightarrow> seg ptr (\<lambda>x. if x = e then v else nx x) p xs q \<longleftrightarrow> seg ptr nx p xs q"
  by (rule seg_cong) auto

text \<open>Following a chain up to \<open>stop\<close>; it returns nothing on a chain that never gets there.\<close>

partial_function (option) follow :: "('p \<Rightarrow> 'e option) \<Rightarrow> ('e \<Rightarrow> 'p) \<Rightarrow> 'p \<Rightarrow> 'p \<Rightarrow> 'e list option" where
  "follow prj nx stop p =
     (if p = stop then Some []
      else case prj p of
        None \<Rightarrow> None
      | Some e \<Rightarrow> Option.bind (follow prj nx stop (nx e)) (\<lambda>es. Some (e # es)))"

lemma follow_seg:
  assumes "\<And>x. prj (ptr x) = Some x" "\<And>x. ptr x \<noteq> stop" "seg ptr nx p xs stop"
  shows "follow prj nx stop p = Some xs"
  using assms(3)
proof (induction xs arbitrary: p)
  case Nil
  then show ?case by (simp add: follow.simps)
next
  case (Cons x xs)
  then have "follow prj nx stop (nx x) = Some xs" by simp
  then show ?case using Cons.prems assms(1,2) by (simp add: follow.simps [of _ _ _ "ptr x"])
qed

text \<open>
  The element in front of \<open>elm\<close>: the search returns nothing when the chain ends, or goes round, without
  \<open>elm\<close>.
\<close>

partial_function (option) find_before :: "('e \<Rightarrow> 'e option) \<Rightarrow> 'e \<Rightarrow> 'e option \<Rightarrow> 'e option" where
  "find_before nx elm curelm =
     (case curelm of
        None \<Rightarrow> None
      | Some c \<Rightarrow> if nx c \<noteq> Some elm then find_before nx elm (nx c) else Some c)"

lemma find_before_seg:
  assumes "seg Some nx p (as @ [a]) (Some e)" "e \<notin> set (as @ [a])"
  shows "find_before nx e p = Some a"
  using assms
proof (induction as arbitrary: p)
  case Nil
  then show ?case by (simp add: find_before.simps [of nx e "Some a"])
next
  case (Cons x xs)
  then have "nx x \<noteq> Some e" by (cases xs) auto
  then show ?case using Cons by (auto simp: find_before.simps [of nx e "Some x"])
qed

text \<open>The loop that reads the successor before it runs the body, which may change the store.\<close>

partial_function (option) safe_loop :: "('s \<Rightarrow> 'e \<Rightarrow> 'e option) \<Rightarrow> ('s \<Rightarrow> 'e \<Rightarrow> 's) \<Rightarrow> 's \<Rightarrow> 'e option \<Rightarrow> 's option" where
  "safe_loop nx body s var =
     (case var of
        None \<Rightarrow> Some s
      | Some e \<Rightarrow> (let tvar = nx s e in safe_loop nx body (body s e) tvar))"

text \<open>It visits every element once when the body writes no entry but the one it is given.\<close>

lemma safe_loop_visits:
  assumes "seg Some (nx s) p xs None" "distinct xs" "\<And>s x y. y \<noteq> x \<Longrightarrow> nx (body s x) y = nx s y"
  shows "safe_loop nx body s p = Some (fold (\<lambda>x s. body s x) xs s)"
  using assms(1,2)
proof (induction xs arbitrary: s p)
  case Nil
  then show ?case by (simp add: safe_loop.simps)
next
  case (Cons x xs)
  have "seg Some (nx (body s x)) (nx s x) xs None \<longleftrightarrow> seg Some (nx s) (nx s x) xs None"
    by (rule seg_cong, rule assms(3)) (use Cons.prems(2) in auto)
  then have "safe_loop nx body (body s x) (nx s x) = Some (fold (\<lambda>x s. body s x) xs (body s x))"
    using Cons by simp
  then show ?case using Cons.prems by (simp add: safe_loop.simps [of nx body s "Some x"])
qed

section \<open>Pointer cells\<close>

text \<open>
  The kinds that keep the address of a pointer: it is that of the \<^verbatim>\<open>first\<close> pointer of a head or of
  the \<^verbatim>\<open>next\<close> pointer of an element.
\<close>

datatype ('h, 'e) loc = HeadFirst 'h | NextOf 'e

definition end_loc :: "('h, 'e) loc \<Rightarrow> 'e list \<Rightarrow> ('h, 'e) loc" where
  "end_loc l xs = (if xs = [] then l else NextOf (last xs))"

lemma end_loc_simps [simp]:
  "end_loc l [] = l"
  "end_loc l (x # xs) = end_loc (NextOf x) xs"
  "end_loc l (xs @ ys) = end_loc (end_loc l xs) ys"
  by (auto simp: end_loc_def)

text \<open>Every element of the list has the address of the cell that leads to it, the first from the cell \<open>l\<close>.\<close>

fun backs :: "('e \<Rightarrow> ('h, 'e) loc) \<Rightarrow> ('h, 'e) loc \<Rightarrow> 'e list \<Rightarrow> bool" where
  "backs pv l [] \<longleftrightarrow> True"
| "backs pv l (x # xs) \<longleftrightarrow> pv x = l \<and> backs pv (NextOf x) xs"

lemma backs_append [simp]: "backs pv l (xs @ ys) \<longleftrightarrow> backs pv l xs \<and> backs pv (end_loc l xs) ys"
  by (induction xs arbitrary: l) auto

lemma backs_cong: "(\<And>x. x \<in> set xs \<Longrightarrow> pv' x = pv x) \<Longrightarrow> backs pv' l xs \<longleftrightarrow> backs pv l xs"
  by (induction xs arbitrary: l) auto

lemma backs_update [simp]: "e \<notin> set xs \<Longrightarrow> backs (pv(e := v)) l xs \<longleftrightarrow> backs pv l xs"
  by (rule backs_cong) auto

section \<open>Lists\<close>

text \<open>Each queue is the list of its elements.\<close>

definition lq_rep :: "('h \<Rightarrow> 'e list) \<Rightarrow> 'h \<Rightarrow> 'e list \<Rightarrow> bool" where
  "lq_rep q h xs \<longleftrightarrow> distinct xs \<and> q h = xs"

definition lq_first :: "('h \<Rightarrow> 'e list) \<Rightarrow> 'h \<Rightarrow> 'e option" where
  "lq_first q h = (case q h of [] \<Rightarrow> None | x # _ \<Rightarrow> Some x)"

definition lq_foreach :: "('h \<Rightarrow> 'e list) \<Rightarrow> 'h \<Rightarrow> 'e list option" where
  "lq_foreach q h = Some (q h)"

definition lq_insert_head :: "('h \<Rightarrow> 'e list) \<Rightarrow> 'h \<Rightarrow> 'e \<Rightarrow> 'h \<Rightarrow> 'e list" where
  "lq_insert_head q h e = q(h := e # q h)"

definition lq_insert_tail :: "('h \<Rightarrow> 'e list) \<Rightarrow> 'h \<Rightarrow> 'e \<Rightarrow> 'h \<Rightarrow> 'e list" where
  "lq_insert_tail q h e = q(h := q h @ [e])"

definition lq_remove :: "('h \<Rightarrow> 'e list) \<Rightarrow> 'h \<Rightarrow> 'e \<Rightarrow> 'h \<Rightarrow> 'e list" where
  "lq_remove q h e = q(h := remove1 e (q h))"

lemmas lq_defs = lq_first_def lq_foreach_def lq_insert_head_def lq_insert_tail_def lq_remove_def

text \<open>
  A sequence of operations. It is well formed for a family of queues when an element is inserted
  only while it is on no queue and removed only from a queue that holds it.
\<close>

datatype ('h, 'e) queue_op = InsertHead 'h 'e | InsertTail 'h 'e | Remove 'h 'e

fun lq_step :: "('h, 'e) queue_op \<Rightarrow> ('h \<Rightarrow> 'e list) \<Rightarrow> 'h \<Rightarrow> 'e list" where
  "lq_step (InsertHead h e) q = lq_insert_head q h e"
| "lq_step (InsertTail h e) q = lq_insert_tail q h e"
| "lq_step (Remove h e) q = lq_remove q h e"

fun op_ok :: "('h, 'e) queue_op \<Rightarrow> ('h \<Rightarrow> 'e list) \<Rightarrow> bool" where
  "op_ok (InsertHead h e) q \<longleftrightarrow> (\<forall>k. e \<notin> set (q k))"
| "op_ok (InsertTail h e) q \<longleftrightarrow> (\<forall>k. e \<notin> set (q k))"
| "op_ok (Remove h e) q \<longleftrightarrow> e \<in> set (q h)"

fun ops_ok :: "('h, 'e) queue_op list \<Rightarrow> ('h \<Rightarrow> 'e list) \<Rightarrow> bool" where
  "ops_ok [] q = True"
| "ops_ok (x # xs) q \<longleftrightarrow> op_ok x q \<and> ops_ok xs (lq_step x q)"

fun head_op :: "('h, 'e) queue_op \<Rightarrow> bool" where
  "head_op (InsertTail h e) = False"
| "head_op _ = True"

text \<open>The operations on a representation; \<open>None\<close> is an operation that does not return.\<close>

fun list_step ::
  "('s \<Rightarrow> 'h \<Rightarrow> 'e \<Rightarrow> 's) \<Rightarrow> ('s \<Rightarrow> 'h \<Rightarrow> 'e \<Rightarrow> 's option) \<Rightarrow> ('h, 'e) queue_op \<Rightarrow> 's \<Rightarrow> 's option" where
  "list_step ins rem (InsertHead h e) s = Some (ins s h e)"
| "list_step ins rem (Remove h e) s = rem s h e"
| "list_step ins rem (InsertTail h e) s = None"

fun queue_step ::
  "('s \<Rightarrow> 'h \<Rightarrow> 'e \<Rightarrow> 's) \<Rightarrow> ('s \<Rightarrow> 'h \<Rightarrow> 'e \<Rightarrow> 's) \<Rightarrow> ('s \<Rightarrow> 'h \<Rightarrow> 'e \<Rightarrow> 's option) \<Rightarrow>
   ('h, 'e) queue_op \<Rightarrow> 's \<Rightarrow> 's option" where
  "queue_step ins app rem (InsertTail h e) s = Some (app s h e)"
| "queue_step ins app rem x s = list_step ins rem x s"

fun run_ops :: "('o \<Rightarrow> 's \<Rightarrow> 's option) \<Rightarrow> 'o list \<Rightarrow> 's \<Rightarrow> 's option" where
  "run_ops step [] s = Some s"
| "run_ops step (x # xs) s = Option.bind (step x s) (run_ops step xs)"

text \<open>A family of disjoint queues.\<close>

definition family :: "('s \<Rightarrow> 'h \<Rightarrow> 'e list \<Rightarrow> bool) \<Rightarrow> 's \<Rightarrow> ('h \<Rightarrow> 'e list) \<Rightarrow> bool" where
  "family rep s q \<longleftrightarrow> (\<forall>h. rep s h (q h)) \<and> (\<forall>h k. h \<noteq> k \<longrightarrow> set (q h) \<inter> set (q k) = {})"

lemma lq_step_disjoint:
  assumes "op_ok x q" "\<And>h k. h \<noteq> k \<Longrightarrow> set (q h) \<inter> set (q k) = {}" "h \<noteq> k"
  shows "set (lq_step x q h) \<inter> set (lq_step x q k) = {}"
  using assms(1) assms(2) [OF assms(3)] assms(3)
  by (cases x) (auto simp: lq_defs dest!: subsetD [OF set_remove1_subset])

lemma familyI:
  assumes "family rep s q" "op_ok x q" "\<And>k. rep s' k (lq_step x q k)"
  shows "family rep s' (lq_step x q)"
  using assms(3) lq_step_disjoint [OF assms(2)] assms(1) by (simp add: family_def)

section \<open>The contracts\<close>

text \<open>\<open>rep s h xs\<close> reads: in state \<open>s\<close> the list \<open>h\<close> holds the elements \<open>xs\<close>.\<close>

locale linked_list =
  fixes rep :: "'s \<Rightarrow> 'h \<Rightarrow> 'e list \<Rightarrow> bool"
    and first :: "'s \<Rightarrow> 'h \<Rightarrow> 'e option"
    and foreach :: "'s \<Rightarrow> 'h \<Rightarrow> 'e list option"
    and insert_head :: "'s \<Rightarrow> 'h \<Rightarrow> 'e \<Rightarrow> 's"
    and remove :: "'s \<Rightarrow> 'h \<Rightarrow> 'e \<Rightarrow> 's option"
  assumes rep_distinct: "rep s h xs \<Longrightarrow> distinct xs"
    and first_rep: "rep s h xs \<Longrightarrow> first s h = (case xs of [] \<Rightarrow> None | x # _ \<Rightarrow> Some x)"
    and foreach_rep: "rep s h xs \<Longrightarrow> foreach s h = Some xs"
    and insert_head_rep: "rep s h xs \<Longrightarrow> e \<notin> set xs \<Longrightarrow> rep (insert_head s h e) h (e # xs)"
    and insert_head_frame: "rep s h xs \<Longrightarrow> e \<notin> set xs \<Longrightarrow> rep s k ys \<Longrightarrow> k \<noteq> h \<Longrightarrow>
      set ys \<inter> insert e (set xs) = {} \<Longrightarrow> rep (insert_head s h e) k ys"
    and remove_rep: "rep s h xs \<Longrightarrow> e \<in> set xs \<Longrightarrow> \<exists>s'. remove s h e = Some s' \<and> rep s' h (remove1 e xs)"
    and remove_frame: "rep s h xs \<Longrightarrow> e \<in> set xs \<Longrightarrow> remove s h e = Some s' \<Longrightarrow> rep s k ys \<Longrightarrow> k \<noteq> h \<Longrightarrow>
      set ys \<inter> set xs = {} \<Longrightarrow> rep s' k ys"
begin

lemma rep_functional: "rep s h xs \<Longrightarrow> rep s h ys \<Longrightarrow> xs = ys"
  by (drule foreach_rep)+ simp

lemma family_foreach: "family rep s q \<Longrightarrow> foreach s h = Some (q h)"
  by (auto simp: family_def intro: foreach_rep)

lemma drain:
  assumes "rep s h xs"
  shows "\<exists>s'. run_ops (list_step insert_head remove) (map (Remove h) xs) s = Some s' \<and> rep s' h []"
  using assms
proof (induction xs arbitrary: s)
  case (Cons x xs)
  obtain s1 where s1: "remove s h x = Some s1" "rep s1 h xs" using remove_rep [OF Cons.prems, of x] by auto
  from Cons.IH [OF s1(2)] s1(1) show ?case by simp
qed simp

lemma list_step_family:
  assumes fam: "family rep s q" and ok: "op_ok x q" "head_op x"
  shows "\<exists>s'. list_step insert_head remove x s = Some s' \<and> family rep s' (lq_step x q)"
proof -
  have t: "\<And>h. rep s h (q h)" and dis: "\<And>h k. h \<noteq> k \<Longrightarrow> set (q h) \<inter> set (q k) = {}"
    using fam by (auto simp: family_def)
  show ?thesis
  proof (cases x)
    case (InsertHead h e)
    have "rep (insert_head s h e) k (lq_step x q k)" for k
      using InsertHead ok(1) insert_head_rep [OF t, of e h] insert_head_frame [OF t _ t, of e h k] dis [of k h]
      by (auto simp: lq_defs)
    then show ?thesis using InsertHead familyI [OF fam ok(1)] by simp
  next
    case (Remove h e)
    obtain s' where s': "remove s h e = Some s'" "rep s' h (remove1 e (q h))"
      using remove_rep [OF t, of e h] Remove ok(1) by auto
    have "rep s' k (lq_step x q k)" for k
      using Remove ok(1) s' remove_frame [OF t _ s'(1) t, of k] dis [of k h] by (auto simp: lq_defs)
    then show ?thesis using Remove s'(1) familyI [OF fam ok(1)] by simp
  qed (use ok(2) in simp)
qed

lemma run_list:
  assumes "family rep s q" "ops_ok xs q" "list_all head_op xs"
  shows "\<exists>s'. run_ops (list_step insert_head remove) xs s = Some s' \<and> family rep s' (fold lq_step xs q)"
  using assms
proof (induction xs arbitrary: s q)
  case (Cons x xs)
  then obtain s1 where "list_step insert_head remove x s = Some s1" "family rep s1 (lq_step x q)"
    using list_step_family [of s q x] by auto
  then show ?case using Cons.IH [of s1 "lq_step x q"] Cons.prems by simp
qed simp

end

locale tail_queue = linked_list rep first foreach insert_head remove
  for rep :: "'s \<Rightarrow> 'h \<Rightarrow> 'e list \<Rightarrow> bool" and first foreach insert_head remove +
  fixes insert_tail :: "'s \<Rightarrow> 'h \<Rightarrow> 'e \<Rightarrow> 's"
  assumes insert_tail_rep: "rep s h xs \<Longrightarrow> e \<notin> set xs \<Longrightarrow> rep (insert_tail s h e) h (xs @ [e])"
    and insert_tail_frame: "rep s h xs \<Longrightarrow> e \<notin> set xs \<Longrightarrow> rep s k ys \<Longrightarrow> k \<noteq> h \<Longrightarrow>
      set ys \<inter> insert e (set xs) = {} \<Longrightarrow> rep (insert_tail s h e) k ys"
begin

lemma rotate:
  assumes "rep s h xs" "e \<in> set xs"
  shows "\<exists>s'. remove s h e = Some s' \<and> rep (insert_tail s' h e) h (remove1 e xs @ [e])"
  using remove_rep [OF assms] insert_tail_rep [of _ h "remove1 e xs" e] rep_distinct [OF assms(1)] by auto

lemma queue_step_family:
  assumes fam: "family rep s q" and ok: "op_ok x q"
  shows "\<exists>s'. queue_step insert_head insert_tail remove x s = Some s' \<and> family rep s' (lq_step x q)"
proof (cases x)
  case (InsertTail h e)
  have t: "\<And>h. rep s h (q h)" and dis: "\<And>h k. h \<noteq> k \<Longrightarrow> set (q h) \<inter> set (q k) = {}"
    using fam by (auto simp: family_def)
  have "rep (insert_tail s h e) k (lq_step x q k)" for k
    using InsertTail ok insert_tail_rep [OF t, of e h] insert_tail_frame [OF t _ t, of e h k] dis [of k h]
    by (auto simp: lq_defs)
  then show ?thesis using InsertTail familyI [OF fam ok] by simp
qed (use list_step_family [OF fam ok] in auto)

lemma run_queue:
  assumes "family rep s q" "ops_ok xs q"
  shows "\<exists>s'. run_ops (queue_step insert_head insert_tail remove) xs s = Some s' \<and> family rep s' (fold lq_step xs q)"
  using assms
proof (induction xs arbitrary: s q)
  case (Cons x xs)
  then obtain s1 where "queue_step insert_head insert_tail remove x s = Some s1" "family rep s1 (lq_step x q)"
    using queue_step_family [of s q x] by auto
  then show ?case using Cons.IH [of s1 "lq_step x q"] Cons.prems by simp
qed simp

end

interpretation lq: tail_queue lq_rep lq_first lq_foreach lq_insert_head "\<lambda>q h e. Some (lq_remove q h e)" lq_insert_tail
  by unfold_locales (auto simp: lq_rep_def lq_defs)

end
