(* ===== verification/Tailq.thy ===== *)
theory Tailq
  imports Queue
begin

text \<open>
  The tail queue macros of \<^verbatim>\<open>include/bmk/queue.h\<close> on an explicit pointer store. A
  \<^verbatim>\<open>TAILQ\<close> keeps in \<^verbatim>\<open>tqh_last\<close> and \<^verbatim>\<open>tqe_prev\<close> the \<^emph>\<open>address\<close> of the pointer
  cell that leads to the next element, so a location is either the \<^verbatim>\<open>tqh_first\<close> cell of a head
  or the \<^verbatim>\<open>tqe_next\<close> cell of an element. Every macro is one function on the store. The
  abstraction \<open>tailq\<close> relates a head to the list of its elements; the macros satisfy the contract
  \<open>tail_queue\<close>, on which the scheduler and the wait queues rely.
\<close>

section \<open>The pointer store\<close>

record ('h, 'e) tailq_store =
  tqh_first :: "'h \<Rightarrow> 'e option"
  tqh_last :: "'h \<Rightarrow> ('h, 'e) loc"
  tqe_next :: "'e \<Rightarrow> 'e option"
  tqe_prev :: "'e \<Rightarrow> ('h, 'e) loc"

text \<open>Reading and writing the pointer cell at a location (\<^verbatim>\<open>*p\<close> for a \<^verbatim>\<open>struct type **p\<close>).\<close>

fun load_ptr :: "('h, 'e) tailq_store \<Rightarrow> ('h, 'e) loc \<Rightarrow> 'e option" where
  "load_ptr s (HeadFirst h) = tqh_first s h"
| "load_ptr s (NextOf e) = tqe_next s e"

fun store_ptr :: "('h, 'e) tailq_store \<Rightarrow> ('h, 'e) loc \<Rightarrow> 'e option \<Rightarrow> ('h, 'e) tailq_store" where
  "store_ptr s (HeadFirst h) v = s\<lparr>tqh_first := (tqh_first s)(h := v)\<rparr>"
| "store_ptr s (NextOf e) v = s\<lparr>tqe_next := (tqe_next s)(e := v)\<rparr>"

text \<open>
  A head and an entry have the same layout, a pointer followed by the address of a pointer cell.
  \<^verbatim>\<open>TAILQ_LAST\<close> and \<^verbatim>\<open>TAILQ_PREV\<close> use this: they cast the address of a pointer cell to a
  head and read its second word.
\<close>

fun second_word :: "('h, 'e) tailq_store \<Rightarrow> ('h, 'e) loc \<Rightarrow> ('h, 'e) loc" where
  "second_word s (HeadFirst h) = tqh_last s h"
| "second_word s (NextOf e) = tqe_prev s e"

definition set_next :: "('h, 'e) tailq_store \<Rightarrow> 'e \<Rightarrow> 'e option \<Rightarrow> ('h, 'e) tailq_store" where
  "set_next s e v = s\<lparr>tqe_next := (tqe_next s)(e := v)\<rparr>"

definition set_prev :: "('h, 'e) tailq_store \<Rightarrow> 'e \<Rightarrow> ('h, 'e) loc \<Rightarrow> ('h, 'e) tailq_store" where
  "set_prev s e l = s\<lparr>tqe_prev := (tqe_prev s)(e := l)\<rparr>"

definition set_first :: "('h, 'e) tailq_store \<Rightarrow> 'h \<Rightarrow> 'e option \<Rightarrow> ('h, 'e) tailq_store" where
  "set_first s h v = s\<lparr>tqh_first := (tqh_first s)(h := v)\<rparr>"

definition set_last :: "('h, 'e) tailq_store \<Rightarrow> 'h \<Rightarrow> ('h, 'e) loc \<Rightarrow> ('h, 'e) tailq_store" where
  "set_last s h l = s\<lparr>tqh_last := (tqh_last s)(h := l)\<rparr>"

section \<open>The macros\<close>

definition TAILQ_INIT :: "('h, 'e) tailq_store \<Rightarrow> 'h \<Rightarrow> ('h, 'e) tailq_store" where
  "TAILQ_INIT s h = set_last (set_first s h None) h (HeadFirst h)"

text \<open>The store once the static initialiser of a head has been laid out: what \<^verbatim>\<open>TAILQ_INIT\<close> does at run time.\<close>

definition TAILQ_HEAD_INITIALIZER :: "('h, 'e) tailq_store \<Rightarrow> 'h \<Rightarrow> ('h, 'e) tailq_store" where
  "TAILQ_HEAD_INITIALIZER s h = set_last (set_first s h None) h (HeadFirst h)"

definition TAILQ_FIRST :: "('h, 'e) tailq_store \<Rightarrow> 'h \<Rightarrow> 'e option" where
  "TAILQ_FIRST s h = tqh_first s h"

definition TAILQ_NEXT :: "('h, 'e) tailq_store \<Rightarrow> 'e \<Rightarrow> 'e option" where
  "TAILQ_NEXT s e = tqe_next s e"

definition TAILQ_EMPTY :: "('h, 'e) tailq_store \<Rightarrow> 'h \<Rightarrow> bool" where
  "TAILQ_EMPTY s h = (TAILQ_FIRST s h = None)"

definition TAILQ_LAST :: "('h, 'e) tailq_store \<Rightarrow> 'h \<Rightarrow> 'e option" where
  "TAILQ_LAST s h = load_ptr s (second_word s (tqh_last s h))"

definition TAILQ_PREV :: "('h, 'e) tailq_store \<Rightarrow> 'e \<Rightarrow> 'e option" where
  "TAILQ_PREV s e = load_ptr s (second_word s (tqe_prev s e))"

definition TAILQ_INSERT_HEAD ::
  "('h, 'e) tailq_store \<Rightarrow> 'h \<Rightarrow> 'e \<Rightarrow> ('h, 'e) tailq_store" where
  "TAILQ_INSERT_HEAD s h e =
     (let s = set_next s e (tqh_first s h);
          s = (case tqe_next s e of
                 Some f \<Rightarrow> set_prev s f (NextOf e)
               | None \<Rightarrow> set_last s h (NextOf e));
          s = set_first s h (Some e)
      in set_prev s e (HeadFirst h))"

definition TAILQ_INSERT_TAIL ::
  "('h, 'e) tailq_store \<Rightarrow> 'h \<Rightarrow> 'e \<Rightarrow> ('h, 'e) tailq_store" where
  "TAILQ_INSERT_TAIL s h e =
     (let s = set_next s e None;
          s = set_prev s e (tqh_last s h);
          s = store_ptr s (tqh_last s h) (Some e)
      in set_last s h (NextOf e))"

definition TAILQ_INSERT_AFTER ::
  "('h, 'e) tailq_store \<Rightarrow> 'h \<Rightarrow> 'e \<Rightarrow> 'e \<Rightarrow> ('h, 'e) tailq_store" where
  "TAILQ_INSERT_AFTER s h listelm e =
     (let s = set_next s e (tqe_next s listelm);
          s = (case tqe_next s e of
                 Some f \<Rightarrow> set_prev s f (NextOf e)
               | None \<Rightarrow> set_last s h (NextOf e));
          s = set_next s listelm (Some e)
      in set_prev s e (NextOf listelm))"

definition TAILQ_INSERT_BEFORE ::
  "('h, 'e) tailq_store \<Rightarrow> 'e \<Rightarrow> 'e \<Rightarrow> ('h, 'e) tailq_store" where
  "TAILQ_INSERT_BEFORE s listelm e =
     (let s = set_prev s e (tqe_prev s listelm);
          s = set_next s e (Some listelm);
          s = store_ptr s (tqe_prev s listelm) (Some e)
      in set_prev s listelm (NextOf e))"

definition TAILQ_REMOVE ::
  "('h, 'e) tailq_store \<Rightarrow> 'h \<Rightarrow> 'e \<Rightarrow> ('h, 'e) tailq_store" where
  "TAILQ_REMOVE s h e =
     (let s = (case tqe_next s e of
                 Some f \<Rightarrow> set_prev s f (tqe_prev s e)
               | None \<Rightarrow> set_last s h (tqe_prev s e))
      in store_ptr s (tqe_prev s e) (tqe_next s e))"

definition TAILQ_REPLACE ::
  "('h, 'e) tailq_store \<Rightarrow> 'h \<Rightarrow> 'e \<Rightarrow> 'e \<Rightarrow> ('h, 'e) tailq_store" where
  "TAILQ_REPLACE s h e e2 =
     (let s = set_next s e2 (tqe_next s e);
          s = (case tqe_next s e2 of
                 Some f \<Rightarrow> set_prev s f (NextOf e2)
               | None \<Rightarrow> set_last s h (NextOf e2));
          s = set_prev s e2 (tqe_prev s e)
      in store_ptr s (tqe_prev s e2) (Some e2))"

definition TAILQ_CONCAT ::
  "('h, 'e) tailq_store \<Rightarrow> 'h \<Rightarrow> 'h \<Rightarrow> ('h, 'e) tailq_store" where
  "TAILQ_CONCAT s head1 head2 =
     (case tqh_first s head2 of
        None \<Rightarrow> s
      | Some f \<Rightarrow>
         (let s = store_ptr s (tqh_last s head1) (Some f);
              s = set_prev s f (tqh_last s head1);
              s = set_last s head1 (tqh_last s head2)
          in TAILQ_INIT s head2))"

text \<open>
  \<^verbatim>\<open>TAILQ_FOREACH\<close> follows the \<^verbatim>\<open>tqe_next\<close> pointers until \<^verbatim>\<open>NULL\<close>;
  \<^verbatim>\<open>TAILQ_FOREACH_REVERSE\<close> goes back through \<^verbatim>\<open>TAILQ_PREV\<close>. The elements visited are
  returned in order; on a circular chain neither returns. \<^verbatim>\<open>TAILQ_FOREACH_SAFE\<close> reads the
  successor before it runs the body, which may change the store and says whether to go on
  (\<open>False\<close> is a \<^verbatim>\<open>break\<close>).
\<close>

partial_function (option) foreach_from ::
  "('h, 'e) tailq_store \<Rightarrow> 'e option \<Rightarrow> 'e list option" where
  "foreach_from s var =
     (case var of
        None \<Rightarrow> Some []
      | Some e \<Rightarrow> Option.bind (foreach_from s (TAILQ_NEXT s e)) (\<lambda>es. Some (e # es)))"

definition TAILQ_FOREACH :: "('h, 'e) tailq_store \<Rightarrow> 'h \<Rightarrow> 'e list option" where
  "TAILQ_FOREACH s h = foreach_from s (TAILQ_FIRST s h)"

partial_function (option) foreach_back ::
  "('h, 'e) tailq_store \<Rightarrow> 'e option \<Rightarrow> 'e list option" where
  "foreach_back s var =
     (case var of
        None \<Rightarrow> Some []
      | Some e \<Rightarrow> Option.bind (foreach_back s (TAILQ_PREV s e)) (\<lambda>es. Some (e # es)))"

definition TAILQ_FOREACH_REVERSE :: "('h, 'e) tailq_store \<Rightarrow> 'h \<Rightarrow> 'e list option" where
  "TAILQ_FOREACH_REVERSE s h = foreach_back s (TAILQ_LAST s h)"

partial_function (option) foreach_safe ::
  "(('h, 'e) tailq_store \<Rightarrow> 'e \<Rightarrow> ('h, 'e) tailq_store \<times> bool) \<Rightarrow>
   ('h, 'e) tailq_store \<Rightarrow> 'e option \<Rightarrow> ('h, 'e) tailq_store option" where
  "foreach_safe body s var =
     (case var of
        None \<Rightarrow> Some s
      | Some e \<Rightarrow>
         (let tvar = TAILQ_NEXT s e; (s', go) = body s e
          in if go then foreach_safe body s' tvar else Some s'))"

definition TAILQ_FOREACH_SAFE ::
  "(('h, 'e) tailq_store \<Rightarrow> 'e \<Rightarrow> ('h, 'e) tailq_store \<times> bool) \<Rightarrow>
   ('h, 'e) tailq_store \<Rightarrow> 'h \<Rightarrow> ('h, 'e) tailq_store option" where
  "TAILQ_FOREACH_SAFE body s h = foreach_safe body s (TAILQ_FIRST s h)"

section \<open>The list a head stands for\<close>

fun tq_path :: "('h, 'e) tailq_store \<Rightarrow> ('h, 'e) loc \<Rightarrow> 'e list \<Rightarrow> bool" where
  "tq_path s l [] = True"
| "tq_path s l (x # xs) =
     (load_ptr s l = Some x \<and> tqe_prev s x = l \<and> tq_path s (NextOf x) xs)"

definition tailq :: "('h, 'e) tailq_store \<Rightarrow> 'h \<Rightarrow> 'e list \<Rightarrow> bool" where
  "tailq s h xs \<longleftrightarrow>
     distinct xs \<and> tq_path s (HeadFirst h) xs \<and>
     tqh_last s h = end_loc (HeadFirst h) xs \<and>
     load_ptr s (tqh_last s h) = None"

section \<open>Every macro implements its list operation\<close>

lemmas set_defs = set_next_def set_prev_def set_first_def set_last_def

lemma tq_path_append [simp]:
  "tq_path s l (xs @ ys) \<longleftrightarrow> tq_path s l xs \<and> tq_path s (end_loc l xs) ys"
  by (induction xs arbitrary: l) auto

lemma end_loc_cases: "end_loc l xs = l \<or> (\<exists>x \<in> set xs. end_loc l xs = NextOf x)"
  by (auto simp: end_loc_def)

lemma end_loc_mem: "xs \<noteq> [] \<Longrightarrow> \<exists>x \<in> set xs. end_loc l xs = NextOf x"
  by (auto simp: end_loc_def)

lemma tq_path_cong:
  assumes "xs \<noteq> [] \<Longrightarrow> load_ptr s' l = load_ptr s l"
    and "\<forall>x \<in> set xs. tqe_prev s' x = tqe_prev s x"
    and "\<forall>x \<in> set (butlast xs). tqe_next s' x = tqe_next s x"
  shows "tq_path s' l xs = tq_path s l xs"
  using assms
proof (induction xs arbitrary: l)
  case (Cons x xs)
  have "tq_path s' (NextOf x) xs = tq_path s (NextOf x) xs"
    using Cons.prems(2,3) by (intro Cons.IH) (auto split: if_splits)
  with Cons.prems(1,2) show ?case by simp
qed simp

text \<open>What an operation on head \<open>h\<close> may touch: that head and the entries of \<open>A\<close>.\<close>

definition agree_off ::
  "('h, 'e) tailq_store \<Rightarrow> ('h, 'e) tailq_store \<Rightarrow> 'h set \<Rightarrow> 'e set \<Rightarrow> bool" where
  "agree_off s s' H A \<longleftrightarrow>
     (\<forall>k. k \<notin> H \<longrightarrow> tqh_first s' k = tqh_first s k \<and> tqh_last s' k = tqh_last s k) \<and>
     (\<forall>x. x \<notin> A \<longrightarrow> tqe_next s' x = tqe_next s x \<and> tqe_prev s' x = tqe_prev s x)"

lemma tailq_frame:
  assumes "agree_off s s' H A" "k \<notin> H" "set ys \<inter> A = {}" "tailq s k ys"
  shows "tailq s' k ys"
proof -
  have y: "tqe_next s' x = tqe_next s x \<and> tqe_prev s' x = tqe_prev s x" if "x \<in> set ys" for x
    using assms(1,3) that by (auto simp: agree_off_def)
  have k: "tqh_first s' k = tqh_first s k" "tqh_last s' k = tqh_last s k"
    using assms(1,2) by (auto simp: agree_off_def)
  have "tq_path s' (HeadFirst k) ys = tq_path s (HeadFirst k) ys"
    using y k by (intro tq_path_cong) (auto dest: in_set_butlastD)
  moreover have "load_ptr s' (end_loc (HeadFirst k) ys) = load_ptr s (end_loc (HeadFirst k) ys)"
    using y k by (cases "ys = []") (auto simp: end_loc_def)
  ultimately show ?thesis
    using assms(4) k by (auto simp: tailq_def)
qed

lemma tailq_unique:
  assumes "tailq s h xs" "tailq s h ys"
  shows "xs = ys"
proof -
  have "tq_path s l xs \<Longrightarrow> load_ptr s (end_loc l xs) = None \<Longrightarrow>
      tq_path s l ys \<Longrightarrow> load_ptr s (end_loc l ys) = None \<Longrightarrow> xs = ys" for l
  proof (induction xs arbitrary: l ys)
    case Nil
    then show ?case by (cases ys) auto
  next
    case (Cons x xs)
    then show ?case by (cases ys) auto
  qed
  with assms show ?thesis by (auto simp: tailq_def)
qed

lemma tailq_INIT: "tailq (TAILQ_INIT s h) h []"
  by (simp add: tailq_def TAILQ_INIT_def set_defs)

lemma tailq_FIRST: "tailq s h xs \<Longrightarrow> TAILQ_FIRST s h = (case xs of [] \<Rightarrow> None | x # _ \<Rightarrow> Some x)"
  by (auto simp: tailq_def TAILQ_FIRST_def split: list.splits)

lemma tailq_EMPTY: "tailq s h xs \<Longrightarrow> TAILQ_EMPTY s h \<longleftrightarrow> xs = []"
  by (auto simp: TAILQ_EMPTY_def tailq_FIRST split: list.splits)

lemma tailq_NEXT:
  "tailq s h (as @ e # bs) \<Longrightarrow> TAILQ_NEXT s e = (case bs of [] \<Rightarrow> None | b # _ \<Rightarrow> Some b)"
  by (auto simp: tailq_def TAILQ_NEXT_def split: list.splits)

lemma tailq_LAST: "tailq s h xs \<Longrightarrow> TAILQ_LAST s h = (if xs = [] then None else Some (last xs))"
  by (cases xs rule: rev_cases) (auto simp: tailq_def TAILQ_LAST_def)

lemma tailq_PREV:
  "tailq s h (as @ e # bs) \<Longrightarrow> TAILQ_PREV s e = (if as = [] then None else Some (last as))"
  by (cases as rule: rev_cases) (auto simp: tailq_def TAILQ_PREV_def)

lemma tailq_INSERT_HEAD:
  assumes "tailq s h xs" "e \<notin> set xs"
  shows "tailq (TAILQ_INSERT_HEAD s h e) h (e # xs)"
    and "agree_off s (TAILQ_INSERT_HEAD s h e) {h} (insert e (set xs))"
proof -
  show "agree_off s (TAILQ_INSERT_HEAD s h e) {h} (insert e (set xs))"
    using assms by (cases xs) (auto simp: tailq_def TAILQ_INSERT_HEAD_def set_defs agree_off_def)
  show "tailq (TAILQ_INSERT_HEAD s h e) h (e # xs)"
  proof (cases xs)
    case Nil
    then show ?thesis using assms by (auto simp: tailq_def TAILQ_INSERT_HEAD_def set_defs)
  next
    case (Cons f ys)
    let ?s' = "TAILQ_INSERT_HEAD s h e"
    have "tq_path ?s' (NextOf f) ys = tq_path s (NextOf f) ys"
      using assms Cons
      by (intro tq_path_cong) (auto simp: tailq_def TAILQ_INSERT_HEAD_def set_defs dest: in_set_butlastD)
    then show ?thesis using assms Cons
      by (auto simp: tailq_def TAILQ_INSERT_HEAD_def set_defs end_loc_def split: if_splits)
  qed
qed

lemma tailq_INSERT_TAIL:
  assumes "tailq s h xs" "e \<notin> set xs"
  shows "tailq (TAILQ_INSERT_TAIL s h e) h (xs @ [e])"
    and "agree_off s (TAILQ_INSERT_TAIL s h e) {h} (insert e (set xs))"
proof -
  show "agree_off s (TAILQ_INSERT_TAIL s h e) {h} (insert e (set xs))"
    using assms by (auto simp: tailq_def TAILQ_INSERT_TAIL_def set_defs agree_off_def end_loc_def)
  let ?s' = "TAILQ_INSERT_TAIL s h e"
  show "tailq ?s' h (xs @ [e])"
  proof (cases xs rule: rev_cases)
    case Nil
    then show ?thesis using assms by (simp add: tailq_def TAILQ_INSERT_TAIL_def set_defs)
  next
    case (snoc ys f)
    have "tq_path ?s' (HeadFirst h) (ys @ [f]) = tq_path s (HeadFirst h) (ys @ [f])"
      using assms snoc
      by (intro tq_path_cong) (auto simp: tailq_def TAILQ_INSERT_TAIL_def set_defs)
    then show ?thesis using assms snoc
      by (auto simp: tailq_def TAILQ_INSERT_TAIL_def set_defs)
  qed
qed

lemma tailq_REMOVE:
  assumes "tailq s h (as @ e # bs)"
  shows "tailq (TAILQ_REMOVE s h e) h (as @ bs)"
    and "agree_off s (TAILQ_REMOVE s h e) {h} (set (as @ e # bs))"
proof -
  let ?s' = "TAILQ_REMOVE s h e"
  have d: "distinct (as @ e # bs)" and p: "tqe_prev s e = end_loc (HeadFirst h) as"
    using assms by (auto simp: tailq_def)
  show "agree_off s ?s' {h} (set (as @ e # bs))"
    using assms by (cases bs; cases as rule: rev_cases)
      (auto simp: tailq_def TAILQ_REMOVE_def set_defs agree_off_def)
  have as: "tq_path ?s' (HeadFirst h) as = tq_path s (HeadFirst h) as"
    using assms by (cases bs; cases as rule: rev_cases; intro tq_path_cong)
      (auto simp: tailq_def TAILQ_REMOVE_def set_defs dest: in_set_butlastD)
  show "tailq ?s' h (as @ bs)"
  proof (cases bs)
    case Nil
    then show ?thesis using assms as
      by (cases as rule: rev_cases) (auto simp: tailq_def TAILQ_REMOVE_def set_defs)
  next
    case (Cons b cs)
    have "tq_path ?s' (NextOf b) cs = tq_path s (NextOf b) cs"
      using assms Cons by (cases as rule: rev_cases; intro tq_path_cong)
        (auto simp: tailq_def TAILQ_REMOVE_def set_defs dest: in_set_butlastD)
    then show ?thesis using assms as Cons
      by (cases as rule: rev_cases)
        (auto simp: tailq_def TAILQ_REMOVE_def set_defs end_loc_def split: if_splits)
  qed
qed

lemma tailq_INSERT_AFTER:
  assumes "tailq s h (as @ a # bs)" "e \<notin> set (as @ a # bs)"
  shows "tailq (TAILQ_INSERT_AFTER s h a e) h (as @ a # e # bs)"
    and "agree_off s (TAILQ_INSERT_AFTER s h a e) {h} (insert e (set (as @ a # bs)))"
proof -
  let ?s' = "TAILQ_INSERT_AFTER s h a e"
  show "agree_off s ?s' {h} (insert e (set (as @ a # bs)))"
    using assms by (cases bs) (auto simp: tailq_def TAILQ_INSERT_AFTER_def set_defs agree_off_def)
  have as: "tq_path ?s' (HeadFirst h) (as @ [a]) = tq_path s (HeadFirst h) (as @ [a])"
    using assms by (cases bs; intro tq_path_cong)
      (auto simp: tailq_def TAILQ_INSERT_AFTER_def set_defs)
  show "tailq ?s' h (as @ a # e # bs)"
  proof (cases bs)
    case Nil
    then show ?thesis using assms as by (auto simp: tailq_def TAILQ_INSERT_AFTER_def set_defs)
  next
    case (Cons b cs)
    have "tq_path ?s' (NextOf b) cs = tq_path s (NextOf b) cs"
      using assms Cons by (intro tq_path_cong)
        (auto simp: tailq_def TAILQ_INSERT_AFTER_def set_defs dest: in_set_butlastD)
    then show ?thesis using assms as Cons
      by (auto simp: tailq_def TAILQ_INSERT_AFTER_def set_defs end_loc_def split: if_splits)
  qed
qed

lemma tailq_INSERT_BEFORE:
  assumes "tailq s h (as @ a # bs)" "e \<notin> set (as @ a # bs)"
  shows "tailq (TAILQ_INSERT_BEFORE s a e) h (as @ e # a # bs)"
    and "agree_off s (TAILQ_INSERT_BEFORE s a e) {h} (insert e (set (as @ a # bs)))"
proof -
  let ?s' = "TAILQ_INSERT_BEFORE s a e"
  show "agree_off s ?s' {h} (insert e (set (as @ a # bs)))"
    using assms by (cases as rule: rev_cases)
      (auto simp: tailq_def TAILQ_INSERT_BEFORE_def set_defs agree_off_def)
  have as: "tq_path ?s' (HeadFirst h) as = tq_path s (HeadFirst h) as"
    using assms by (cases as rule: rev_cases; intro tq_path_cong)
      (auto simp: tailq_def TAILQ_INSERT_BEFORE_def set_defs)
  have "tq_path ?s' (NextOf a) bs = tq_path s (NextOf a) bs"
    using assms by (cases as rule: rev_cases; intro tq_path_cong)
      (auto simp: tailq_def TAILQ_INSERT_BEFORE_def set_defs dest: in_set_butlastD)
  with as show "tailq ?s' h (as @ e # a # bs)"
    using assms by (cases as rule: rev_cases)
      (auto simp: tailq_def TAILQ_INSERT_BEFORE_def set_defs end_loc_def split: if_splits)
qed

lemma tailq_REPLACE:
  assumes "tailq s h (as @ a # bs)" "e \<notin> set (as @ a # bs)"
  shows "tailq (TAILQ_REPLACE s h a e) h (as @ e # bs)"
    and "agree_off s (TAILQ_REPLACE s h a e) {h} (insert e (set (as @ a # bs)))"
proof -
  let ?s' = "TAILQ_REPLACE s h a e"
  show "agree_off s ?s' {h} (insert e (set (as @ a # bs)))"
    using assms by (cases bs; cases as rule: rev_cases)
      (auto simp: tailq_def TAILQ_REPLACE_def set_defs agree_off_def)
  have as: "tq_path ?s' (HeadFirst h) as = tq_path s (HeadFirst h) as"
    using assms by (cases bs; cases as rule: rev_cases; intro tq_path_cong)
      (auto simp: tailq_def TAILQ_REPLACE_def set_defs)
  show "tailq ?s' h (as @ e # bs)"
  proof (cases bs)
    case Nil
    then show ?thesis using assms as
      by (cases as rule: rev_cases) (auto simp: tailq_def TAILQ_REPLACE_def set_defs)
  next
    case (Cons b cs)
    have "tq_path ?s' (NextOf b) cs = tq_path s (NextOf b) cs"
      using assms Cons by (cases as rule: rev_cases; intro tq_path_cong)
        (auto simp: tailq_def TAILQ_REPLACE_def set_defs dest: in_set_butlastD)
    then show ?thesis using assms as Cons
      by (cases as rule: rev_cases)
        (auto simp: tailq_def TAILQ_REPLACE_def set_defs end_loc_def split: if_splits)
  qed
qed

lemma tailq_CONCAT:
  assumes "tailq s h xs" "tailq s k ys" "h \<noteq> k" "set xs \<inter> set ys = {}"
  shows "tailq (TAILQ_CONCAT s h k) h (xs @ ys)"
    and "tailq (TAILQ_CONCAT s h k) k []"
    and "agree_off s (TAILQ_CONCAT s h k) {h, k} (set xs \<union> set ys)"
proof -
  let ?s' = "TAILQ_CONCAT s h k"
  show "agree_off s ?s' {h, k} (set xs \<union> set ys)"
    using assms by (cases ys; cases xs rule: rev_cases)
      (auto simp: tailq_def TAILQ_CONCAT_def TAILQ_INIT_def set_defs agree_off_def end_loc_def)
  show "tailq ?s' k []"
    using assms by (cases ys; cases xs rule: rev_cases)
      (auto simp: tailq_def TAILQ_CONCAT_def TAILQ_INIT_def set_defs)
  show "tailq ?s' h (xs @ ys)"
  proof (cases ys)
    case Nil
    then show ?thesis using assms by (auto simp: tailq_def TAILQ_CONCAT_def)
  next
    case (Cons b cs)
    have "tq_path ?s' (HeadFirst h) xs = tq_path s (HeadFirst h) xs"
      "tq_path ?s' (NextOf b) cs = tq_path s (NextOf b) cs"
      using assms Cons by (cases xs rule: rev_cases; intro tq_path_cong;
        auto simp: tailq_def TAILQ_CONCAT_def TAILQ_INIT_def set_defs dest: in_set_butlastD)+
    then show ?thesis using assms Cons
      by (cases xs rule: rev_cases)
        (auto simp: tailq_def TAILQ_CONCAT_def TAILQ_INIT_def set_defs end_loc_def split: if_splits)
  qed
qed

lemma foreach_from_path:
  "tq_path s l xs \<Longrightarrow> load_ptr s (end_loc l xs) = None \<Longrightarrow> foreach_from s (load_ptr s l) = Some xs"
proof (induction xs arbitrary: l)
  case Nil
  then show ?case by (simp add: foreach_from.simps)
next
  case (Cons x xs)
  then have "foreach_from s (tqe_next s x) = Some xs" using Cons.IH [of "NextOf x"] by simp
  with Cons.prems show ?case by (auto simp: foreach_from.simps [of s "Some x"] TAILQ_NEXT_def)
qed

lemma tailq_FOREACH: "tailq s h xs \<Longrightarrow> TAILQ_FOREACH s h = Some xs"
  using foreach_from_path [of s "HeadFirst h" xs]
  by (auto simp: tailq_def TAILQ_FOREACH_def TAILQ_FIRST_def)

lemma foreach_back_path:
  assumes "tailq s h (as @ bs)"
  shows "foreach_back s (if as = [] then None else Some (last as)) = Some (rev as)"
  using assms
proof (induction as arbitrary: bs rule: rev_induct)
  case Nil
  then show ?case by (simp add: foreach_back.simps)
next
  case (snoc a as)
  have "TAILQ_PREV s a = (if as = [] then None else Some (last as))"
    using snoc.prems tailq_PREV [of s h as a bs] by simp
  moreover have "foreach_back s (if as = [] then None else Some (last as)) = Some (rev as)"
    using snoc.IH [of "a # bs"] snoc.prems by simp
  ultimately show ?case by (simp add: foreach_back.simps [of s "Some a"])
qed

lemma tailq_FOREACH_REVERSE: "tailq s h xs \<Longrightarrow> TAILQ_FOREACH_REVERSE s h = Some (rev xs)"
  using foreach_back_path [of s h xs "[]"] by (simp add: TAILQ_FOREACH_REVERSE_def tailq_LAST)

text \<open>
  The loop that removes the elements satisfying \<open>P\<close> as it visits them, the shape of the
  scheduler's reaper.
\<close>

definition remove_if :: "('e \<Rightarrow> bool) \<Rightarrow> 'h \<Rightarrow> ('h, 'e) tailq_store \<Rightarrow> 'e \<Rightarrow> ('h, 'e) tailq_store \<times> bool" where
  "remove_if P h s e = ((if P e then TAILQ_REMOVE s h e else s), True)"

lemma foreach_safe_remove_if:
  assumes "tailq s h (as @ bs)"
  shows "\<exists>s'. foreach_safe (remove_if P h) s (case bs of [] \<Rightarrow> None | b # _ \<Rightarrow> Some b) = Some s' \<and>
    tailq s' h (as @ filter (\<lambda>e. \<not> P e) bs) \<and> agree_off s s' {h} (set (as @ bs))"
  using assms
proof (induction bs arbitrary: s as)
  case Nil
  then show ?case by (simp add: foreach_safe.simps agree_off_def)
next
  case (Cons b bs)
  have next_b: "TAILQ_NEXT s b = (case bs of [] \<Rightarrow> None | b # _ \<Rightarrow> Some b)"
    using Cons.prems tailq_NEXT [of s h as b bs] by simp
  show ?case
  proof (cases "P b")
    case True
    note r = tailq_REMOVE [OF Cons.prems]
    obtain s' where s': "foreach_safe (remove_if P h) (TAILQ_REMOVE s h b)
          (case bs of [] \<Rightarrow> None | b # _ \<Rightarrow> Some b) = Some s'"
        "tailq s' h (as @ filter (\<lambda>e. \<not> P e) bs)"
        "agree_off (TAILQ_REMOVE s h b) s' {h} (set (as @ bs))"
      using Cons.IH [OF r(1)] by blast
    have "agree_off s s' {h} (set (as @ b # bs))"
      using r(2) s'(3) by (auto simp: agree_off_def)
    moreover have "foreach_safe (remove_if P h) s (Some b) = Some s'"
      using s'(1) True next_b by (subst foreach_safe.simps) (simp add: remove_if_def [of P h s])
    ultimately show ?thesis using s'(2) True by auto
  next
    case False
    obtain s' where s': "foreach_safe (remove_if P h) s
          (case bs of [] \<Rightarrow> None | b # _ \<Rightarrow> Some b) = Some s'"
        "tailq s' h ((as @ [b]) @ filter (\<lambda>e. \<not> P e) bs)"
        "agree_off s s' {h} (set ((as @ [b]) @ bs))"
      using Cons.IH [of s "as @ [b]"] Cons.prems by auto
    moreover have "foreach_safe (remove_if P h) s (Some b) = Some s'"
      using s'(1) False next_b by (subst foreach_safe.simps) (simp add: remove_if_def [of P h s])
    ultimately show ?thesis using False by auto
  qed
qed

text \<open>The macros satisfy the contract.\<close>

interpretation tq: tail_queue tailq TAILQ_FIRST TAILQ_FOREACH TAILQ_INSERT_HEAD
  "\<lambda>s h e. Some (TAILQ_REMOVE s h e)" TAILQ_INSERT_TAIL
proof (unfold_locales, goal_cases)
  case 1
  then show ?case by (simp add: tailq_def)
next
  case (5 s h xs e k ys)
  then show ?case using tailq_frame [OF tailq_INSERT_HEAD(2)] by (metis singletonD)
next
  case (6 s h xs e)
  then obtain as bs where xs: "xs = as @ e # bs" by (meson split_list)
  with 6 have "e \<notin> set as" by (auto simp: tailq_def)
  with 6 xs tailq_REMOVE(1) [of s h as e bs] show ?case by (simp add: remove1_append)
next
  case (7 s h xs e s' k ys)
  then obtain as bs where xs: "xs = as @ e # bs" by (meson split_list)
  with 7 show ?case using tailq_frame [OF tailq_REMOVE(2) [of s h as e bs]] by (metis option.inject singletonD)
next
  case (9 s h xs e k ys)
  then show ?case using tailq_frame [OF tailq_INSERT_TAIL(2)] by (metis singletonD)
qed (simp_all add: tailq_FIRST tailq_FOREACH tailq_INSERT_HEAD(1) tailq_INSERT_TAIL(1))

text \<open>The operations of a sequence, none of which can fail.\<close>

fun tailq_step :: "('h, 'e) queue_op \<Rightarrow> ('h, 'e) tailq_store \<Rightarrow> ('h, 'e) tailq_store" where
  "tailq_step (InsertHead h e) s = TAILQ_INSERT_HEAD s h e"
| "tailq_step (InsertTail h e) s = TAILQ_INSERT_TAIL s h e"
| "tailq_step (Remove h e) s = TAILQ_REMOVE s h e"

definition implements :: "('h, 'e) tailq_store \<Rightarrow> ('h \<Rightarrow> 'e list) \<Rightarrow> bool" where
  "implements s q \<longleftrightarrow>
     (\<forall>h. tailq s h (q h)) \<and> (\<forall>h k. h \<noteq> k \<longrightarrow> set (q h) \<inter> set (q k) = {})"

lemma implementsD: "implements s q \<Longrightarrow> tailq s h (q h)"
  by (simp add: implements_def)

lemma implements_step:
  assumes "implements s q" "op_ok x q"
  shows "implements (tailq_step x s) (lq_step x q)"
proof -
  have "queue_step TAILQ_INSERT_HEAD TAILQ_INSERT_TAIL (\<lambda>s h e. Some (TAILQ_REMOVE s h e)) x s = Some (tailq_step x s)"
    by (cases x) simp_all
  then show ?thesis using tq.queue_step_family [of s q x] assms by (simp add: implements_def family_def)
qed

text \<open>
  Any well-formed sequence of insertions and removals on any number of tail queues, run with
  the pointer macros, leaves every head describing exactly the list that the same sequence produces
  on plain lists: the doubly linked representation implements the lists, and no operation on one
  queue disturbs another.
\<close>

theorem tailq_run_implements:
  "implements s q \<Longrightarrow> ops_ok xs q \<Longrightarrow> implements (fold tailq_step xs s) (fold lq_step xs q)"
  by (induction xs arbitrary: s q) (auto intro: implements_step)

definition sample_store :: "(nat, nat) tailq_store" where
  "sample_store = \<lparr>tqh_first = (\<lambda>_. None), tqh_last = HeadFirst, tqe_next = (\<lambda>_. None), tqe_prev = NextOf\<rparr>"

theorem tailq_run_implements_witness:
  "TAILQ_FOREACH (fold tailq_step [InsertTail 0 7, InsertTail 0 8, Remove 0 7, InsertHead 1 9, InsertTail 0 7]
     sample_store) (0 :: nat) = Some [8 :: nat, 7]"
proof -
  let ?ops = "[InsertTail 0 7, InsertTail 0 8, Remove 0 7, InsertHead 1 9, InsertTail 0 7]
    :: (nat, nat) queue_op list"
  have "implements sample_store (\<lambda>_. [])" by (simp add: implements_def sample_store_def tailq_def)
  moreover have "ops_ok ?ops (\<lambda>_ :: nat. [] :: nat list)" by (auto simp: lq_defs)
  ultimately have "implements (fold tailq_step ?ops sample_store) (fold lq_step ?ops (\<lambda>_. []))"
    by (rule tailq_run_implements)
  then have "tailq (fold tailq_step ?ops sample_store) 0 (fold lq_step ?ops (\<lambda>_. []) 0)"
    by (rule implementsD)
  moreover have "fold lq_step ?ops (\<lambda>_. []) 0 = [8, 7]" by (simp add: lq_defs)
  ultimately show ?thesis by (simp only: tailq_FOREACH)
qed

text \<open>
  (C39) A safe traversal that removes the elements satisfying a test while it visits them always
  finishes; it leaves the queue holding exactly the other elements in their order, and it writes
  neither another head nor an entry that was not on this queue.
\<close>

theorem foreach_safe_filters:
  assumes "tailq s h xs"
  shows "\<exists>s'. TAILQ_FOREACH_SAFE (remove_if P h) s h = Some s' \<and>
    tailq s' h (filter (\<lambda>e. \<not> P e) xs) \<and> agree_off s s' {h} (set xs)"
  using foreach_safe_remove_if [of s h "[]" xs P] assms
  by (simp add: TAILQ_FOREACH_SAFE_def tailq_FIRST)

theorem foreach_safe_filters_witness:
  "\<exists>s'. TAILQ_FOREACH_SAFE (remove_if even 0)
      (TAILQ_INSERT_TAIL (TAILQ_INSERT_TAIL sample_store 0 4) 0 5) 0 = Some s' \<and> tailq s' 0 [5 :: nat]"
proof -
  have "tailq sample_store 0 []" by (simp add: sample_store_def tailq_def)
  then have "tailq (TAILQ_INSERT_TAIL (TAILQ_INSERT_TAIL sample_store 0 4) 0 5) 0 [4, 5]"
    using tq.insert_tail_rep [OF tq.insert_tail_rep [of sample_store 0 "[]" 4], of 5] by simp
  from foreach_safe_filters [OF this, of even] show ?thesis by auto
qed

text \<open>
  On a well-formed queue the two traversals return: forwards the elements in order, backwards
  in the opposite order, and concatenation of two disjoint queues appends the second list to the
  first, leaves the second queue empty and touches nothing else.
\<close>

theorem tailq_concat_traversal:
  assumes "tailq s h xs" "tailq s k ys" "h \<noteq> k" "set xs \<inter> set ys = {}"
  shows "TAILQ_FOREACH (TAILQ_CONCAT s h k) h = Some (xs @ ys) \<and>
    TAILQ_FOREACH_REVERSE (TAILQ_CONCAT s h k) h = Some (rev ys @ rev xs) \<and>
    TAILQ_EMPTY (TAILQ_CONCAT s h k) k \<and>
    agree_off s (TAILQ_CONCAT s h k) {h, k} (set xs \<union> set ys)"
  using tailq_CONCAT [OF assms] by (simp add: tailq_FOREACH tailq_FOREACH_REVERSE tailq_EMPTY)

theorem tailq_concat_traversal_witness:
  "TAILQ_FOREACH_REVERSE
     (TAILQ_CONCAT (TAILQ_INSERT_TAIL (TAILQ_INSERT_TAIL sample_store 0 4) 1 5) 0 1) 0 = Some [5 :: nat, 4]"
proof -
  have i: "tailq sample_store k []" for k by (simp add: sample_store_def tailq_def)
  let ?s = "TAILQ_INSERT_TAIL sample_store 0 4"
  have "tailq ?s 0 [4]" "tailq ?s 1 []"
    using tq.insert_tail_rep [OF i, of 4 0] tq.insert_tail_frame [of sample_store 0 "[]" 4 1 "[]"] i by simp_all
  then have "tailq (TAILQ_INSERT_TAIL ?s 1 5) 0 [4]" "tailq (TAILQ_INSERT_TAIL ?s 1 5) 1 [5]"
    using tq.insert_tail_rep [of ?s 1 "[]" 5] tq.insert_tail_frame [of ?s 1 "[]" 5 0 "[4]"] by simp_all
  from tailq_concat_traversal [OF this] show ?thesis by simp
qed

end
