(* ===== verification/Slist.thy ===== *)
theory Slist
  imports Queue
begin

text \<open>
  The singly-linked list macros of \<^verbatim>\<open>include/bmk/queue.h\<close>, on which the interrupt handlers of a line
  are kept. The macros that follow the \<^verbatim>\<open>next\<close> pointer of a null pointer, or search an element
  that is not there, return nothing.
\<close>

section \<open>The store and the macros\<close>

record ('h, 'e) slist_store =
  slh_first :: "'h \<Rightarrow> 'e option"
  sle_next :: "'e \<Rightarrow> 'e option"

definition set_slh_first :: "('h, 'e) slist_store \<Rightarrow> 'h \<Rightarrow> 'e option \<Rightarrow> ('h, 'e) slist_store" where
  "set_slh_first s h v = s\<lparr>slh_first := (slh_first s)(h := v)\<rparr>"

definition set_sle_next :: "('h, 'e) slist_store \<Rightarrow> 'e \<Rightarrow> 'e option \<Rightarrow> ('h, 'e) slist_store" where
  "set_sle_next s e v = s\<lparr>sle_next := (sle_next s)(e := v)\<rparr>"

definition SLIST_FIRST :: "('h, 'e) slist_store \<Rightarrow> 'h \<Rightarrow> 'e option" where
  "SLIST_FIRST s h = slh_first s h"

definition SLIST_EMPTY :: "('h, 'e) slist_store \<Rightarrow> 'h \<Rightarrow> bool" where
  "SLIST_EMPTY s h \<longleftrightarrow> slh_first s h = None"

definition SLIST_NEXT :: "('h, 'e) slist_store \<Rightarrow> 'e \<Rightarrow> 'e option" where
  "SLIST_NEXT s e = sle_next s e"

definition SLIST_FOREACH :: "('h, 'e) slist_store \<Rightarrow> 'h \<Rightarrow> 'e list option" where
  "SLIST_FOREACH s h = follow id (sle_next s) None (slh_first s h)"

definition SLIST_FOREACH_SAFE ::
  "(('h, 'e) slist_store \<Rightarrow> 'e \<Rightarrow> ('h, 'e) slist_store) \<Rightarrow> ('h, 'e) slist_store \<Rightarrow> 'h \<Rightarrow> ('h, 'e) slist_store option" where
  "SLIST_FOREACH_SAFE body s h = safe_loop SLIST_NEXT body s (SLIST_FIRST s h)"

definition SLIST_INIT :: "('h, 'e) slist_store \<Rightarrow> 'h \<Rightarrow> ('h, 'e) slist_store" where
  "SLIST_INIT s h = set_slh_first s h None"

text \<open>The store once the static initialiser of a head has been laid out: what \<^verbatim>\<open>SLIST_INIT\<close> does at run time.\<close>

definition SLIST_HEAD_INITIALIZER :: "('h, 'e) slist_store \<Rightarrow> 'h \<Rightarrow> ('h, 'e) slist_store" where
  "SLIST_HEAD_INITIALIZER s h = set_slh_first s h None"

definition SLIST_INSERT_AFTER :: "('h, 'e) slist_store \<Rightarrow> 'e \<Rightarrow> 'e \<Rightarrow> ('h, 'e) slist_store" where
  "SLIST_INSERT_AFTER s slistelm elm =
     (let s = set_sle_next s elm (sle_next s slistelm)
      in set_sle_next s slistelm (Some elm))"

definition SLIST_INSERT_HEAD :: "('h, 'e) slist_store \<Rightarrow> 'h \<Rightarrow> 'e \<Rightarrow> ('h, 'e) slist_store" where
  "SLIST_INSERT_HEAD s h elm =
     (let s = set_sle_next s elm (slh_first s h)
      in set_slh_first s h (Some elm))"

definition SLIST_REMOVE_AFTER :: "('h, 'e) slist_store \<Rightarrow> 'e \<Rightarrow> ('h, 'e) slist_store option" where
  "SLIST_REMOVE_AFTER s slistelm =
     map_option (\<lambda>n. set_sle_next s slistelm (SLIST_NEXT s n)) (SLIST_NEXT s slistelm)"

definition SLIST_REMOVE_HEAD :: "('h, 'e) slist_store \<Rightarrow> 'h \<Rightarrow> ('h, 'e) slist_store option" where
  "SLIST_REMOVE_HEAD s h = map_option (\<lambda>f. set_slh_first s h (sle_next s f)) (slh_first s h)"

definition SLIST_REMOVE :: "('h, 'e) slist_store \<Rightarrow> 'h \<Rightarrow> 'e \<Rightarrow> ('h, 'e) slist_store option" where
  "SLIST_REMOVE s h elm =
     (if slh_first s h = Some elm then SLIST_REMOVE_HEAD s h
      else Option.bind (find_before (sle_next s) elm (slh_first s h)) (\<lambda>curelm.
        map_option (\<lambda>n. set_sle_next s curelm (sle_next s n)) (sle_next s curelm)))"

section \<open>The list a head stands for\<close>

definition slist :: "('h, 'e) slist_store \<Rightarrow> 'h \<Rightarrow> 'e list \<Rightarrow> bool" where
  "slist s h xs \<longleftrightarrow> distinct xs \<and> seg Some (sle_next s) (slh_first s h) xs None"

lemmas slist_setters = set_slh_first_def set_sle_next_def

lemma slist_FIRST: "slist s h xs \<Longrightarrow> SLIST_FIRST s h = (case xs of [] \<Rightarrow> None | x # _ \<Rightarrow> Some x)"
  by (auto simp: slist_def SLIST_FIRST_def split: list.splits)

lemma slist_FOREACH: "slist s h xs \<Longrightarrow> SLIST_FOREACH s h = Some xs"
  unfolding SLIST_FOREACH_def by (rule follow_seg [where ptr = Some]) (auto simp: slist_def)

lemma slist_INSERT_HEAD:
  assumes "slist s h xs" "e \<notin> set xs"
  shows "slist (SLIST_INSERT_HEAD s h e) h (e # xs)"
  using assms by (simp add: slist_def SLIST_INSERT_HEAD_def slist_setters Let_def)

lemma slist_INSERT_AFTER:
  assumes "slist s h (as @ a # bs)" "e \<notin> set (as @ a # bs)"
  shows "slist (SLIST_INSERT_AFTER s a e) h (as @ a # e # bs)"
  using assms by (auto simp: slist_def SLIST_INSERT_AFTER_def slist_setters Let_def)

lemma slist_REMOVE_HEAD:
  assumes "slist s h (x # xs)"
  shows "\<exists>s'. SLIST_REMOVE_HEAD s h = Some s' \<and> slist s' h xs"
  using assms by (auto simp: slist_def SLIST_REMOVE_HEAD_def slist_setters)

lemma slist_REMOVE_AFTER:
  assumes "slist s h (as @ a # e # bs)"
  shows "\<exists>s'. SLIST_REMOVE_AFTER s a = Some s' \<and> slist s' h (as @ a # bs)"
  using assms by (auto simp: slist_def SLIST_REMOVE_AFTER_def SLIST_NEXT_def slist_setters)

lemma slist_REMOVE:
  assumes "slist s h (as @ e # bs)"
  shows "\<exists>s'. SLIST_REMOVE s h e = Some s' \<and> slist s' h (as @ bs) \<and>
    (\<forall>k. k \<noteq> h \<longrightarrow> slh_first s' k = slh_first s k) \<and> (\<forall>x. x \<notin> set as \<longrightarrow> sle_next s' x = sle_next s x)"
proof (cases as rule: rev_cases)
  case Nil
  then show ?thesis
    using assms by (auto simp: slist_def SLIST_REMOVE_def SLIST_REMOVE_HEAD_def slist_setters)
next
  case (snoc cs c)
  have ne: "slh_first s h \<noteq> Some e" using assms snoc by (cases cs) (auto simp: slist_def)
  have "find_before (sle_next s) e (slh_first s h) = Some c"
    using assms snoc by (intro find_before_seg [of _ _ cs]) (auto simp: slist_def)
  then have "SLIST_REMOVE s h e = Some (set_sle_next s c (sle_next s e))"
    using assms snoc ne by (auto simp: slist_def SLIST_REMOVE_def)
  then show ?thesis using assms snoc by (auto simp: slist_def slist_setters)
qed

lemma slist_frame:
  assumes "slist s k ys" "slh_first s' k = slh_first s k" "\<And>y. y \<in> set ys \<Longrightarrow> sle_next s' y = sle_next s y"
  shows "slist s' k ys"
  using assms seg_cong [of ys "sle_next s'" "sle_next s"] by (auto simp: slist_def)

interpretation sl: linked_list slist SLIST_FIRST SLIST_FOREACH SLIST_INSERT_HEAD SLIST_REMOVE
proof (unfold_locales, goal_cases)
  case 1
  then show ?case by (simp add: slist_def)
next
  case (5 s h xs e k ys)
  show ?case
    by (rule slist_frame [OF 5(3)]) (use 5(4,5) in \<open>auto simp: SLIST_INSERT_HEAD_def slist_setters Let_def\<close>)
next
  case (6 s h xs e)
  then obtain as bs where xs: "xs = as @ e # bs" by (meson split_list)
  with 6 have "e \<notin> set as" by (auto simp: slist_def)
  with 6(1) xs slist_REMOVE [of s h as e bs] show ?case by (auto simp: remove1_append)
next
  case (7 s h xs e s' k ys)
  then obtain as bs where xs: "xs = as @ e # bs" by (meson split_list)
  with 7 show ?case using slist_REMOVE [of s h as e bs] slist_frame [OF 7(4), of s'] by fastforce
qed (simp_all add: slist_FIRST slist_FOREACH slist_INSERT_HEAD)

lemma slist_INIT: "slist (SLIST_INIT s h) h []" "k \<noteq> h \<Longrightarrow> slist s k ys \<Longrightarrow> slist (SLIST_INIT s h) k ys"
  by (simp_all add: slist_def SLIST_INIT_def slist_setters)

text \<open>
  A safe traversal with a body that overwrites the link of the element it is given still visits every
  element.
\<close>

definition clobber :: "('h, 'e) slist_store \<Rightarrow> 'e \<Rightarrow> ('h, 'e) slist_store" where
  "clobber s e = set_sle_next s e None"

lemma slist_FOREACH_SAFE_clobber:
  assumes "slist s h xs"
  shows "SLIST_FOREACH_SAFE clobber s h = Some (fold (\<lambda>x s. clobber s x) xs s)"
  unfolding SLIST_FOREACH_SAFE_def
  using assms by (intro safe_loop_visits) (auto simp: slist_def SLIST_FIRST_def SLIST_NEXT_def [abs_def] clobber_def slist_setters)

end
