(* ===== verification/Linklist.thy ===== *)
theory Linklist
  imports Queue
begin

text \<open>
  The doubly-linked list macros \<^verbatim>\<open>LIST_*\<close> of \<^verbatim>\<open>include/bmk/queue.h\<close>. An element keeps in
  \<^verbatim>\<open>le_prev\<close> the address of the pointer that leads to it. The checks of \<^verbatim>\<open>QUEUEDEBUG\<close> are not
  compiled in.
\<close>

section \<open>The store and the macros\<close>

record ('h, 'e) list_store =
  lh_first :: "'h \<Rightarrow> 'e option"
  le_next :: "'e \<Rightarrow> 'e option"
  le_prev :: "'e \<Rightarrow> ('h, 'e) loc"

definition set_lh_first :: "('h, 'e) list_store \<Rightarrow> 'h \<Rightarrow> 'e option \<Rightarrow> ('h, 'e) list_store" where
  "set_lh_first s h v = s\<lparr>lh_first := (lh_first s)(h := v)\<rparr>"

definition set_le_next :: "('h, 'e) list_store \<Rightarrow> 'e \<Rightarrow> 'e option \<Rightarrow> ('h, 'e) list_store" where
  "set_le_next s e v = s\<lparr>le_next := (le_next s)(e := v)\<rparr>"

definition set_le_prev :: "('h, 'e) list_store \<Rightarrow> 'e \<Rightarrow> ('h, 'e) loc \<Rightarrow> ('h, 'e) list_store" where
  "set_le_prev s e l = s\<lparr>le_prev := (le_prev s)(e := l)\<rparr>"

text \<open>Writing the pointer at an address.\<close>

fun store_le_ptr :: "('h, 'e) list_store \<Rightarrow> ('h, 'e) loc \<Rightarrow> 'e option \<Rightarrow> ('h, 'e) list_store" where
  "store_le_ptr s (HeadFirst h) v = set_lh_first s h v"
| "store_le_ptr s (NextOf e) v = set_le_next s e v"

definition LIST_FIRST :: "('h, 'e) list_store \<Rightarrow> 'h \<Rightarrow> 'e option" where
  "LIST_FIRST s h = lh_first s h"

definition LIST_EMPTY :: "('h, 'e) list_store \<Rightarrow> 'h \<Rightarrow> bool" where
  "LIST_EMPTY s h \<longleftrightarrow> lh_first s h = None"

definition LIST_NEXT :: "('h, 'e) list_store \<Rightarrow> 'e \<Rightarrow> 'e option" where
  "LIST_NEXT s e = le_next s e"

definition LIST_FOREACH :: "('h, 'e) list_store \<Rightarrow> 'h \<Rightarrow> 'e list option" where
  "LIST_FOREACH s h = follow id (le_next s) None (lh_first s h)"

definition LIST_FOREACH_SAFE ::
  "(('h, 'e) list_store \<Rightarrow> 'e \<Rightarrow> ('h, 'e) list_store) \<Rightarrow> ('h, 'e) list_store \<Rightarrow> 'h \<Rightarrow> ('h, 'e) list_store option" where
  "LIST_FOREACH_SAFE body s h = safe_loop LIST_NEXT body s (LIST_FIRST s h)"

definition LIST_INIT :: "('h, 'e) list_store \<Rightarrow> 'h \<Rightarrow> ('h, 'e) list_store" where
  "LIST_INIT s h = set_lh_first s h None"

text \<open>The store once the static initialiser of a head has been laid out: what \<^verbatim>\<open>LIST_INIT\<close> does at run time.\<close>

definition LIST_HEAD_INITIALIZER :: "('h, 'e) list_store \<Rightarrow> 'h \<Rightarrow> ('h, 'e) list_store" where
  "LIST_HEAD_INITIALIZER s h = set_lh_first s h None"

definition LIST_MOVE :: "('h, 'e) list_store \<Rightarrow> 'h \<Rightarrow> 'h \<Rightarrow> ('h, 'e) list_store" where
  "LIST_MOVE s head1 head2 =
     (let s = LIST_INIT s head2
      in if \<not> LIST_EMPTY s head1 then
           (let s = set_lh_first s head2 (lh_first s head1)
            in LIST_INIT s head1)
         else s)"

definition LIST_INSERT_AFTER :: "('h, 'e) list_store \<Rightarrow> 'e \<Rightarrow> 'e \<Rightarrow> ('h, 'e) list_store" where
  "LIST_INSERT_AFTER s listelm elm =
     (let s = set_le_next s elm (le_next s listelm);
          s = (case le_next s listelm of Some f \<Rightarrow> set_le_prev s f (NextOf elm) | None \<Rightarrow> s);
          s = set_le_next s listelm (Some elm)
      in set_le_prev s elm (NextOf listelm))"

definition LIST_INSERT_BEFORE :: "('h, 'e) list_store \<Rightarrow> 'e \<Rightarrow> 'e \<Rightarrow> ('h, 'e) list_store" where
  "LIST_INSERT_BEFORE s listelm elm =
     (let s = set_le_prev s elm (le_prev s listelm);
          s = set_le_next s elm (Some listelm);
          s = store_le_ptr s (le_prev s listelm) (Some elm)
      in set_le_prev s listelm (NextOf elm))"

definition LIST_INSERT_HEAD :: "('h, 'e) list_store \<Rightarrow> 'h \<Rightarrow> 'e \<Rightarrow> ('h, 'e) list_store" where
  "LIST_INSERT_HEAD s h elm =
     (let s = set_le_next s elm (lh_first s h);
          s = (case lh_first s h of Some f \<Rightarrow> set_le_prev s f (NextOf elm) | None \<Rightarrow> s);
          s = set_lh_first s h (Some elm)
      in set_le_prev s elm (HeadFirst h))"

definition LIST_REMOVE :: "('h, 'e) list_store \<Rightarrow> 'e \<Rightarrow> ('h, 'e) list_store" where
  "LIST_REMOVE s elm =
     (let s = (case le_next s elm of Some f \<Rightarrow> set_le_prev s f (le_prev s elm) | None \<Rightarrow> s)
      in store_le_ptr s (le_prev s elm) (le_next s elm))"

definition LIST_REPLACE :: "('h, 'e) list_store \<Rightarrow> 'e \<Rightarrow> 'e \<Rightarrow> ('h, 'e) list_store" where
  "LIST_REPLACE s elm elm2 =
     (let s = set_le_next s elm2 (le_next s elm);
          s = (case le_next s elm2 of Some f \<Rightarrow> set_le_prev s f (NextOf elm2) | None \<Rightarrow> s);
          s = set_le_prev s elm2 (le_prev s elm)
      in store_le_ptr s (le_prev s elm2) (Some elm2))"

section \<open>The list a head stands for\<close>

definition blist :: "('h, 'e) list_store \<Rightarrow> 'h \<Rightarrow> 'e list \<Rightarrow> bool" where
  "blist s h xs \<longleftrightarrow> distinct xs \<and> seg Some (le_next s) (lh_first s h) xs None \<and> backs (le_prev s) (HeadFirst h) xs"

lemmas list_setters = set_lh_first_def set_le_next_def set_le_prev_def

text \<open>What an operation on head \<open>h\<close> may touch: that head and the entries of \<open>A\<close>.\<close>

definition list_agree :: "('h, 'e) list_store \<Rightarrow> ('h, 'e) list_store \<Rightarrow> 'h \<Rightarrow> 'e set \<Rightarrow> bool" where
  "list_agree s s' h A \<longleftrightarrow> (\<forall>k. k \<noteq> h \<longrightarrow> lh_first s' k = lh_first s k) \<and>
     (\<forall>x. x \<notin> A \<longrightarrow> le_next s' x = le_next s x \<and> le_prev s' x = le_prev s x)"

lemma blist_frame:
  assumes "list_agree s s' h A" "k \<noteq> h" "set ys \<inter> A = {}" "blist s k ys"
  shows "blist s' k ys"
proof -
  have "le_next s' y = le_next s y \<and> le_prev s' y = le_prev s y" if "y \<in> set ys" for y
    using that assms(1,3) by (auto simp: list_agree_def)
  then show ?thesis
    using assms(1,2,4) seg_cong [of ys "le_next s'" "le_next s"] backs_cong [of ys "le_prev s'" "le_prev s"]
    by (auto simp: blist_def list_agree_def)
qed

lemma blist_FIRST: "blist s h xs \<Longrightarrow> LIST_FIRST s h = (case xs of [] \<Rightarrow> None | x # _ \<Rightarrow> Some x)"
  by (auto simp: blist_def LIST_FIRST_def split: list.splits)

lemma blist_FOREACH: "blist s h xs \<Longrightarrow> LIST_FOREACH s h = Some xs"
  unfolding LIST_FOREACH_def by (rule follow_seg [where ptr = Some]) (auto simp: blist_def)

lemma blist_INIT: "blist (LIST_INIT s h) h []"
  by (simp add: blist_def LIST_INIT_def list_setters)

lemma blist_INSERT_HEAD:
  assumes "blist s h xs" "e \<notin> set xs"
  shows "blist (LIST_INSERT_HEAD s h e) h (e # xs)" "list_agree s (LIST_INSERT_HEAD s h e) h (insert e (set xs))"
  using assms
  by (cases xs; auto simp: blist_def LIST_INSERT_HEAD_def list_setters list_agree_def)+

lemma blist_INSERT_AFTER:
  assumes "blist s h (as @ a # bs)" "e \<notin> set (as @ a # bs)"
  shows "blist (LIST_INSERT_AFTER s a e) h (as @ a # e # bs)"
    "list_agree s (LIST_INSERT_AFTER s a e) h (insert e (set (as @ a # bs)))"
  using assms
  by (cases bs; auto simp: blist_def LIST_INSERT_AFTER_def list_setters list_agree_def)+

lemma blist_INSERT_BEFORE:
  assumes "blist s h (as @ a # bs)" "e \<notin> set (as @ a # bs)"
  shows "blist (LIST_INSERT_BEFORE s a e) h (as @ e # a # bs)"
    "list_agree s (LIST_INSERT_BEFORE s a e) h (insert e (set (as @ a # bs)))"
  using assms
  by (cases as rule: rev_cases; auto simp: blist_def LIST_INSERT_BEFORE_def list_setters list_agree_def)+

lemma blist_REMOVE:
  assumes "blist s h (as @ e # bs)"
  shows "blist (LIST_REMOVE s e) h (as @ bs)" "list_agree s (LIST_REMOVE s e) h (set (as @ e # bs))"
  using assms
  by (cases bs; cases as rule: rev_cases; auto simp: blist_def LIST_REMOVE_def list_setters list_agree_def)+

lemma blist_REPLACE:
  assumes "blist s h (as @ a # bs)" "e \<notin> set (as @ a # bs)"
  shows "blist (LIST_REPLACE s a e) h (as @ e # bs)"
    "list_agree s (LIST_REPLACE s a e) h (insert e (set (as @ a # bs)))"
  using assms
  by (cases bs; cases as rule: rev_cases; auto simp: blist_def LIST_REPLACE_def list_setters list_agree_def)+

interpretation ll: linked_list blist LIST_FIRST LIST_FOREACH LIST_INSERT_HEAD "\<lambda>s h e. Some (LIST_REMOVE s e)"
proof (unfold_locales, goal_cases)
  case 1
  then show ?case by (simp add: blist_def)
next
  case (5 s h xs e k ys)
  then show ?case using blist_frame [OF blist_INSERT_HEAD(2)] by metis
next
  case (6 s h xs e)
  then obtain as bs where xs: "xs = as @ e # bs" by (meson split_list)
  with 6 have "e \<notin> set as" by (auto simp: blist_def)
  with 6 xs blist_REMOVE(1) [of s h as e bs] show ?case by (simp add: remove1_append)
next
  case (7 s h xs e s' k ys)
  then obtain as bs where xs: "xs = as @ e # bs" by (meson split_list)
  with 7 show ?case using blist_frame [OF blist_REMOVE(2) [of s h as e bs]] by (metis option.inject)
qed (simp_all add: blist_FIRST blist_FOREACH blist_INSERT_HEAD(1))

text \<open>
  (C36) \<^verbatim>\<open>LIST_MOVE\<close> moves the elements but leaves in the first one the address of the old head: removing
  this element afterwards takes it out of neither list, the new head still leads to it, while the old
  head, which was empty, gets all the other elements.
\<close>

theorem list_move_stale:
  assumes "blist s h (x # xs)" "k \<noteq> h"
  shows "LIST_FOREACH (LIST_MOVE s h k) k = Some (x # xs) \<and> LIST_EMPTY (LIST_MOVE s h k) h \<and>
    \<not> blist (LIST_MOVE s h k) k (x # xs) \<and>
    LIST_FOREACH (LIST_REMOVE (LIST_MOVE s h k) x) k = Some (x # xs) \<and>
    LIST_FOREACH (LIST_REMOVE (LIST_MOVE s h k) x) h = Some xs"
proof -
  let ?m = "LIST_MOVE s h k" and ?r = "LIST_REMOVE (LIST_MOVE s h k) x"
  have m: "lh_first ?m k = Some x" "lh_first ?m h = None" "le_next ?m = le_next s" "le_prev ?m = le_prev s"
    using assms by (simp_all add: LIST_MOVE_def LIST_INIT_def LIST_EMPTY_def list_setters blist_def)
  have p: "le_prev s x = HeadFirst h" "seg Some (le_next s) (le_next s x) xs None" using assms by (simp_all add: blist_def)
  have r: "lh_first ?r k = Some x" "lh_first ?r h = le_next s x" "le_next ?r = le_next s"
    using m p(1) assms(2) by (auto simp: LIST_REMOVE_def list_setters Let_def split: option.splits)
  have f: "follow id (le_next s) None (Some x) = Some (x # xs)" "follow id (le_next s) None (le_next s x) = Some xs"
    using p(2) by (auto intro!: follow_seg [where ptr = Some])
  have "\<not> blist ?m k (x # xs)" using m p(1) assms(2) by (simp add: blist_def)
  then show ?thesis using m r f by (simp add: LIST_FOREACH_def LIST_EMPTY_def)
qed

definition sample_lists :: "(nat, nat) list_store" where
  "sample_lists = \<lparr>lh_first = (\<lambda>_. None), le_next = (\<lambda>_. None), le_prev = NextOf\<rparr>"

theorem list_move_stale_witness:
  "\<exists>s. LIST_FOREACH (LIST_REMOVE (LIST_MOVE s 0 1) 5) (1 :: nat) = Some [5 :: nat, 4] \<and>
     LIST_FOREACH (LIST_REMOVE (LIST_MOVE s 0 1) 5) 0 = Some [4]"
proof -
  have "blist sample_lists 0 []" by (simp add: blist_def sample_lists_def)
  then have "blist (LIST_INSERT_HEAD (LIST_INSERT_HEAD sample_lists 0 4) 0 5) 0 [5, 4]"
    using ll.insert_head_rep [OF ll.insert_head_rep [of sample_lists 0 "[]" 4], of 5] by simp
  from list_move_stale [OF this, of 1] show ?thesis by auto
qed

end
