(* ===== verification/Simpleq.thy ===== *)
theory Simpleq
  imports Queue
begin

text \<open>
  The simple queue macros \<^verbatim>\<open>SIMPLEQ_*\<close> of \<^verbatim>\<open>include/bmk/queue.h\<close>. A head has the address of the
  last \<^verbatim>\<open>next\<close> pointer. The macros that follow a null pointer, or search an element that is not
  there, return nothing.
\<close>

section \<open>Simple queues\<close>

record ('h, 'e) simpleq_store =
  sqh_first :: "'h \<Rightarrow> 'e option"
  sqh_last :: "'h \<Rightarrow> ('h, 'e) loc"
  sqe_next :: "'e \<Rightarrow> 'e option"

definition set_sqh_first :: "('h, 'e) simpleq_store \<Rightarrow> 'h \<Rightarrow> 'e option \<Rightarrow> ('h, 'e) simpleq_store" where
  "set_sqh_first s h v = s\<lparr>sqh_first := (sqh_first s)(h := v)\<rparr>"

definition set_sqh_last :: "('h, 'e) simpleq_store \<Rightarrow> 'h \<Rightarrow> ('h, 'e) loc \<Rightarrow> ('h, 'e) simpleq_store" where
  "set_sqh_last s h l = s\<lparr>sqh_last := (sqh_last s)(h := l)\<rparr>"

definition set_sqe_next :: "('h, 'e) simpleq_store \<Rightarrow> 'e \<Rightarrow> 'e option \<Rightarrow> ('h, 'e) simpleq_store" where
  "set_sqe_next s e v = s\<lparr>sqe_next := (sqe_next s)(e := v)\<rparr>"

fun store_sqe_ptr :: "('h, 'e) simpleq_store \<Rightarrow> ('h, 'e) loc \<Rightarrow> 'e option \<Rightarrow> ('h, 'e) simpleq_store" where
  "store_sqe_ptr s (HeadFirst h) v = set_sqh_first s h v"
| "store_sqe_ptr s (NextOf e) v = set_sqe_next s e v"

definition SIMPLEQ_FIRST :: "('h, 'e) simpleq_store \<Rightarrow> 'h \<Rightarrow> 'e option" where
  "SIMPLEQ_FIRST s h = sqh_first s h"

definition SIMPLEQ_EMPTY :: "('h, 'e) simpleq_store \<Rightarrow> 'h \<Rightarrow> bool" where
  "SIMPLEQ_EMPTY s h \<longleftrightarrow> sqh_first s h = None"

definition SIMPLEQ_NEXT :: "('h, 'e) simpleq_store \<Rightarrow> 'e \<Rightarrow> 'e option" where
  "SIMPLEQ_NEXT s e = sqe_next s e"

definition SIMPLEQ_FOREACH :: "('h, 'e) simpleq_store \<Rightarrow> 'h \<Rightarrow> 'e list option" where
  "SIMPLEQ_FOREACH s h = follow id (sqe_next s) None (sqh_first s h)"

definition SIMPLEQ_FOREACH_SAFE ::
  "(('h, 'e) simpleq_store \<Rightarrow> 'e \<Rightarrow> ('h, 'e) simpleq_store) \<Rightarrow> ('h, 'e) simpleq_store \<Rightarrow> 'h \<Rightarrow>
   ('h, 'e) simpleq_store option" where
  "SIMPLEQ_FOREACH_SAFE body s h = safe_loop SIMPLEQ_NEXT body s (sqh_first s h)"

definition SIMPLEQ_INIT :: "('h, 'e) simpleq_store \<Rightarrow> 'h \<Rightarrow> ('h, 'e) simpleq_store" where
  "SIMPLEQ_INIT s h = set_sqh_last (set_sqh_first s h None) h (HeadFirst h)"

text \<open>The store once the static initialiser of a head has been laid out: what \<^verbatim>\<open>SIMPLEQ_INIT\<close> does at run time.\<close>

definition SIMPLEQ_HEAD_INITIALIZER :: "('h, 'e) simpleq_store \<Rightarrow> 'h \<Rightarrow> ('h, 'e) simpleq_store" where
  "SIMPLEQ_HEAD_INITIALIZER s h = set_sqh_last (set_sqh_first s h None) h (HeadFirst h)"

definition SIMPLEQ_INSERT_HEAD :: "('h, 'e) simpleq_store \<Rightarrow> 'h \<Rightarrow> 'e \<Rightarrow> ('h, 'e) simpleq_store" where
  "SIMPLEQ_INSERT_HEAD s h elm =
     (let s = set_sqe_next s elm (sqh_first s h);
          s = (if sqe_next s elm = None then set_sqh_last s h (NextOf elm) else s)
      in set_sqh_first s h (Some elm))"

definition SIMPLEQ_INSERT_TAIL :: "('h, 'e) simpleq_store \<Rightarrow> 'h \<Rightarrow> 'e \<Rightarrow> ('h, 'e) simpleq_store" where
  "SIMPLEQ_INSERT_TAIL s h elm =
     (let s = set_sqe_next s elm None;
          s = store_sqe_ptr s (sqh_last s h) (Some elm)
      in set_sqh_last s h (NextOf elm))"

definition SIMPLEQ_INSERT_AFTER :: "('h, 'e) simpleq_store \<Rightarrow> 'h \<Rightarrow> 'e \<Rightarrow> 'e \<Rightarrow> ('h, 'e) simpleq_store" where
  "SIMPLEQ_INSERT_AFTER s h listelm elm =
     (let s = set_sqe_next s elm (sqe_next s listelm);
          s = (if sqe_next s elm = None then set_sqh_last s h (NextOf elm) else s)
      in set_sqe_next s listelm (Some elm))"

definition SIMPLEQ_REMOVE_HEAD :: "('h, 'e) simpleq_store \<Rightarrow> 'h \<Rightarrow> ('h, 'e) simpleq_store option" where
  "SIMPLEQ_REMOVE_HEAD s h =
     map_option (\<lambda>f.
       let s = set_sqh_first s h (sqe_next s f)
       in if sqh_first s h = None then set_sqh_last s h (HeadFirst h) else s) (sqh_first s h)"

definition SIMPLEQ_REMOVE_AFTER :: "('h, 'e) simpleq_store \<Rightarrow> 'h \<Rightarrow> 'e \<Rightarrow> ('h, 'e) simpleq_store option" where
  "SIMPLEQ_REMOVE_AFTER s h elm =
     map_option (\<lambda>n.
       let s = set_sqe_next s elm (sqe_next s n)
       in if sqe_next s elm = None then set_sqh_last s h (NextOf elm) else s) (sqe_next s elm)"

definition SIMPLEQ_REMOVE :: "('h, 'e) simpleq_store \<Rightarrow> 'h \<Rightarrow> 'e \<Rightarrow> ('h, 'e) simpleq_store option" where
  "SIMPLEQ_REMOVE s h elm =
     (if sqh_first s h = Some elm then SIMPLEQ_REMOVE_HEAD s h
      else Option.bind (find_before (sqe_next s) elm (sqh_first s h)) (\<lambda>curelm.
        map_option (\<lambda>n.
          let s = set_sqe_next s curelm (sqe_next s n)
          in if sqe_next s curelm = None then set_sqh_last s h (NextOf curelm) else s) (sqe_next s curelm)))"

definition SIMPLEQ_CONCAT :: "('h, 'e) simpleq_store \<Rightarrow> 'h \<Rightarrow> 'h \<Rightarrow> ('h, 'e) simpleq_store" where
  "SIMPLEQ_CONCAT s head1 head2 =
     (if \<not> SIMPLEQ_EMPTY s head2 then
        (let s = store_sqe_ptr s (sqh_last s head1) (sqh_first s head2);
             s = set_sqh_last s head1 (sqh_last s head2)
         in SIMPLEQ_INIT s head2)
      else s)"

text \<open>The element around an address: there is none around the pointer of a head.\<close>

fun elm_at :: "('h, 'e) loc \<Rightarrow> 'e option" where
  "elm_at (NextOf e) = Some e"
| "elm_at (HeadFirst h) = None"

definition SIMPLEQ_LAST :: "('h, 'e) simpleq_store \<Rightarrow> 'h \<Rightarrow> 'e option" where
  "SIMPLEQ_LAST s h = (if SIMPLEQ_EMPTY s h then None else elm_at (sqh_last s h))"

section \<open>The list a simple queue stands for\<close>

definition simpleq :: "('h, 'e) simpleq_store \<Rightarrow> 'h \<Rightarrow> 'e list \<Rightarrow> bool" where
  "simpleq s h xs \<longleftrightarrow> distinct xs \<and> seg Some (sqe_next s) (sqh_first s h) xs None \<and>
     sqh_last s h = end_loc (HeadFirst h) xs"

lemmas simpleq_setters = set_sqh_first_def set_sqh_last_def set_sqe_next_def

definition simpleq_agree :: "('h, 'e) simpleq_store \<Rightarrow> ('h, 'e) simpleq_store \<Rightarrow> 'h set \<Rightarrow> 'e set \<Rightarrow> bool" where
  "simpleq_agree s s' H A \<longleftrightarrow> (\<forall>k. k \<notin> H \<longrightarrow> sqh_first s' k = sqh_first s k \<and> sqh_last s' k = sqh_last s k) \<and>
     (\<forall>x. x \<notin> A \<longrightarrow> sqe_next s' x = sqe_next s x)"

lemma simpleq_frame:
  assumes "simpleq_agree s s' H A" "k \<notin> H" "set ys \<inter> A = {}" "simpleq s k ys"
  shows "simpleq s' k ys"
proof -
  have "sqe_next s' y = sqe_next s y" if "y \<in> set ys" for y
    using that assms(1,3) by (auto simp: simpleq_agree_def)
  then show ?thesis
    using assms(1,2,4) seg_cong [of ys "sqe_next s'" "sqe_next s"] by (auto simp: simpleq_def simpleq_agree_def)
qed

lemma simpleq_FIRST: "simpleq s h xs \<Longrightarrow> SIMPLEQ_FIRST s h = (case xs of [] \<Rightarrow> None | x # _ \<Rightarrow> Some x)"
  by (auto simp: simpleq_def SIMPLEQ_FIRST_def split: list.splits)

lemma simpleq_EMPTY: "simpleq s h xs \<Longrightarrow> SIMPLEQ_EMPTY s h \<longleftrightarrow> xs = []"
  by (cases xs) (auto simp: simpleq_def SIMPLEQ_EMPTY_def)

lemma simpleq_LAST: "simpleq s h xs \<Longrightarrow> SIMPLEQ_LAST s h = (if xs = [] then None else Some (last xs))"
  using simpleq_EMPTY [of s h xs] by (simp add: SIMPLEQ_LAST_def) (simp add: simpleq_def end_loc_def)

lemma simpleq_FOREACH: "simpleq s h xs \<Longrightarrow> SIMPLEQ_FOREACH s h = Some xs"
  unfolding SIMPLEQ_FOREACH_def by (rule follow_seg [where ptr = Some]) (auto simp: simpleq_def)

lemma simpleq_INIT: "simpleq (SIMPLEQ_INIT s h) h []"
  by (simp add: simpleq_def SIMPLEQ_INIT_def simpleq_setters)

lemma simpleq_INSERT_HEAD:
  assumes "simpleq s h xs" "e \<notin> set xs"
  shows "simpleq (SIMPLEQ_INSERT_HEAD s h e) h (e # xs)"
    "simpleq_agree s (SIMPLEQ_INSERT_HEAD s h e) {h} (insert e (set xs))"
  using assms
  by (cases xs; auto simp: simpleq_def SIMPLEQ_INSERT_HEAD_def simpleq_setters simpleq_agree_def Let_def)+

lemma simpleq_INSERT_TAIL:
  assumes "simpleq s h xs" "e \<notin> set xs"
  shows "simpleq (SIMPLEQ_INSERT_TAIL s h e) h (xs @ [e])"
    "simpleq_agree s (SIMPLEQ_INSERT_TAIL s h e) {h} (insert e (set xs))"
  using assms
  by (cases xs rule: rev_cases; auto simp: simpleq_def SIMPLEQ_INSERT_TAIL_def simpleq_setters simpleq_agree_def Let_def)+

lemma simpleq_INSERT_AFTER:
  assumes "simpleq s h (as @ a # bs)" "e \<notin> set (as @ a # bs)"
  shows "simpleq (SIMPLEQ_INSERT_AFTER s h a e) h (as @ a # e # bs)"
    "simpleq_agree s (SIMPLEQ_INSERT_AFTER s h a e) {h} (insert e (set (as @ a # bs)))"
  using assms
  by (cases bs; auto simp: simpleq_def SIMPLEQ_INSERT_AFTER_def simpleq_setters simpleq_agree_def Let_def)+

lemma simpleq_REMOVE_HEAD:
  assumes "simpleq s h (x # xs)"
  shows "\<exists>s'. SIMPLEQ_REMOVE_HEAD s h = Some s' \<and> simpleq s' h xs \<and> simpleq_agree s s' {h} {}"
  using assms by (cases xs; auto simp: simpleq_def SIMPLEQ_REMOVE_HEAD_def simpleq_setters simpleq_agree_def Let_def)

lemma simpleq_REMOVE_AFTER:
  assumes "simpleq s h (as @ a # e # bs)"
  shows "\<exists>s'. SIMPLEQ_REMOVE_AFTER s h a = Some s' \<and> simpleq s' h (as @ a # bs) \<and> simpleq_agree s s' {h} {a}"
  using assms
  by (cases bs; auto simp: simpleq_def SIMPLEQ_REMOVE_AFTER_def simpleq_setters simpleq_agree_def Let_def)

text \<open>Removing an element that is not the first is removing the one after its predecessor.\<close>

lemma simpleq_REMOVE:
  assumes "simpleq s h (as @ e # bs)"
  shows "\<exists>s'. SIMPLEQ_REMOVE s h e = Some s' \<and> simpleq s' h (as @ bs) \<and> simpleq_agree s s' {h} (set as)"
proof (cases as rule: rev_cases)
  case Nil
  then show ?thesis
    using assms simpleq_REMOVE_HEAD [of s h e bs] by (auto simp: SIMPLEQ_REMOVE_def simpleq_def)
next
  case (snoc cs c)
  have ne: "sqh_first s h \<noteq> Some e" using assms snoc by (cases cs) (auto simp: simpleq_def)
  have "find_before (sqe_next s) e (sqh_first s h) = Some c"
    using assms snoc by (intro find_before_seg [of _ _ cs]) (auto simp: simpleq_def)
  then have "SIMPLEQ_REMOVE s h e = SIMPLEQ_REMOVE_AFTER s h c"
    using ne by (simp add: SIMPLEQ_REMOVE_def SIMPLEQ_REMOVE_AFTER_def)
  then show ?thesis
    using simpleq_REMOVE_AFTER [of s h cs c e bs] assms snoc by (auto simp: simpleq_agree_def)
qed

lemma simpleq_CONCAT:
  assumes "simpleq s h xs" "simpleq s k ys" "h \<noteq> k" "set xs \<inter> set ys = {}"
  shows "simpleq (SIMPLEQ_CONCAT s h k) h (xs @ ys)" "simpleq (SIMPLEQ_CONCAT s h k) k []"
    "simpleq_agree s (SIMPLEQ_CONCAT s h k) {h, k} (set xs)"
  using assms
  by (cases ys; cases xs rule: rev_cases;
      auto simp: simpleq_def SIMPLEQ_CONCAT_def SIMPLEQ_EMPTY_def SIMPLEQ_INIT_def simpleq_setters simpleq_agree_def Let_def)+

interpretation sq: tail_queue simpleq SIMPLEQ_FIRST SIMPLEQ_FOREACH SIMPLEQ_INSERT_HEAD SIMPLEQ_REMOVE SIMPLEQ_INSERT_TAIL
proof (unfold_locales, goal_cases)
  case 1
  then show ?case by (simp add: simpleq_def)
next
  case (5 s h xs e k ys)
  then show ?case using simpleq_frame [OF simpleq_INSERT_HEAD(2)] by (metis singletonD)
next
  case (6 s h xs e)
  then obtain as bs where xs: "xs = as @ e # bs" by (meson split_list)
  with 6 have "e \<notin> set as" by (auto simp: simpleq_def)
  with 6(1) xs simpleq_REMOVE [of s h as e bs] show ?case by (auto simp: remove1_append)
next
  case (7 s h xs e s' k ys)
  then obtain as bs where xs: "xs = as @ e # bs" by (meson split_list)
  then have "simpleq_agree s s' {h} (set as)" using 7(1,3) simpleq_REMOVE [of s h as e bs] by auto
  then show ?case by (rule simpleq_frame) (use 7 xs in auto)
next
  case (9 s h xs e k ys)
  then show ?case using simpleq_frame [OF simpleq_INSERT_TAIL(2)] by (metis singletonD)
qed (simp_all add: simpleq_FIRST simpleq_FOREACH simpleq_INSERT_HEAD(1) simpleq_INSERT_TAIL(1))

end
