(* ===== verification/Stailq.thy ===== *)
theory Stailq
  imports Simpleq
begin

text \<open>
  The singly-linked tail queue macros \<^verbatim>\<open>STAILQ_*\<close> of \<^verbatim>\<open>include/bmk/queue.h\<close>. Each does on its own
  fields what the simple queue macro of the same name does; the contract is inherited along this
  correspondence.
\<close>

section \<open>The store and the macros\<close>

record ('h, 'e) stailq_store =
  stqh_first :: "'h \<Rightarrow> 'e option"
  stqh_last :: "'h \<Rightarrow> ('h, 'e) loc"
  stqe_next :: "'e \<Rightarrow> 'e option"

definition set_stqh_first :: "('h, 'e) stailq_store \<Rightarrow> 'h \<Rightarrow> 'e option \<Rightarrow> ('h, 'e) stailq_store" where
  "set_stqh_first s h v = s\<lparr>stqh_first := (stqh_first s)(h := v)\<rparr>"

definition set_stqh_last :: "('h, 'e) stailq_store \<Rightarrow> 'h \<Rightarrow> ('h, 'e) loc \<Rightarrow> ('h, 'e) stailq_store" where
  "set_stqh_last s h l = s\<lparr>stqh_last := (stqh_last s)(h := l)\<rparr>"

definition set_stqe_next :: "('h, 'e) stailq_store \<Rightarrow> 'e \<Rightarrow> 'e option \<Rightarrow> ('h, 'e) stailq_store" where
  "set_stqe_next s e v = s\<lparr>stqe_next := (stqe_next s)(e := v)\<rparr>"

fun store_stqe_ptr :: "('h, 'e) stailq_store \<Rightarrow> ('h, 'e) loc \<Rightarrow> 'e option \<Rightarrow> ('h, 'e) stailq_store" where
  "store_stqe_ptr s (HeadFirst h) v = set_stqh_first s h v"
| "store_stqe_ptr s (NextOf e) v = set_stqe_next s e v"

definition STAILQ_FIRST :: "('h, 'e) stailq_store \<Rightarrow> 'h \<Rightarrow> 'e option" where
  "STAILQ_FIRST s h = stqh_first s h"

definition STAILQ_NEXT :: "('h, 'e) stailq_store \<Rightarrow> 'e \<Rightarrow> 'e option" where
  "STAILQ_NEXT s e = stqe_next s e"

definition STAILQ_EMPTY :: "('h, 'e) stailq_store \<Rightarrow> 'h \<Rightarrow> bool" where
  "STAILQ_EMPTY s h \<longleftrightarrow> STAILQ_FIRST s h = None"

definition STAILQ_INIT :: "('h, 'e) stailq_store \<Rightarrow> 'h \<Rightarrow> ('h, 'e) stailq_store" where
  "STAILQ_INIT s h = set_stqh_last (set_stqh_first s h None) h (HeadFirst h)"

text \<open>The store once the static initialiser of a head has been laid out: what \<^verbatim>\<open>STAILQ_INIT\<close> does at run time.\<close>

definition STAILQ_HEAD_INITIALIZER :: "('h, 'e) stailq_store \<Rightarrow> 'h \<Rightarrow> ('h, 'e) stailq_store" where
  "STAILQ_HEAD_INITIALIZER s h = set_stqh_last (set_stqh_first s h None) h (HeadFirst h)"

definition STAILQ_INSERT_HEAD :: "('h, 'e) stailq_store \<Rightarrow> 'h \<Rightarrow> 'e \<Rightarrow> ('h, 'e) stailq_store" where
  "STAILQ_INSERT_HEAD s h elm =
     (let s = set_stqe_next s elm (stqh_first s h);
          s = (if stqe_next s elm = None then set_stqh_last s h (NextOf elm) else s)
      in set_stqh_first s h (Some elm))"

definition STAILQ_INSERT_TAIL :: "('h, 'e) stailq_store \<Rightarrow> 'h \<Rightarrow> 'e \<Rightarrow> ('h, 'e) stailq_store" where
  "STAILQ_INSERT_TAIL s h elm =
     (let s = set_stqe_next s elm None;
          s = store_stqe_ptr s (stqh_last s h) (Some elm)
      in set_stqh_last s h (NextOf elm))"

definition STAILQ_INSERT_AFTER :: "('h, 'e) stailq_store \<Rightarrow> 'h \<Rightarrow> 'e \<Rightarrow> 'e \<Rightarrow> ('h, 'e) stailq_store" where
  "STAILQ_INSERT_AFTER s h listelm elm =
     (let s = set_stqe_next s elm (stqe_next s listelm);
          s = (if stqe_next s elm = None then set_stqh_last s h (NextOf elm) else s)
      in set_stqe_next s listelm (Some elm))"

definition STAILQ_REMOVE_HEAD :: "('h, 'e) stailq_store \<Rightarrow> 'h \<Rightarrow> ('h, 'e) stailq_store option" where
  "STAILQ_REMOVE_HEAD s h =
     map_option (\<lambda>f.
       let s = set_stqh_first s h (stqe_next s f)
       in if stqh_first s h = None then set_stqh_last s h (HeadFirst h) else s) (stqh_first s h)"

definition STAILQ_REMOVE :: "('h, 'e) stailq_store \<Rightarrow> 'h \<Rightarrow> 'e \<Rightarrow> ('h, 'e) stailq_store option" where
  "STAILQ_REMOVE s h elm =
     (if stqh_first s h = Some elm then STAILQ_REMOVE_HEAD s h
      else Option.bind (find_before (stqe_next s) elm (stqh_first s h)) (\<lambda>curelm.
        map_option (\<lambda>n.
          let s = set_stqe_next s curelm (stqe_next s n)
          in if stqe_next s curelm = None then set_stqh_last s h (NextOf curelm) else s) (stqe_next s curelm)))"

definition STAILQ_FOREACH :: "('h, 'e) stailq_store \<Rightarrow> 'h \<Rightarrow> 'e list option" where
  "STAILQ_FOREACH s h = follow id (stqe_next s) None (stqh_first s h)"

definition STAILQ_FOREACH_SAFE ::
  "(('h, 'e) stailq_store \<Rightarrow> 'e \<Rightarrow> ('h, 'e) stailq_store) \<Rightarrow> ('h, 'e) stailq_store \<Rightarrow> 'h \<Rightarrow>
   ('h, 'e) stailq_store option" where
  "STAILQ_FOREACH_SAFE body s h = safe_loop STAILQ_NEXT body s (STAILQ_FIRST s h)"

definition STAILQ_CONCAT :: "('h, 'e) stailq_store \<Rightarrow> 'h \<Rightarrow> 'h \<Rightarrow> ('h, 'e) stailq_store" where
  "STAILQ_CONCAT s head1 head2 =
     (if \<not> STAILQ_EMPTY s head2 then
        (let s = store_stqe_ptr s (stqh_last s head1) (stqh_first s head2);
             s = set_stqh_last s head1 (stqh_last s head2)
         in STAILQ_INIT s head2)
      else s)"

definition STAILQ_LAST :: "('h, 'e) stailq_store \<Rightarrow> 'h \<Rightarrow> 'e option" where
  "STAILQ_LAST s h = (if STAILQ_EMPTY s h then None else elm_at (stqh_last s h))"

section \<open>The correspondence with simple queues\<close>

definition as_simpleq :: "('h, 'e) stailq_store \<Rightarrow> ('h, 'e) simpleq_store" where
  "as_simpleq s = \<lparr>sqh_first = stqh_first s, sqh_last = stqh_last s, sqe_next = stqe_next s\<rparr>"

lemma as_simpleq_fields [simp]:
  "sqh_first (as_simpleq s) = stqh_first s" "sqh_last (as_simpleq s) = stqh_last s" "sqe_next (as_simpleq s) = stqe_next s"
  by (simp_all add: as_simpleq_def)

lemma as_simpleq_setters [simp]:
  "as_simpleq (set_stqh_first s h v) = set_sqh_first (as_simpleq s) h v"
  "as_simpleq (set_stqh_last s h l) = set_sqh_last (as_simpleq s) h l"
  "as_simpleq (set_stqe_next s e v) = set_sqe_next (as_simpleq s) e v"
  by (simp_all add: as_simpleq_def set_stqh_first_def set_stqh_last_def set_stqe_next_def simpleq_setters)

lemma as_simpleq_store [simp]: "as_simpleq (store_stqe_ptr s l v) = store_sqe_ptr (as_simpleq s) l v"
  by (cases l) simp_all

text \<open>The other way round, so that both sides read the fields of the same store.\<close>

lemma stailq_fields:
  "stqh_first s = sqh_first (as_simpleq s)" "stqh_last s = sqh_last (as_simpleq s)" "stqe_next s = sqe_next (as_simpleq s)"
  by simp_all

lemma as_simpleq_ops:
  "as_simpleq (STAILQ_INIT s h) = SIMPLEQ_INIT (as_simpleq s) h"
  "as_simpleq (STAILQ_INSERT_HEAD s h e) = SIMPLEQ_INSERT_HEAD (as_simpleq s) h e"
  "as_simpleq (STAILQ_INSERT_TAIL s h e) = SIMPLEQ_INSERT_TAIL (as_simpleq s) h e"
  "as_simpleq (STAILQ_INSERT_AFTER s h a e) = SIMPLEQ_INSERT_AFTER (as_simpleq s) h a e"
  "map_option as_simpleq (STAILQ_REMOVE_HEAD s h) = SIMPLEQ_REMOVE_HEAD (as_simpleq s) h"
  "map_option as_simpleq (STAILQ_REMOVE s h e) = SIMPLEQ_REMOVE (as_simpleq s) h e"
  "as_simpleq (STAILQ_CONCAT s h k) = SIMPLEQ_CONCAT (as_simpleq s) h k"
proof -
  note defs = STAILQ_EMPTY_def STAILQ_FIRST_def SIMPLEQ_EMPTY_def Let_def
  have m: "map_option as_simpleq (map_option f x) = map_option g x" if "\<And>y. as_simpleq (f y) = g y" for f x and g :: "'e \<Rightarrow> _"
    using that by (cases x) simp_all
  show i: "as_simpleq (STAILQ_INIT s h) = SIMPLEQ_INIT (as_simpleq s) h" for s h
    by (simp add: STAILQ_INIT_def SIMPLEQ_INIT_def)
  show "as_simpleq (STAILQ_INSERT_HEAD s h e) = SIMPLEQ_INSERT_HEAD (as_simpleq s) h e"
    by (simp add: STAILQ_INSERT_HEAD_def SIMPLEQ_INSERT_HEAD_def defs stailq_fields del: as_simpleq_fields)
  show "as_simpleq (STAILQ_INSERT_TAIL s h e) = SIMPLEQ_INSERT_TAIL (as_simpleq s) h e"
    by (simp add: STAILQ_INSERT_TAIL_def SIMPLEQ_INSERT_TAIL_def defs stailq_fields del: as_simpleq_fields)
  show "as_simpleq (STAILQ_INSERT_AFTER s h a e) = SIMPLEQ_INSERT_AFTER (as_simpleq s) h a e"
    by (simp add: STAILQ_INSERT_AFTER_def SIMPLEQ_INSERT_AFTER_def defs stailq_fields del: as_simpleq_fields)
  show h: "map_option as_simpleq (STAILQ_REMOVE_HEAD s h) = SIMPLEQ_REMOVE_HEAD (as_simpleq s) h"
    unfolding STAILQ_REMOVE_HEAD_def SIMPLEQ_REMOVE_HEAD_def as_simpleq_fields
    by (rule m) (simp add: defs stailq_fields del: as_simpleq_fields)
  show "map_option as_simpleq (STAILQ_REMOVE s h e) = SIMPLEQ_REMOVE (as_simpleq s) h e"
  proof (cases "stqh_first s h = Some e")
    case True
    then show ?thesis using h by (simp add: STAILQ_REMOVE_def SIMPLEQ_REMOVE_def)
  next
    case False
    then show ?thesis
      by (cases "find_before (stqe_next s) e (stqh_first s h)")
        (auto simp: STAILQ_REMOVE_def SIMPLEQ_REMOVE_def Let_def set_stqe_next_def set_stqh_last_def as_simpleq_def simpleq_setters
          intro!: m)
  qed
  show "as_simpleq (STAILQ_CONCAT s h k) = SIMPLEQ_CONCAT (as_simpleq s) h k"
    by (simp add: STAILQ_CONCAT_def SIMPLEQ_CONCAT_def i defs stailq_fields del: as_simpleq_fields)
qed

definition stailq :: "('h, 'e) stailq_store \<Rightarrow> 'h \<Rightarrow> 'e list \<Rightarrow> bool" where
  "stailq s h xs \<longleftrightarrow> simpleq (as_simpleq s) h xs"

lemma stailq_reads:
  "STAILQ_FIRST s h = SIMPLEQ_FIRST (as_simpleq s) h" "STAILQ_FOREACH s h = SIMPLEQ_FOREACH (as_simpleq s) h"
  "STAILQ_EMPTY s h \<longleftrightarrow> SIMPLEQ_EMPTY (as_simpleq s) h" "STAILQ_LAST s h = SIMPLEQ_LAST (as_simpleq s) h"
  by (simp_all add: STAILQ_FIRST_def SIMPLEQ_FIRST_def STAILQ_FOREACH_def SIMPLEQ_FOREACH_def STAILQ_EMPTY_def
      SIMPLEQ_EMPTY_def STAILQ_LAST_def SIMPLEQ_LAST_def)

lemma stailq_REMOVE: "STAILQ_REMOVE s h e = Some s' \<Longrightarrow> SIMPLEQ_REMOVE (as_simpleq s) h e = Some (as_simpleq s')"
  using as_simpleq_ops(6) [of s h e] by simp

interpretation stq: tail_queue stailq STAILQ_FIRST STAILQ_FOREACH STAILQ_INSERT_HEAD STAILQ_REMOVE STAILQ_INSERT_TAIL
proof (unfold_locales, goal_cases)
  case (6 s h xs e)
  obtain t where "SIMPLEQ_REMOVE (as_simpleq s) h e = Some t" "simpleq t h (remove1 e xs)"
    using sq.remove_rep [of "as_simpleq s" h xs e] 6 by (auto simp: stailq_def)
  then show ?case using as_simpleq_ops(6) [of s h e] by (auto simp: stailq_def)
next
  case (7 s h xs e s' k ys)
  then show ?case using sq.remove_frame [OF _ _ stailq_REMOVE] by (simp add: stailq_def)
qed (simp_all add: stailq_def stailq_reads as_simpleq_ops sq.rep_distinct sq.first_rep sq.foreach_rep sq.insert_head_rep
    sq.insert_head_frame sq.insert_tail_rep sq.insert_tail_frame)

lemma stailq_LAST: "stailq s h xs \<Longrightarrow> STAILQ_LAST s h = (if xs = [] then None else Some (last xs))"
  by (simp add: stailq_def stailq_reads simpleq_LAST)

lemma stailq_CONCAT:
  assumes "stailq s h xs" "stailq s k ys" "h \<noteq> k" "set xs \<inter> set ys = {}"
  shows "stailq (STAILQ_CONCAT s h k) h (xs @ ys)" "stailq (STAILQ_CONCAT s h k) k []"
  using assms simpleq_CONCAT [of "as_simpleq s" h xs k ys] by (simp_all add: stailq_def as_simpleq_ops)

end
