(* ===== verification/Circleq.thy ===== *)
theory Circleq
  imports Queue
begin

text \<open>
  The circular queue macros \<^verbatim>\<open>CIRCLEQ_*\<close> of \<^verbatim>\<open>include/bmk/queue.h\<close>. The end of a queue is a pointer
  to its head, cast to a pointer to an element. The checks of \<^verbatim>\<open>QUEUEDEBUG\<close> are not compiled in.
\<close>

section \<open>The store and the macros\<close>

datatype ('h, 'e) cptr = CHead 'h | CElm 'e

text \<open>
  An entry is read through a pointer. What a pointer to a head has in the place of an entry are
  bytes of their own, which no queue uses.
\<close>

record ('h, 'e) circleq_store =
  cqh_first :: "'h \<Rightarrow> ('h, 'e) cptr"
  cqh_last :: "'h \<Rightarrow> ('h, 'e) cptr"
  cqe_next :: "('h, 'e) cptr \<Rightarrow> ('h, 'e) cptr"
  cqe_prev :: "('h, 'e) cptr \<Rightarrow> ('h, 'e) cptr"

definition set_cqh_first :: "('h, 'e) circleq_store \<Rightarrow> 'h \<Rightarrow> ('h, 'e) cptr \<Rightarrow> ('h, 'e) circleq_store" where
  "set_cqh_first s h v = s\<lparr>cqh_first := (cqh_first s)(h := v)\<rparr>"

definition set_cqh_last :: "('h, 'e) circleq_store \<Rightarrow> 'h \<Rightarrow> ('h, 'e) cptr \<Rightarrow> ('h, 'e) circleq_store" where
  "set_cqh_last s h v = s\<lparr>cqh_last := (cqh_last s)(h := v)\<rparr>"

definition set_cqe_next :: "('h, 'e) circleq_store \<Rightarrow> ('h, 'e) cptr \<Rightarrow> ('h, 'e) cptr \<Rightarrow> ('h, 'e) circleq_store" where
  "set_cqe_next s p v = s\<lparr>cqe_next := (cqe_next s)(p := v)\<rparr>"

definition set_cqe_prev :: "('h, 'e) circleq_store \<Rightarrow> ('h, 'e) cptr \<Rightarrow> ('h, 'e) cptr \<Rightarrow> ('h, 'e) circleq_store" where
  "set_cqe_prev s p v = s\<lparr>cqe_prev := (cqe_prev s)(p := v)\<rparr>"

text \<open>\<^verbatim>\<open>CIRCLEQ_ENDC\<close>, for comparisons, is the same pointer, kept from the compiler by \<^verbatim>\<open>__launder_type\<close>.\<close>

definition CIRCLEQ_END :: "'h \<Rightarrow> ('h, 'e) cptr" where
  "CIRCLEQ_END h = CHead h"

definition launder_type :: "('h, 'e) cptr \<Rightarrow> ('h, 'e) cptr" where
  "launder_type x = x"

definition CIRCLEQ_ENDC :: "'h \<Rightarrow> ('h, 'e) cptr" where
  "CIRCLEQ_ENDC h = launder_type (CHead h)"

definition CIRCLEQ_INIT :: "('h, 'e) circleq_store \<Rightarrow> 'h \<Rightarrow> ('h, 'e) circleq_store" where
  "CIRCLEQ_INIT s h = set_cqh_last (set_cqh_first s h (CIRCLEQ_END h)) h (CIRCLEQ_END h)"

text \<open>The store once the static initialiser of a head has been laid out: what \<^verbatim>\<open>CIRCLEQ_INIT\<close> does at run time.\<close>

definition CIRCLEQ_HEAD_INITIALIZER :: "('h, 'e) circleq_store \<Rightarrow> 'h \<Rightarrow> ('h, 'e) circleq_store" where
  "CIRCLEQ_HEAD_INITIALIZER s h = set_cqh_last (set_cqh_first s h (CIRCLEQ_END h)) h (CIRCLEQ_END h)"

definition CIRCLEQ_INSERT_AFTER :: "('h, 'e) circleq_store \<Rightarrow> 'h \<Rightarrow> 'e \<Rightarrow> 'e \<Rightarrow> ('h, 'e) circleq_store" where
  "CIRCLEQ_INSERT_AFTER s h listelm elm =
     (let s = set_cqe_next s (CElm elm) (cqe_next s (CElm listelm));
          s = set_cqe_prev s (CElm elm) (CElm listelm);
          s = (if cqe_next s (CElm listelm) = CIRCLEQ_ENDC h then set_cqh_last s h (CElm elm)
               else set_cqe_prev s (cqe_next s (CElm listelm)) (CElm elm))
      in set_cqe_next s (CElm listelm) (CElm elm))"

definition CIRCLEQ_INSERT_BEFORE :: "('h, 'e) circleq_store \<Rightarrow> 'h \<Rightarrow> 'e \<Rightarrow> 'e \<Rightarrow> ('h, 'e) circleq_store" where
  "CIRCLEQ_INSERT_BEFORE s h listelm elm =
     (let s = set_cqe_next s (CElm elm) (CElm listelm);
          s = set_cqe_prev s (CElm elm) (cqe_prev s (CElm listelm));
          s = (if cqe_prev s (CElm listelm) = CIRCLEQ_ENDC h then set_cqh_first s h (CElm elm)
               else set_cqe_next s (cqe_prev s (CElm listelm)) (CElm elm))
      in set_cqe_prev s (CElm listelm) (CElm elm))"

definition CIRCLEQ_INSERT_HEAD :: "('h, 'e) circleq_store \<Rightarrow> 'h \<Rightarrow> 'e \<Rightarrow> ('h, 'e) circleq_store" where
  "CIRCLEQ_INSERT_HEAD s h elm =
     (let s = set_cqe_next s (CElm elm) (cqh_first s h);
          s = set_cqe_prev s (CElm elm) (CIRCLEQ_END h);
          s = (if cqh_last s h = CIRCLEQ_ENDC h then set_cqh_last s h (CElm elm)
               else set_cqe_prev s (cqh_first s h) (CElm elm))
      in set_cqh_first s h (CElm elm))"

definition CIRCLEQ_INSERT_TAIL :: "('h, 'e) circleq_store \<Rightarrow> 'h \<Rightarrow> 'e \<Rightarrow> ('h, 'e) circleq_store" where
  "CIRCLEQ_INSERT_TAIL s h elm =
     (let s = set_cqe_next s (CElm elm) (CIRCLEQ_END h);
          s = set_cqe_prev s (CElm elm) (cqh_last s h);
          s = (if cqh_first s h = CIRCLEQ_ENDC h then set_cqh_first s h (CElm elm)
               else set_cqe_next s (cqh_last s h) (CElm elm))
      in set_cqh_last s h (CElm elm))"

definition CIRCLEQ_REMOVE :: "('h, 'e) circleq_store \<Rightarrow> 'h \<Rightarrow> 'e \<Rightarrow> ('h, 'e) circleq_store" where
  "CIRCLEQ_REMOVE s h elm =
     (let s = (if cqe_next s (CElm elm) = CIRCLEQ_ENDC h then set_cqh_last s h (cqe_prev s (CElm elm))
               else set_cqe_prev s (cqe_next s (CElm elm)) (cqe_prev s (CElm elm)))
      in if cqe_prev s (CElm elm) = CIRCLEQ_ENDC h then set_cqh_first s h (cqe_next s (CElm elm))
         else set_cqe_next s (cqe_prev s (CElm elm)) (cqe_next s (CElm elm)))"

text \<open>A traversal that comes to the head of another queue returns nothing.\<close>

fun elm_of :: "('h, 'e) cptr \<Rightarrow> 'e option" where
  "elm_of (CElm e) = Some e"
| "elm_of (CHead h) = None"

definition CIRCLEQ_FOREACH :: "('h, 'e) circleq_store \<Rightarrow> 'h \<Rightarrow> 'e list option" where
  "CIRCLEQ_FOREACH s h = follow elm_of (\<lambda>e. cqe_next s (CElm e)) (CIRCLEQ_ENDC h) (cqh_first s h)"

definition CIRCLEQ_FOREACH_REVERSE :: "('h, 'e) circleq_store \<Rightarrow> 'h \<Rightarrow> 'e list option" where
  "CIRCLEQ_FOREACH_REVERSE s h = follow elm_of (\<lambda>e. cqe_prev s (CElm e)) (CIRCLEQ_ENDC h) (cqh_last s h)"

definition CIRCLEQ_FIRST :: "('h, 'e) circleq_store \<Rightarrow> 'h \<Rightarrow> ('h, 'e) cptr" where
  "CIRCLEQ_FIRST s h = cqh_first s h"

definition CIRCLEQ_LAST :: "('h, 'e) circleq_store \<Rightarrow> 'h \<Rightarrow> ('h, 'e) cptr" where
  "CIRCLEQ_LAST s h = cqh_last s h"

definition CIRCLEQ_NEXT :: "('h, 'e) circleq_store \<Rightarrow> 'e \<Rightarrow> ('h, 'e) cptr" where
  "CIRCLEQ_NEXT s e = cqe_next s (CElm e)"

definition CIRCLEQ_PREV :: "('h, 'e) circleq_store \<Rightarrow> 'e \<Rightarrow> ('h, 'e) cptr" where
  "CIRCLEQ_PREV s e = cqe_prev s (CElm e)"

definition CIRCLEQ_EMPTY :: "('h, 'e) circleq_store \<Rightarrow> 'h \<Rightarrow> bool" where
  "CIRCLEQ_EMPTY s h \<longleftrightarrow> CIRCLEQ_FIRST s h = CIRCLEQ_ENDC h"

definition CIRCLEQ_LOOP_NEXT :: "('h, 'e) circleq_store \<Rightarrow> 'h \<Rightarrow> 'e \<Rightarrow> ('h, 'e) cptr" where
  "CIRCLEQ_LOOP_NEXT s h e = (if cqe_next s (CElm e) = CIRCLEQ_ENDC h then cqh_first s h else cqe_next s (CElm e))"

definition CIRCLEQ_LOOP_PREV :: "('h, 'e) circleq_store \<Rightarrow> 'h \<Rightarrow> 'e \<Rightarrow> ('h, 'e) cptr" where
  "CIRCLEQ_LOOP_PREV s h e = (if cqe_prev s (CElm e) = CIRCLEQ_ENDC h then cqh_last s h else cqe_prev s (CElm e))"

section \<open>The list a head stands for\<close>

text \<open>Forwards from the head the elements in order, backwards in the opposite order.\<close>

definition circleq :: "('h, 'e) circleq_store \<Rightarrow> 'h \<Rightarrow> 'e list \<Rightarrow> bool" where
  "circleq s h xs \<longleftrightarrow> distinct xs \<and> seg CElm (\<lambda>e. cqe_next s (CElm e)) (cqh_first s h) xs (CHead h) \<and>
     seg CElm (\<lambda>e. cqe_prev s (CElm e)) (cqh_last s h) (rev xs) (CHead h)"

lemmas circleq_setters = set_cqh_first_def set_cqh_last_def set_cqe_next_def set_cqe_prev_def
  CIRCLEQ_END_def CIRCLEQ_ENDC_def launder_type_def

definition circleq_agree :: "('h, 'e) circleq_store \<Rightarrow> ('h, 'e) circleq_store \<Rightarrow> 'h \<Rightarrow> 'e set \<Rightarrow> bool" where
  "circleq_agree s s' h A \<longleftrightarrow> (\<forall>k. k \<noteq> h \<longrightarrow> cqh_first s' k = cqh_first s k \<and> cqh_last s' k = cqh_last s k) \<and>
     (\<forall>x. x \<notin> A \<longrightarrow> cqe_next s' (CElm x) = cqe_next s (CElm x) \<and> cqe_prev s' (CElm x) = cqe_prev s (CElm x))"

lemma circleq_frame:
  assumes "circleq_agree s s' h A" "k \<noteq> h" "set ys \<inter> A = {}" "circleq s k ys"
  shows "circleq s' k ys"
proof -
  have "cqe_next s' (CElm y) = cqe_next s (CElm y) \<and> cqe_prev s' (CElm y) = cqe_prev s (CElm y)" if "y \<in> set ys" for y
    using that assms(1,3) by (auto simp: circleq_agree_def)
  then show ?thesis
    using assms(1,2,4) seg_cong [of ys "\<lambda>e. cqe_next s' (CElm e)" "\<lambda>e. cqe_next s (CElm e)"]
      seg_cong [of "rev ys" "\<lambda>e. cqe_prev s' (CElm e)" "\<lambda>e. cqe_prev s (CElm e)"]
    by (auto simp: circleq_def circleq_agree_def)
qed

lemma circleq_FIRST: "circleq s h xs \<Longrightarrow> elm_of (CIRCLEQ_FIRST s h) = (case xs of [] \<Rightarrow> None | x # _ \<Rightarrow> Some x)"
  by (auto simp: circleq_def CIRCLEQ_FIRST_def split: list.splits)

lemma circleq_LAST: "circleq s h xs \<Longrightarrow> elm_of (CIRCLEQ_LAST s h) = (if xs = [] then None else Some (last xs))"
  by (cases xs rule: rev_cases) (auto simp: circleq_def CIRCLEQ_LAST_def)

lemma circleq_FOREACH: "circleq s h xs \<Longrightarrow> CIRCLEQ_FOREACH s h = Some xs"
  unfolding CIRCLEQ_FOREACH_def by (rule follow_seg [where ptr = CElm]) (auto simp: circleq_def CIRCLEQ_ENDC_def launder_type_def)

lemma circleq_FOREACH_REVERSE: "circleq s h xs \<Longrightarrow> CIRCLEQ_FOREACH_REVERSE s h = Some (rev xs)"
  unfolding CIRCLEQ_FOREACH_REVERSE_def
  by (rule follow_seg [where ptr = CElm]) (auto simp: circleq_def CIRCLEQ_ENDC_def launder_type_def)

lemma circleq_INIT: "circleq (CIRCLEQ_INIT s h) h []"
  by (simp add: circleq_def CIRCLEQ_INIT_def circleq_setters)

lemma circleq_ends:
  assumes "circleq s h xs"
  shows "cqh_first s h = CHead h \<longleftrightarrow> xs = []" "cqh_last s h = CHead h \<longleftrightarrow> xs = []"
proof -
  show "cqh_first s h = CHead h \<longleftrightarrow> xs = []" using assms by (cases xs) (auto simp: circleq_def)
  show "cqh_last s h = CHead h \<longleftrightarrow> xs = []" using assms by (cases xs rule: rev_cases) (auto simp: circleq_def)
qed

lemma circleq_INSERT_HEAD:
  assumes "circleq s h xs" "e \<notin> set xs"
  shows "circleq (CIRCLEQ_INSERT_HEAD s h e) h (e # xs)" "circleq_agree s (CIRCLEQ_INSERT_HEAD s h e) h (insert e (set xs))"
  using assms circleq_ends [OF assms(1)]
  by (cases xs; auto simp: circleq_def CIRCLEQ_INSERT_HEAD_def circleq_setters circleq_agree_def Let_def)+

lemma circleq_INSERT_TAIL:
  assumes "circleq s h xs" "e \<notin> set xs"
  shows "circleq (CIRCLEQ_INSERT_TAIL s h e) h (xs @ [e])" "circleq_agree s (CIRCLEQ_INSERT_TAIL s h e) h (insert e (set xs))"
  using assms circleq_ends [OF assms(1)]
  by (cases xs rule: rev_cases; auto simp: circleq_def CIRCLEQ_INSERT_TAIL_def circleq_setters circleq_agree_def Let_def)+

lemma circleq_INSERT_AFTER:
  assumes "circleq s h (as @ a # bs)" "e \<notin> set (as @ a # bs)"
  shows "circleq (CIRCLEQ_INSERT_AFTER s h a e) h (as @ a # e # bs)"
    "circleq_agree s (CIRCLEQ_INSERT_AFTER s h a e) h (insert e (set (as @ a # bs)))"
  using assms
  by (cases bs; auto simp: circleq_def CIRCLEQ_INSERT_AFTER_def circleq_setters circleq_agree_def Let_def)+

lemma circleq_INSERT_BEFORE:
  assumes "circleq s h (as @ a # bs)" "e \<notin> set (as @ a # bs)"
  shows "circleq (CIRCLEQ_INSERT_BEFORE s h a e) h (as @ e # a # bs)"
    "circleq_agree s (CIRCLEQ_INSERT_BEFORE s h a e) h (insert e (set (as @ a # bs)))"
  using assms
  by (cases as rule: rev_cases; auto simp: circleq_def CIRCLEQ_INSERT_BEFORE_def circleq_setters circleq_agree_def Let_def)+

lemma circleq_REMOVE:
  assumes "circleq s h (as @ e # bs)"
  shows "circleq (CIRCLEQ_REMOVE s h e) h (as @ bs)" "circleq_agree s (CIRCLEQ_REMOVE s h e) h (set (as @ e # bs))"
  using assms
  by (cases bs; cases as rule: rev_cases; auto simp: circleq_def CIRCLEQ_REMOVE_def circleq_setters circleq_agree_def Let_def)+

interpretation cq: tail_queue circleq "\<lambda>s h. elm_of (CIRCLEQ_FIRST s h)" CIRCLEQ_FOREACH CIRCLEQ_INSERT_HEAD
  "\<lambda>s h e. Some (CIRCLEQ_REMOVE s h e)" CIRCLEQ_INSERT_TAIL
proof (unfold_locales, goal_cases)
  case 1
  then show ?case by (simp add: circleq_def)
next
  case (5 s h xs e k ys)
  then show ?case using circleq_frame [OF circleq_INSERT_HEAD(2)] by metis
next
  case (6 s h xs e)
  then obtain as bs where xs: "xs = as @ e # bs" by (meson split_list)
  with 6 have "e \<notin> set as" by (auto simp: circleq_def)
  with 6 xs circleq_REMOVE(1) [of s h as e bs] show ?case by (simp add: remove1_append)
next
  case (7 s h xs e s' k ys)
  then obtain as bs where xs: "xs = as @ e # bs" by (meson split_list)
  with 7 show ?case using circleq_frame [OF circleq_REMOVE(2) [of s h as e bs]] by (metis option.inject)
next
  case (9 s h xs e k ys)
  then show ?case using circleq_frame [OF circleq_INSERT_TAIL(2)] by metis
qed (simp_all add: circleq_FIRST circleq_FOREACH circleq_INSERT_HEAD(1) circleq_INSERT_TAIL(1))

text \<open>Going round: after the last element the first, before the first the last.\<close>

lemma circleq_LOOP:
  assumes "circleq s h (as @ e # bs)"
  shows "CIRCLEQ_LOOP_NEXT s h e = CElm (hd (bs @ as @ [e]))" "CIRCLEQ_LOOP_PREV s h e = CElm (last (e # bs @ as))"
proof -
  note c = assms [unfolded circleq_def, simplified]
  show "CIRCLEQ_LOOP_NEXT s h e = CElm (hd (bs @ as @ [e]))"
    using c by (cases bs; cases as) (auto simp: CIRCLEQ_LOOP_NEXT_def circleq_setters)
  show "CIRCLEQ_LOOP_PREV s h e = CElm (last (e # bs @ as))"
    using c by (cases as rule: rev_cases; cases bs rule: rev_cases) (auto simp: CIRCLEQ_LOOP_PREV_def circleq_setters)
qed

end
