(* ===== verification/Queuekinds.thy ===== *)
theory Queuekinds
  imports Tailq Slist Linklist Stailq Circleq
begin

text \<open>
  The kinds of \<^verbatim>\<open>include/bmk/queue.h\<close> compared: run on the same sequence of operations they hold the
  same elements in the same order, whichever way they are traversed.
\<close>

text \<open>A head initialised by the compiler is one initialised at run time.\<close>

lemma head_initializers:
  "SLIST_HEAD_INITIALIZER s h = SLIST_INIT s h" "LIST_HEAD_INITIALIZER b h = LIST_INIT b h"
  "SIMPLEQ_HEAD_INITIALIZER q h = SIMPLEQ_INIT q h" "STAILQ_HEAD_INITIALIZER u h = STAILQ_INIT u h"
  "TAILQ_HEAD_INITIALIZER t h = TAILQ_INIT t h" "CIRCLEQ_HEAD_INITIALIZER c h = CIRCLEQ_INIT c h"
  by (simp_all add: SLIST_HEAD_INITIALIZER_def SLIST_INIT_def LIST_HEAD_INITIALIZER_def LIST_INIT_def
      SIMPLEQ_HEAD_INITIALIZER_def SIMPLEQ_INIT_def STAILQ_HEAD_INITIALIZER_def STAILQ_INIT_def
      TAILQ_HEAD_INITIALIZER_def TAILQ_INIT_def CIRCLEQ_HEAD_INITIALIZER_def CIRCLEQ_INIT_def)

lemma family_empty: "(\<And>h. rep s h []) \<Longrightarrow> family rep s (\<lambda>_. [])"
  by (simp add: family_def)

definition tailq_op :: "('h, 'e) queue_op \<Rightarrow> ('h, 'e) tailq_store \<Rightarrow> ('h, 'e) tailq_store option" where
  "tailq_op = queue_step TAILQ_INSERT_HEAD TAILQ_INSERT_TAIL (\<lambda>s h e. Some (TAILQ_REMOVE s h e))"

definition simpleq_op :: "('h, 'e) queue_op \<Rightarrow> ('h, 'e) simpleq_store \<Rightarrow> ('h, 'e) simpleq_store option" where
  "simpleq_op = queue_step SIMPLEQ_INSERT_HEAD SIMPLEQ_INSERT_TAIL SIMPLEQ_REMOVE"

definition stailq_op :: "('h, 'e) queue_op \<Rightarrow> ('h, 'e) stailq_store \<Rightarrow> ('h, 'e) stailq_store option" where
  "stailq_op = queue_step STAILQ_INSERT_HEAD STAILQ_INSERT_TAIL STAILQ_REMOVE"

definition circleq_op :: "('h, 'e) queue_op \<Rightarrow> ('h, 'e) circleq_store \<Rightarrow> ('h, 'e) circleq_store option" where
  "circleq_op = queue_step CIRCLEQ_INSERT_HEAD CIRCLEQ_INSERT_TAIL (\<lambda>s h e. Some (CIRCLEQ_REMOVE s h e))"

definition slist_op :: "('h, 'e) queue_op \<Rightarrow> ('h, 'e) slist_store \<Rightarrow> ('h, 'e) slist_store option" where
  "slist_op = list_step SLIST_INSERT_HEAD SLIST_REMOVE"

definition list_op :: "('h, 'e) queue_op \<Rightarrow> ('h, 'e) list_store \<Rightarrow> ('h, 'e) list_store option" where
  "list_op = list_step LIST_INSERT_HEAD (\<lambda>s h e. Some (LIST_REMOVE s e))"

text \<open>
  (C15) The four kinds of queue do the same: after any well-formed sequence of insertions at either end
  and removals, on any number of queues that were empty, each kind has returned and shows for every
  head the list the sequence stands for, the two that can be traversed backwards its reverse, and the
  last element at the end.
\<close>

theorem queue_kinds_agree:
  assumes "ops_ok ops (\<lambda>_. [])"
    and "\<And>h. tailq t h []" "\<And>h. simpleq s h []" "\<And>h. stailq u h []" "\<And>h. circleq c h []"
  shows "\<exists>t' s' u' c'. run_ops tailq_op ops t = Some t' \<and> run_ops simpleq_op ops s = Some s' \<and>
    run_ops stailq_op ops u = Some u' \<and> run_ops circleq_op ops c = Some c' \<and>
    (\<forall>h. let xs = fold lq_step ops (\<lambda>_. []) h in
      TAILQ_FOREACH t' h = Some xs \<and> SIMPLEQ_FOREACH s' h = Some xs \<and> STAILQ_FOREACH u' h = Some xs \<and>
      CIRCLEQ_FOREACH c' h = Some xs \<and>
      TAILQ_FOREACH_REVERSE t' h = Some (rev xs) \<and> CIRCLEQ_FOREACH_REVERSE c' h = Some (rev xs) \<and>
      SIMPLEQ_LAST s' h = TAILQ_LAST t' h \<and> STAILQ_LAST u' h = TAILQ_LAST t' h \<and>
      elm_of (CIRCLEQ_LAST c' h) = TAILQ_LAST t' h)"
proof -
  let ?q = "fold lq_step ops (\<lambda>_. [])"
  obtain t' where t: "run_ops tailq_op ops t = Some t'" "family tailq t' ?q"
    using tq.run_queue [OF family_empty assms(1), of t] assms(2) by (auto simp: tailq_op_def)
  obtain s' where s: "run_ops simpleq_op ops s = Some s'" "family simpleq s' ?q"
    using sq.run_queue [OF family_empty assms(1), of s] assms(3) by (auto simp: simpleq_op_def)
  obtain u' where u: "run_ops stailq_op ops u = Some u'" "family stailq u' ?q"
    using stq.run_queue [OF family_empty assms(1), of u] assms(4) by (auto simp: stailq_op_def)
  obtain c' where c: "run_ops circleq_op ops c = Some c'" "family circleq c' ?q"
    using cq.run_queue [OF family_empty assms(1), of c] assms(5) by (auto simp: circleq_op_def)
  have r: "tailq t' h (?q h)" "simpleq s' h (?q h)" "stailq u' h (?q h)" "circleq c' h (?q h)" for h
    using t(2) s(2) u(2) c(2) by (simp_all add: family_def)
  show ?thesis
    using t(1) s(1) u(1) c(1) tq.foreach_rep [OF r(1)] sq.foreach_rep [OF r(2)] stq.foreach_rep [OF r(3)] cq.foreach_rep [OF r(4)]
      tailq_FOREACH_REVERSE [OF r(1)] circleq_FOREACH_REVERSE [OF r(4)] tailq_LAST [OF r(1)] simpleq_LAST [OF r(2)]
      stailq_LAST [OF r(3)] circleq_LAST [OF r(4)]
    by (simp add: Let_def)
qed

text \<open>
  (C16) The two kinds of list do the same: after any well-formed sequence of insertions at the head and
  removals on lists that were empty, both have returned and show for every head the list the
  sequence stands for. For the singly-linked kind this says that the search in a removal always ends.
\<close>

theorem list_kinds_agree:
  assumes "ops_ok ops (\<lambda>_. [])" "list_all head_op ops" "\<And>h. slist s h []" "\<And>h. blist b h []"
  shows "\<exists>s' b'. run_ops slist_op ops s = Some s' \<and> run_ops list_op ops b = Some b' \<and>
    (\<forall>h. SLIST_FOREACH s' h = Some (fold lq_step ops (\<lambda>_. []) h) \<and> LIST_FOREACH b' h = Some (fold lq_step ops (\<lambda>_. []) h))"
proof -
  obtain s' where s: "run_ops slist_op ops s = Some s'" "family slist s' (fold lq_step ops (\<lambda>_. []))"
    using sl.run_list [OF family_empty assms(1,2), of s] assms(3) by (auto simp: slist_op_def)
  obtain b' where b: "run_ops list_op ops b = Some b'" "family blist b' (fold lq_step ops (\<lambda>_. []))"
    using ll.run_list [OF family_empty assms(1,2), of b] assms(4) by (auto simp: list_op_def)
  show ?thesis using s(1) b(1) sl.family_foreach [OF s(2)] ll.family_foreach [OF b(2)] by simp
qed

section \<open>Examples\<close>

definition no_simpleqs :: "(nat, nat) simpleq_store" where
  "no_simpleqs = \<lparr>sqh_first = (\<lambda>_. None), sqh_last = HeadFirst, sqe_next = (\<lambda>_. None)\<rparr>"

definition no_stailqs :: "(nat, nat) stailq_store" where
  "no_stailqs = \<lparr>stqh_first = (\<lambda>_. None), stqh_last = HeadFirst, stqe_next = (\<lambda>_. None)\<rparr>"

definition no_circleqs :: "(nat, nat) circleq_store" where
  "no_circleqs = \<lparr>cqh_first = CHead, cqh_last = CHead, cqe_next = id, cqe_prev = id\<rparr>"

definition no_slists :: "(nat, nat) slist_store" where
  "no_slists = \<lparr>slh_first = (\<lambda>_. None), sle_next = (\<lambda>_. None)\<rparr>"

theorem queue_kinds_agree_witness:
  "\<exists>s' u' c'. run_ops simpleq_op [InsertTail 0 7, InsertTail 0 8, Remove 0 7, InsertHead 1 9, InsertTail 0 7] no_simpleqs = Some s' \<and>
     run_ops stailq_op [InsertTail 0 7, InsertTail 0 8, Remove 0 7, InsertHead 1 9, InsertTail 0 7] no_stailqs = Some u' \<and>
     run_ops circleq_op [InsertTail 0 7, InsertTail 0 8, Remove 0 7, InsertHead 1 9, InsertTail 0 7] no_circleqs = Some c' \<and>
     SIMPLEQ_FOREACH s' 0 = Some [8, 7] \<and> STAILQ_LAST u' 0 = Some 7 \<and> CIRCLEQ_FOREACH_REVERSE c' 0 = Some [7, 8]"
proof -
  let ?ops = "[InsertTail 0 7, InsertTail 0 8, Remove 0 7, InsertHead 1 9, InsertTail 0 7] :: (nat, nat) queue_op list"
  have e: "tailq sample_store h []" "simpleq no_simpleqs h []" "stailq no_stailqs h []" "circleq no_circleqs h []" for h
    by (simp_all add: sample_store_def tailq_def no_simpleqs_def simpleq_def no_stailqs_def stailq_def as_simpleq_def
        no_circleqs_def circleq_def)
  have ok: "ops_ok ?ops (\<lambda>_. [])" by (auto simp: lq_defs)
  have q: "fold lq_step ?ops (\<lambda>_. []) 0 = [8, 7]" by (simp add: lq_defs)
  from queue_kinds_agree [OF ok e] obtain t' s' u' c' where r: "run_ops simpleq_op ?ops no_simpleqs = Some s'"
    "run_ops stailq_op ?ops no_stailqs = Some u'" "run_ops circleq_op ?ops no_circleqs = Some c'"
    and f: "\<forall>h. let xs = fold lq_step ?ops (\<lambda>_. []) h in
      TAILQ_FOREACH t' h = Some xs \<and> SIMPLEQ_FOREACH s' h = Some xs \<and> STAILQ_FOREACH u' h = Some xs \<and>
      CIRCLEQ_FOREACH c' h = Some xs \<and>
      TAILQ_FOREACH_REVERSE t' h = Some (rev xs) \<and> CIRCLEQ_FOREACH_REVERSE c' h = Some (rev xs) \<and>
      SIMPLEQ_LAST s' h = TAILQ_LAST t' h \<and> STAILQ_LAST u' h = TAILQ_LAST t' h \<and> elm_of (CIRCLEQ_LAST c' h) = TAILQ_LAST t' h"
    by blast
  have "STAILQ_LAST u' 0 = Some 7"
  proof -
    have "\<exists>u. run_ops stailq_op ?ops no_stailqs = Some u \<and> family stailq u (fold lq_step ?ops (\<lambda>_. []))"
      using stq.run_queue [OF family_empty ok, of no_stailqs] e(3) by (auto simp: stailq_op_def)
    then have "stailq u' 0 [8, 7]" using r(2) q unfolding family_def by (metis option.inject)
    from stailq_LAST [OF this] show ?thesis by simp
  qed
  then show ?thesis using r f [rule_format, of 0] unfolding q by (auto simp: Let_def)
qed

theorem list_kinds_agree_witness:
  "\<exists>s' b'. run_ops slist_op [InsertHead 0 7, InsertHead 0 8, Remove 0 7] no_slists = Some s' \<and>
     run_ops list_op [InsertHead 0 7, InsertHead 0 8, Remove 0 7] sample_lists = Some b' \<and>
     SLIST_FOREACH s' 0 = Some [8] \<and> LIST_FOREACH b' 0 = Some [8]"
proof -
  let ?ops = "[InsertHead 0 7, InsertHead 0 8, Remove 0 7] :: (nat, nat) queue_op list"
  have e: "slist no_slists h []" "blist sample_lists h []" for h
    by (simp_all add: no_slists_def slist_def sample_lists_def blist_def)
  have ok: "ops_ok ?ops (\<lambda>_. [])" "list_all head_op ?ops" by (auto simp: lq_defs)
  have q: "fold lq_step ?ops (\<lambda>_. []) 0 = [8]" by (simp add: lq_defs)
  from list_kinds_agree [OF ok e] obtain s' b' where "run_ops slist_op ?ops no_slists = Some s'"
    "run_ops list_op ?ops sample_lists = Some b'"
    "\<forall>h. SLIST_FOREACH s' h = Some (fold lq_step ?ops (\<lambda>_. []) h) \<and> LIST_FOREACH b' h = Some (fold lq_step ?ops (\<lambda>_. []) h)"
    by blast
  then show ?thesis using q by metis
qed

end
