(* ===== verification/Memory.thy ===== *)
theory Memory
  imports Prelude
begin

text \<open>
  The flat 32-bit address space of the i386 bare-metal target: a byte for every address, no
  protection, address arithmetic that wraps. Multi-byte accesses are little endian. The reference
  operations \<open>read_bytes\<close> and \<open>write_bytes\<close> on a run of consecutive addresses are what the string
  routines, the allocator and the console are specified with.
\<close>

type_synonym memory = "u32 \<Rightarrow> u8"

definition load32 :: "memory \<Rightarrow> u32 \<Rightarrow> u32" where
  "load32 m a = ucast (m a) OR push_bit 8 (ucast (m (a + 1))) OR
     push_bit 16 (ucast (m (a + 2))) OR push_bit 24 (ucast (m (a + 3)))"

definition store32 :: "memory \<Rightarrow> u32 \<Rightarrow> u32 \<Rightarrow> memory" where
  "store32 m a v = m(a := ucast v, a + 1 := ucast (drop_bit 8 v),
     a + 2 := ucast (drop_bit 16 v), a + 3 := ucast (drop_bit 24 v))"

definition read_bytes :: "memory \<Rightarrow> u32 \<Rightarrow> nat \<Rightarrow> u8 list" where
  "read_bytes m a n = map (\<lambda>i. m (a + of_nat i)) [0..<n]"

fun write_bytes :: "memory \<Rightarrow> u32 \<Rightarrow> u8 list \<Rightarrow> memory" where
  "write_bytes m a [] = m"
| "write_bytes m a (b # bs) = write_bytes (m(a := b)) (a + 1) bs"

text \<open>The addresses of the \<open>n\<close> bytes from \<open>a\<close>.\<close>

definition region :: "u32 \<Rightarrow> nat \<Rightarrow> u32 set" where
  "region a n = {x. unat (x - a) < n}"

section \<open>Runs of bytes\<close>

lemma offset_eq_iff: "(a :: u32) + x = a + y \<longleftrightarrow> x = y"
  by simp

lemma unat_of_nat_small: "n < 2 ^ 32 \<Longrightarrow> unat (of_nat n :: u32) = n"
  by (simp add: unat_of_nat)

lemma in_region_offset [simp]: "a + x \<in> region a n \<longleftrightarrow> unat x < n"
  by (simp add: region_def)

lemma region_0 [simp]: "region a 0 = {}"
  by (simp add: region_def)

lemma region_self [simp]: "a \<in> region a n \<longleftrightarrow> 0 < n"
  by (simp add: region_def)

lemma region_Suc:
  assumes "n < 2 ^ 32"
  shows "region a (Suc n) = insert a (region (a + 1) n)"
proof (rule set_eqI)
  fix x
  have "unat (x - a) < Suc n \<longleftrightarrow> x = a \<or> unat (x - (a + 1)) < n"
  proof (cases "x = a")
    case False
    then have "unat (x - a - 1) = unat (x - a) - 1" by (intro unat_dec) simp
    moreover have "0 < unat (x - a)" using False by (simp add: unat_0_less)
    ultimately have "unat (x - (a + 1)) = unat (x - a) - 1" by (simp add: diff_diff_eq)
    with \<open>0 < unat (x - a)\<close> show ?thesis using False by auto
  qed simp
  then show "x \<in> region a (Suc n) \<longleftrightarrow> x \<in> insert a (region (a + 1) n)"
    by (simp add: region_def)
qed

lemma region_mono: "m \<le> n \<Longrightarrow> region a m \<subseteq> region a n"
  by (auto simp: region_def)

lemma read_bytes_0 [simp]: "read_bytes m a 0 = []"
  by (simp add: read_bytes_def)

lemma read_bytes_Suc [simp]: "read_bytes m a (Suc n) = m a # read_bytes m (a + 1) n"
  by (simp add: read_bytes_def map_upt_Suc add.assoc del: upt_Suc)

lemma read_bytes_numeral [simp]:
  "read_bytes m a (numeral v) = m a # read_bytes m (a + 1) (pred_numeral v)"
  by (simp only: numeral_eq_Suc read_bytes_Suc)

lemma length_read_bytes [simp]: "length (read_bytes m a n) = n"
  by (simp add: read_bytes_def)

lemma write_bytes_outside:
  "length bs \<le> 2 ^ 32 \<Longrightarrow> x \<notin> region a (length bs) \<Longrightarrow> write_bytes m a bs x = m x"
proof (induction bs arbitrary: m a)
  case (Cons b bs)
  then show ?case by (simp add: region_Suc)
qed simp

lemma write_bytes_inside:
  "length bs \<le> 2 ^ 32 \<Longrightarrow> unat k < length bs \<Longrightarrow> write_bytes m a bs (a + k) = bs ! unat k"
proof (induction bs arbitrary: m a k)
  case (Cons b bs)
  have n: "length bs < 2 ^ 32" using Cons.prems by simp
  show ?case
  proof (cases "k = 0")
    case True
    have "a \<notin> region (a + 1) (length bs)"
      using n unsigned_minus_1_eq_mask [where 'a = nat and 'b = 32] by (simp add: region_def mask_eq_exp_minus_1)
    then show ?thesis using True n by (simp add: write_bytes_outside)
  next
    case False
    then have k: "unat (k - 1) = unat k - 1" "0 < unat k" by (simp_all add: unat_0_less)
    have "write_bytes (m(a := b)) (a + 1) bs (a + 1 + (k - 1)) = bs ! unat (k - 1)"
      using Cons.prems k by (intro Cons.IH) auto
    then show ?thesis using k by (cases "unat k") (auto simp: algebra_simps)
  qed
qed simp

lemma write_bytes_eq:
  assumes "length bs \<le> 2 ^ 32"
  shows "write_bytes m a bs x = (if x \<in> region a (length bs) then bs ! unat (x - a) else m x)"
  using write_bytes_outside [OF assms] write_bytes_inside [OF assms, of "x - a" m a]
  by (auto simp: region_def)

lemma write_bytes_append:
  "write_bytes m a (xs @ ys) = write_bytes (write_bytes m a xs) (a + of_nat (length xs)) ys"
  by (induction xs arbitrary: m a) (simp_all add: add.assoc)

lemma read_bytes_cong:
  "(\<And>x. x \<in> region a n \<Longrightarrow> m' x = m x) \<Longrightarrow> n \<le> 2 ^ 32 \<Longrightarrow> read_bytes m' a n = read_bytes m a n"
  by (auto simp: read_bytes_def unat_of_nat_small)

lemma read_write_bytes:
  "length bs \<le> 2 ^ 32 \<Longrightarrow> read_bytes (write_bytes m a bs) a (length bs) = bs"
  by (rule nth_equalityI) (auto simp: read_bytes_def write_bytes_eq unat_of_nat_small)

section \<open>Words in memory\<close>

lemma load32_cong:
  "(\<And>x. x \<in> region a 4 \<Longrightarrow> m' x = m x) \<Longrightarrow> load32 m' a = load32 m a"
  by (simp add: load32_def region_def)

lemma store32_outside: "x \<notin> region a 4 \<Longrightarrow> store32 m a v x = m x"
  by (auto simp: store32_def region_def)

lemma store32_bytes:
  "store32 m a v a = ucast v"
  "store32 m a v (a + 1) = ucast (drop_bit 8 v)"
  "store32 m a v (a + 2) = ucast (drop_bit 16 v)"
  "store32 m a v (a + 3) = ucast (drop_bit 24 v)"
  by (simp_all add: store32_def)

lemma load32_store32 [simp]: "load32 (store32 m a v) a = v"
proof (rule bit_eqI)
  fix n :: nat
  consider "n < 8" | "8 \<le> n" "n < 16" | "16 \<le> n" "n < 24" | "24 \<le> n" "n < 32" | "32 \<le> n" by linarith
  then show "bit (load32 (store32 m a v) a) n \<longleftrightarrow> bit v n"
    by cases (auto simp: load32_def store32_bytes bit_simps dest: bit_imp_le_length)
qed

lemma load32_store32_other:
  "region a 4 \<inter> region b 4 = {} \<Longrightarrow> load32 (store32 m a v) b = load32 m b"
  by (intro load32_cong store32_outside) auto

end
