(* ===== verification/Subr.thy ===== *)
theory Subr
  imports Memory
begin

text \<open>
  The string and memory routines of \<^verbatim>\<open>subr.c\<close> on the flat memory. A loop with a byte count is a
  terminating recursion on the count; a loop that stops at a NUL byte may run round the whole
  address space for ever, and is a \<open>partial_function\<close> whose value is \<open>None\<close> then. \<^verbatim>\<open>char\<close> is
  signed on this target.
\<close>

section \<open>The routines\<close>

partial_function (option) strlen_loop :: "memory \<Rightarrow> u32 \<Rightarrow> u32 \<Rightarrow> u32 option" where
  "strlen_loop m str rv = (if m str = 0 then Some rv else strlen_loop m (str + 1) (rv + 1))"

definition bmk_strlen :: "memory \<Rightarrow> u32 \<Rightarrow> u32 option" where
  "bmk_strlen m str = strlen_loop m str 0"

partial_function (option) strcmp_loop :: "memory \<Rightarrow> u32 \<Rightarrow> u32 \<Rightarrow> (u32 \<times> u32) option" where
  "strcmp_loop m a b =
     (if m a = 0 then Some (a, b)
      else if m a = m b then strcmp_loop m (a + 1) (b + 1)
      else Some (a + 1, b + 1))"

definition bmk_strcmp :: "memory \<Rightarrow> u32 \<Rightarrow> u32 \<Rightarrow> int option" where
  "bmk_strcmp m a b =
     (case strcmp_loop m a b of
        None \<Rightarrow> None
      | Some (a, b) \<Rightarrow>
         (let (a, b) = (if m a \<noteq> 0 then (a - 1, b - 1) else (a, b))
          in Some (sint (m a) - sint (m b))))"

partial_function (option) strcpy_loop :: "memory \<Rightarrow> u32 \<Rightarrow> u32 \<Rightarrow> memory option" where
  "strcpy_loop m d s =
     (let c = m s; m' = m(d := c)
      in if c \<noteq> 0 then strcpy_loop m' (d + 1) (s + 1) else Some m')"

definition bmk_strcpy :: "memory \<Rightarrow> u32 \<Rightarrow> u32 \<Rightarrow> (memory \<times> u32) option" where
  "bmk_strcpy m d s = map_option (\<lambda>m'. (m', d)) (strcpy_loop m d s)"

function memset_loop :: "memory \<Rightarrow> u32 \<Rightarrow> u8 \<Rightarrow> u32 \<Rightarrow> memory" where
  "memset_loop m v c n = (if n = 0 then m else memset_loop (m(v := c)) (v + 1) c (n - 1))"
  by auto
termination by (relation "measure (\<lambda>(m, v, c, n). unat n)") (auto simp: unat_0_less)

declare memset_loop.simps [simp del]

definition bmk_memset :: "memory \<Rightarrow> u32 \<Rightarrow> u32 \<Rightarrow> u32 \<Rightarrow> memory \<times> u32" where
  "bmk_memset m b c n = (memset_loop m b (ucast c) n, b)"

function memcpy_loop :: "memory \<Rightarrow> u32 \<Rightarrow> u32 \<Rightarrow> u32 \<Rightarrow> memory" where
  "memcpy_loop m dp sp n =
     (if n = 0 then m else memcpy_loop (m(dp := m sp)) (dp + 1) (sp + 1) (n - 1))"
  by auto
termination by (relation "measure (\<lambda>(m, dp, sp, n). unat n)") (auto simp: unat_0_less)

declare memcpy_loop.simps [simp del]

definition bmk_memcpy :: "memory \<Rightarrow> u32 \<Rightarrow> u32 \<Rightarrow> u32 \<Rightarrow> memory \<times> u32" where
  "bmk_memcpy m d src n = (memcpy_loop m d src n, d)"

text \<open>
  The copying loop of \<^verbatim>\<open>bmk_strncpy\<close>, \<^verbatim>\<open>while ((*d++ = *s++) && n--)\<close>: the count is not
  decremented when the NUL ends the loop, and it wraps when the exhausted count does.
\<close>

function strncpy_loop :: "memory \<Rightarrow> u32 \<Rightarrow> u32 \<Rightarrow> u32 \<Rightarrow> memory \<times> u32 \<times> u32" where
  "strncpy_loop m d s n =
     (let c = m s; m' = m(d := c)
      in if c = 0 then (m', d + 1, n)
         else if n = 0 then (m', d + 1, n - 1)
         else strncpy_loop m' (d + 1) (s + 1) (n - 1))"
  by auto
termination by (relation "measure (\<lambda>(m, d, s, n). unat n)") (auto simp: unat_0_less)

declare strncpy_loop.simps [simp del]

definition bmk_strncpy :: "memory \<Rightarrow> u32 \<Rightarrow> u32 \<Rightarrow> u32 \<Rightarrow> memory \<times> u32" where
  "bmk_strncpy m d s n =
     (case strncpy_loop m d s n of (m', d', n') \<Rightarrow> (memset_loop m' d' 0 n', d))"

section \<open>Strings\<close>

fun cstr :: "memory \<Rightarrow> u32 \<Rightarrow> u8 list \<Rightarrow> bool" where
  "cstr m a [] \<longleftrightarrow> m a = 0"
| "cstr m a (x # xs) \<longleftrightarrow> m a = x \<and> x \<noteq> 0 \<and> cstr m (a + 1) xs"

lemma offset_Suc: "(a :: u32) + of_nat (Suc n) = a + 1 + of_nat n"
  by simp

lemma cstr_iff:
  "cstr m a xs \<longleftrightarrow> read_bytes m a (length xs) = xs \<and> 0 \<notin> set xs \<and> m (a + of_nat (length xs)) = 0"
proof (induction xs arbitrary: a)
  case (Cons x xs)
  show ?case
    unfolding cstr.simps Cons.IH list.size add_Suc_right add_0_right offset_Suc read_bytes_Suc by auto
qed simp

lemma cstr_end: "cstr m a xs \<Longrightarrow> m (a + of_nat (length xs)) = 0"
  by (simp add: cstr_iff)

lemma cstr_nth:
  assumes "cstr m a xs" "i < length xs"
  shows "m (a + of_nat i) = xs ! i \<and> xs ! i \<noteq> 0"
proof -
  have r: "read_bytes m a (length xs) = xs" and z: "0 \<notin> set xs" using assms(1) by (simp_all add: cstr_iff)
  have "read_bytes m a (length xs) ! i = m (a + of_nat i)" using assms(2) by (simp add: read_bytes_def)
  with r have "m (a + of_nat i) = xs ! i" by simp
  with z assms(2) show ?thesis by (metis nth_mem)
qed

text \<open>A string fits in the address space: further round, its bytes would meet its own NUL.\<close>

lemma cstr_length: "cstr m a xs \<Longrightarrow> length xs < 2 ^ 32"
proof (rule ccontr)
  assume c: "cstr m a xs" and l: "\<not> length xs < 2 ^ 32"
  have "length xs - 2 ^ 32 < length xs" using l by simp
  from cstr_nth [OF c this] have "m (a + of_nat (length xs - 2 ^ 32)) \<noteq> 0" by metis
  moreover have "(of_nat (length xs - 2 ^ 32) :: u32) = of_nat (length xs)"
    using l by (simp add: of_nat_diff)
  ultimately show False using cstr_end [OF c] by simp
qed

lemma cstr_unique: "cstr m a xs \<Longrightarrow> cstr m a ys \<Longrightarrow> xs = ys"
proof (induction xs arbitrary: a ys)
  case Nil
  then show ?case by (cases ys) auto
next
  case (Cons x xs)
  then show ?case by (cases ys) auto
qed

lemma read_bytes_snoc: "read_bytes m a (Suc n) = read_bytes m a n @ [m (a + of_nat n)]"
  by (simp add: read_bytes_def)

lemma cstr_read_bytes: "cstr m a xs \<longleftrightarrow> 0 \<notin> set xs \<and> read_bytes m a (Suc (length xs)) = xs @ [0]"
  by (auto simp: cstr_iff read_bytes_snoc simp del: read_bytes_Suc)

lemma cstr_write_bytes:
  "0 \<notin> set xs \<Longrightarrow> length xs < 2 ^ 32 \<Longrightarrow> cstr (write_bytes m a (xs @ [0])) a xs"
  using read_write_bytes [of "xs @ [0]" m a] by (simp add: cstr_read_bytes del: read_bytes_Suc)

lemma cstr_cong:
  "(\<And>x. x \<in> region a (Suc (length xs)) \<Longrightarrow> m' x = m x) \<Longrightarrow> length xs < 2 ^ 32 \<Longrightarrow>
   cstr m' a xs \<longleftrightarrow> cstr m a xs"
  using read_bytes_cong [of a "Suc (length xs)" m' m] by (simp add: cstr_read_bytes del: read_bytes_Suc)

section \<open>Lengths and comparison\<close>

lemma strlen_loop_cstr: "cstr m a xs \<Longrightarrow> strlen_loop m a rv = Some (rv + of_nat (length xs))"
proof (induction xs arbitrary: a rv)
  case (Cons x xs)
  then have "strlen_loop m (a + 1) (rv + 1) = Some (rv + 1 + of_nat (length xs))" by auto
  with Cons.prems show ?case by (auto simp: strlen_loop.simps [of m a] ac_simps)
qed (simp add: strlen_loop.simps)

lemma bmk_strlen_cstr: "cstr m a xs \<Longrightarrow> bmk_strlen m a = Some (of_nat (length xs))"
  by (simp add: bmk_strlen_def strlen_loop_cstr)

lemma strcmp_loop_prefix:
  "(\<And>i. i < n \<Longrightarrow> m (a + of_nat i) \<noteq> 0 \<and> m (a + of_nat i) = m (b + of_nat i)) \<Longrightarrow>
   strcmp_loop m a b = strcmp_loop m (a + of_nat n) (b + of_nat n)"
proof (induction n arbitrary: a b)
  case (Suc n)
  have "m a \<noteq> 0" "m a = m b" using Suc.prems [of 0] by auto
  then have "strcmp_loop m a b = strcmp_loop m (a + 1) (b + 1)"
    by (subst strcmp_loop.simps) auto
  also have "\<dots> = strcmp_loop m (a + 1 + of_nat n) (b + 1 + of_nat n)"
    using Suc.prems [unfolded less_Suc_eq_0_disj] by (intro Suc.IH) (metis Suc_less_eq offset_Suc Suc.prems)
  finally show ?case unfolding offset_Suc .
qed simp

lemma bmk_strcmp_common_prefix:
  assumes "cstr m a (ps @ xs)" "cstr m b (ps @ ys)"
    and "hd (xs @ [0]) \<noteq> hd (ys @ [0]) \<or> xs = [] \<and> ys = []"
  shows "bmk_strcmp m a b = Some (case xs of
      [] \<Rightarrow> - sint (hd (ys @ [0]))
    | [x] \<Rightarrow> - sint (m (b + of_nat (Suc (length ps))))
    | x # _ # _ \<Rightarrow> sint x - sint (hd (ys @ [0])))"
proof -
  define a' b' where "a' = a + of_nat (length ps)" and "b' = b + of_nat (length ps)"
  have bytes: "m (c + of_nat (length ps + i)) = (zs @ [0]) ! i"
    if "cstr m c (ps @ zs)" "i \<le> length zs" for c zs i
    using that cstr_nth [OF that(1), of "length ps + i"] cstr_end [OF that(1)]
    by (cases "i = length zs") (auto simp: nth_append)
  have "m a' = hd (xs @ [0])" "m b' = hd (ys @ [0])"
    using bytes [OF assms(1), of 0] bytes [OF assms(2), of 0] by (simp_all add: a'_def b'_def hd_conv_nth)
  moreover have "m (a' + 1) = (if length xs = 1 then 0 else xs ! 1)" if "xs \<noteq> []"
    using that bytes [OF assms(1), of 1] by (cases xs) (auto simp: a'_def ac_simps nth_append)
  moreover have "0 \<notin> set xs" using assms(1) by (simp add: cstr_iff)
  moreover have "strcmp_loop m a b = strcmp_loop m a' b'"
    unfolding a'_def b'_def
    using cstr_nth [OF assms(1)] cstr_nth [OF assms(2)]
    by (intro strcmp_loop_prefix) (metis length_append nth_append trans_less_add1)
  ultimately show ?thesis
    using assms(3) unfolding bmk_strcmp_def strcmp_loop.simps [of m a' b'] offset_Suc [symmetric]
    by (cases xs; cases "tl xs") (auto simp: b'_def ac_simps)
qed

section \<open>Copying and filling\<close>

lemma unat_pred:
  assumes "(n :: u32) \<noteq> 0"
  obtains k where "unat n = Suc k" "unat (n - 1) = k" "k < 2 ^ 32"
proof
  show "unat n = Suc (unat (n - 1))" using assms unat_0_less [of n] by simp
  show "unat (n - 1) = unat (n - 1)" ..
  show "unat (n - 1) < 2 ^ 32" using unsigned_less [of "n - 1"] by simp
qed

lemma memset_loop_eq: "memset_loop m v c n = write_bytes m v (replicate (unat n) c)"
proof (induction m v c n rule: memset_loop.induct)
  case (1 m v c n)
  show ?case
  proof (cases "n = 0")
    case False
    then obtain k where "unat n = Suc k" "unat (n - 1) = k" by (rule unat_pred)
    moreover have "memset_loop (m(v := c)) (v + 1) c (n - 1) =
        write_bytes (m(v := c)) (v + 1) (replicate (unat (n - 1)) c)"
      by (rule 1 [OF False])
    ultimately show ?thesis using False by (simp add: memset_loop.simps [of m] del: unat_dec)
  qed (simp add: memset_loop.simps)
qed

text \<open>A byte written at \<open>d\<close> is not one of the \<open>k\<close> bytes still to be read after \<open>s\<close>.\<close>

lemma forward_copy_unread:
  assumes "d = s \<or> Suc k \<le> unat (d - s)" "k < 2 ^ 32"
  shows "read_bytes (m(d := m s)) (s + 1) k = read_bytes m (s + 1) k"
proof (cases "d = s")
  case False
  then have "unat (d - s - 1) = unat (d - s) - 1" by simp
  then have "d \<notin> region (s + 1) k" using assms False by (simp add: region_def diff_diff_eq)
  then show ?thesis using assms(2) by (intro read_bytes_cong) auto
qed simp

lemma memcpy_loop_eq:
  "d = s \<or> unat n \<le> unat (d - s) \<Longrightarrow> memcpy_loop m d s n = write_bytes m d (read_bytes m s (unat n))"
proof (induction m d s n rule: memcpy_loop.induct)
  case (1 m d s n)
  show ?case
  proof (cases "n = 0")
    case False
    then obtain k where k: "unat n = Suc k" "unat (n - 1) = k" "k < 2 ^ 32" by (rule unat_pred)
    have "memcpy_loop (m(d := m s)) (d + 1) (s + 1) (n - 1) =
        write_bytes (m(d := m s)) (d + 1) (read_bytes (m(d := m s)) (s + 1) (unat (n - 1)))"
      by (rule 1(1) [OF False]) (use 1(2) k in \<open>auto simp del: unat_dec\<close>)
    moreover have "read_bytes (m(d := m s)) (s + 1) k = read_bytes m (s + 1) k"
      using 1(2) k by (intro forward_copy_unread) auto
    ultimately show ?thesis using False k by (simp add: memcpy_loop.simps [of m] del: unat_dec)
  qed (simp add: memcpy_loop.simps)
qed

lemma cstr_after_store:
  assumes "cstr m s (x # xs)" "d = s \<or> Suc (length xs) < unat (d - s)"
  shows "cstr (m(d := x)) (s + 1) xs"
proof -
  have x: "m s = x" using assms(1) by auto
  have "read_bytes (m(d := x)) (s + 1) (Suc (length xs)) = read_bytes m (s + 1) (Suc (length xs))"
    using forward_copy_unread [of d s "Suc (length xs)" m] assms(2) x cstr_length [OF assms(1)]
    by (auto simp: Suc_le_eq simp del: read_bytes_Suc)
  then show ?thesis
    using assms(1) unfolding cstr_read_bytes list.size add_Suc_right add_0_right
    unfolding read_bytes_Suc [of m s] by auto
qed

lemma strcpy_loop_eq:
  "cstr m s xs \<Longrightarrow> d = s \<or> length xs < unat (d - s) \<Longrightarrow>
   strcpy_loop m d s = Some (write_bytes m d (xs @ [0]))"
proof (induction xs arbitrary: m d s)
  case Nil
  then show ?case by (simp add: strcpy_loop.simps fun_upd_def)
next
  case (Cons x xs)
  have x: "m s = x" "x \<noteq> 0" using Cons.prems(1) by auto
  have "strcpy_loop (m(d := x)) (d + 1) (s + 1) = Some (write_bytes (m(d := x)) (d + 1) (xs @ [0]))"
    using Cons.prems(2) by (intro Cons.IH [OF cstr_after_store [OF Cons.prems(1)]]) auto
  with x show ?case by (simp add: strcpy_loop.simps [of m])
qed

lemma strncpy_loop_fits:
  "cstr m s xs \<Longrightarrow> length xs \<le> unat n \<Longrightarrow> d = s \<or> length xs < unat (d - s) \<Longrightarrow>
   strncpy_loop m d s n = (write_bytes m d (xs @ [0]), d + of_nat (Suc (length xs)), n - of_nat (length xs))"
proof (induction xs arbitrary: m d s n)
  case Nil
  then show ?case by (simp add: strncpy_loop.simps fun_upd_def)
next
  case (Cons x xs)
  have x: "m s = x" "x \<noteq> 0" and n0: "n \<noteq> 0" using Cons.prems(1,2) by auto
  obtain k where k: "unat n = Suc k" "unat (n - 1) = k" using n0 by (rule unat_pred)
  have "strncpy_loop (m(d := x)) (d + 1) (s + 1) (n - 1) =
      (write_bytes (m(d := x)) (d + 1) (xs @ [0]), d + 1 + of_nat (Suc (length xs)), n - 1 - of_nat (length xs))"
    using Cons.prems k by (intro Cons.IH [OF cstr_after_store [OF Cons.prems(1)]]) (auto simp del: unat_dec)
  with x n0 show ?case by (simp add: strncpy_loop.simps [of m] algebra_simps)
qed

lemma strncpy_loop_overflows:
  "cstr m s xs \<Longrightarrow> unat n < length xs \<Longrightarrow> d = s \<or> length xs < unat (d - s) \<Longrightarrow>
   strncpy_loop m d s n = (write_bytes m d (take (Suc (unat n)) xs), d + n + 1, - 1)"
proof (induction xs arbitrary: m d s n)
  case Nil
  then show ?case by simp
next
  case (Cons x xs)
  have x: "m s = x" "x \<noteq> 0" using Cons.prems(1) by auto
  show ?case
  proof (cases "n = 0")
    case True
    with x show ?thesis by (simp add: strncpy_loop.simps [of m] fun_upd_def)
  next
    case False
    obtain k where k: "unat n = Suc k" "unat (n - 1) = k" using False by (rule unat_pred)
    have "strncpy_loop (m(d := x)) (d + 1) (s + 1) (n - 1) =
        (write_bytes (m(d := x)) (d + 1) (take (Suc (unat (n - 1))) xs), d + 1 + (n - 1) + 1, - 1)"
      using Cons.prems k by (intro Cons.IH [OF cstr_after_store [OF Cons.prems(1)]]) (auto simp del: unat_dec)
    with x False k show ?thesis by (simp add: strncpy_loop.simps [of m] algebra_simps del: unat_dec)
  qed
qed

lemma region_all_but_one: "x \<in> region a (2 ^ 32 - 1) \<longleftrightarrow> x \<noteq> a - 1"
proof -
  have "unat (x - a) < 2 ^ 32 - 1 \<longleftrightarrow> x - a \<noteq> - 1"
    using unsigned_less [of "x - a", where 'a = nat] unsigned_minus_1_eq_mask [where 'a = nat and 'b = 32]
    by (auto simp: mask_eq_exp_minus_1 word_unat_eq_iff)
  then show ?thesis by (auto simp: region_def algebra_simps)
qed

lemma cstr_exists: "m (a + of_nat k) = 0 \<Longrightarrow> \<exists>xs. cstr m a xs"
proof (induction k arbitrary: a)
  case 0
  then have "cstr m a []" by simp
  then show ?case ..
next
  case (Suc k)
  have "m (a + 1 + of_nat k) = 0" using Suc.prems unfolding offset_Suc .
  from Suc.IH [OF this] obtain xs where "cstr m (a + 1) xs" ..
  then have "cstr m a (if m a = 0 then [] else m a # xs)" by simp
  then show ?case ..
qed

lemma strlen_loop_returns: "strlen_loop m a rv = Some n \<Longrightarrow> \<exists>x. m x = 0"
  by (rule strlen_loop.raw_induct [of "\<lambda>m a rv n. \<exists>x. m x = 0"]) (auto split: if_splits)

section \<open>What the routines compute\<close>

text \<open>
  \<^verbatim>\<open>bmk_strlen\<close> returns exactly when memory holds a NUL byte somewhere, and then the result
  is the length of the string at its argument, without wrap-around.
\<close>

theorem bmk_strlen_result:
  "case bmk_strlen m a of None \<Rightarrow> \<forall>x. m x \<noteq> 0 | Some n \<Rightarrow> \<exists>xs. cstr m a xs \<and> unat n = length xs"
proof (cases "\<exists>x. m x = 0")
  case True
  then obtain x where "m (a + of_nat (unat (x - a))) = 0" by auto
  then obtain xs where "cstr m a xs" using cstr_exists by blast
  then show ?thesis
    using bmk_strlen_cstr [of m a xs] cstr_length [of m a xs] unat_of_nat_small by auto
next
  case False
  then have "bmk_strlen m a = None"
    using strlen_loop_returns [of m a 0] by (cases "bmk_strlen m a") (auto simp: bmk_strlen_def)
  with False show ?thesis by simp
qed

text \<open>
  What \<^verbatim>\<open>bmk_strcmp\<close> returns for any two strings, split after their longest common
  prefix: the difference of the first differing characters when at least one character follows in
  the first string. When the first string ends right there the NUL is mistaken for the exhausted
  loop, and the character of \<^verbatim>\<open>b\<close> \<^emph>\<open>after\<close> the difference is returned instead.
\<close>

theorem bmk_strcmp_result:
  assumes "cstr m a (ps @ xs)" "cstr m b (ps @ ys)"
    and "hd (xs @ [0]) \<noteq> hd (ys @ [0]) \<or> xs = [] \<and> ys = []"
  shows "bmk_strcmp m a b = Some (case xs of
      [] \<Rightarrow> - sint (hd (ys @ [0]))
    | [x] \<Rightarrow> - sint (m (b + of_nat (Suc (length ps))))
    | x # _ # _ \<Rightarrow> sint x - sint (hd (ys @ [0])))"
  using assms by (rule bmk_strcmp_common_prefix)

theorem bmk_strcmp_result_witness:
  "bmk_strcmp (write_bytes (\<lambda>_. 0) 16 [104, 105, 106, 0, 104, 107, 0]) 16 20 = Some (- 2)"
  using bmk_strcmp_result [of "write_bytes (\<lambda>_. 0) 16 [104, 105, 106, 0, 104, 107, 0]" 16 "[104]" "[105, 106]"
      20 "[107]"]
  by simp

text \<open>
  Two strings that differ only in their last character compare equal.
\<close>

theorem bmk_strcmp_misses_last:
  assumes "cstr m a (ps @ [x])" "cstr m b (ps @ [y])"
  shows "bmk_strcmp m a b = Some 0"
proof (cases "x = y")
  case True
  with assms bmk_strcmp_common_prefix [of m a "ps @ [x]" "[]" b "[]"] show ?thesis by simp
next
  case False
  with assms bmk_strcmp_common_prefix [of m a ps "[x]" b "[y]"] cstr_end [OF assms(2)]
  show ?thesis by simp
qed

theorem bmk_strcmp_misses_last_witness:
  "bmk_strcmp (write_bytes (\<lambda>_. 0) 16 [120, 0, 121, 0]) 16 18 = Some 0"
  using bmk_strcmp_misses_last [of "write_bytes (\<lambda>_. 0) 16 [120, 0, 121, 0]" 16 "[]" 120 18 121] by simp

text \<open>
  \<^verbatim>\<open>bmk_strcpy\<close> of a string returns its destination and leaves there the string with its
  NUL and every other byte of memory as it was, provided no byte is overwritten before it is read.
\<close>

theorem bmk_strcpy_copies:
  assumes "cstr m s xs" "d = s \<or> length xs < unat (d - s)"
  shows "bmk_strcpy m d s = Some (write_bytes m d (xs @ [0]), d) \<and> cstr (write_bytes m d (xs @ [0])) d xs"
  using strcpy_loop_eq [OF assms] cstr_write_bytes [of xs m d] cstr_length [OF assms(1)] assms(1)
  by (simp add: bmk_strcpy_def cstr_iff)

theorem bmk_strcpy_copies_witness:
  "\<exists>m'. bmk_strcpy (write_bytes (\<lambda>_. 7) 16 [104, 105, 0]) 96 16 = Some (m', 96) \<and> cstr m' 96 [104, 105]"
  using bmk_strcpy_copies [of "write_bytes (\<lambda>_. 7) 16 [104, 105, 0]" 16 "[104, 105]" 96] by auto

text \<open>
  \<^verbatim>\<open>bmk_memset\<close> fills exactly the \<^verbatim>\<open>n\<close> bytes from its argument with the low byte of
  \<^verbatim>\<open>c\<close>; \<^verbatim>\<open>bmk_memcpy\<close> moves the old contents of the source to the destination, for
  overlapping ranges too as long as the destination does not start inside the source.
\<close>

theorem bmk_memset_memcpy_spec:
  assumes "d = s \<or> unat n \<le> unat (d - s)"
  shows "bmk_memset m d c n = (write_bytes m d (replicate (unat n) (ucast c)), d) \<and>
    bmk_memcpy m d s n = (write_bytes m d (read_bytes m s (unat n)), d)"
  using memcpy_loop_eq [OF assms] by (simp add: bmk_memset_def bmk_memcpy_def memset_loop_eq)

theorem bmk_memset_memcpy_spec_witness:
  "fst (bmk_memcpy (write_bytes (\<lambda>_. 0) 16 [1, 2, 3]) 32 16 3) 34 = 3"
  using bmk_memset_memcpy_spec [of 32 16 3 "write_bytes (\<lambda>_. 0) 16 [1, 2, 3]"] by simp

lemma strncpy_short:
  assumes "cstr m s xs" "length xs \<le> unat n" "d = s \<or> length xs < unat (d - s)"
  shows "bmk_strncpy m d s n = (write_bytes m d (xs @ replicate (Suc (unat n) - length xs) 0), d)"
proof -
  have l: "length xs < 2 ^ 32" using cstr_length [OF assms(1)] .
  have "unat (n - of_nat (length xs)) = unat n - length xs"
    using assms(2) l by (simp add: unat_sub_if' unat_of_nat_small)
  then show ?thesis
    using strncpy_loop_fits [OF assms] assms(2)
    by (simp add: bmk_strncpy_def memset_loop_eq write_bytes_append Suc_diff_le ac_simps)
qed

text \<open>
  \<^verbatim>\<open>bmk_strncpy\<close> of a string of at most \<^verbatim>\<open>n\<close> characters copies it and pads with NUL
  bytes, writing \<open>n + 1\<close> bytes in all, one more than the size it is given.
\<close>

theorem bmk_strncpy_fits:
  assumes "cstr m s xs" "length xs \<le> unat n" "d = s \<or> length xs < unat (d - s)"
  shows "bmk_strncpy m d s n = (write_bytes m d (xs @ replicate (Suc (unat n) - length xs) 0), d)"
  using assms by (rule strncpy_short)

theorem bmk_strncpy_fits_witness:
  "bmk_strncpy (write_bytes (\<lambda>_. 7) 16 [104, 0]) 96 16 3 =
     (write_bytes (write_bytes (\<lambda>_. 7) 16 [104, 0]) 96 [104, 0, 0, 0], 96)"
  using bmk_strncpy_fits [of "write_bytes (\<lambda>_. 7) 16 [104, 0]" 16 "[104]" 3 96]
  by simp (simp add: numeral_3_eq_3)

lemma strncpy_long:
  assumes "cstr m s xs" "unat n < length xs" "d = s \<or> length xs < unat (d - s)"
  shows "bmk_strncpy m d s n = ((\<lambda>x. 0)(d + n := xs ! unat n), d)"
proof -
  let ?m = "write_bytes m d (take (Suc (unat n)) xs)"
  have l: "length xs < 2 ^ 32" using cstr_length [OF assms(1)] .
  have n: "?m (d + n) = xs ! unat n"
    using assms(2) l by (subst write_bytes_inside) auto
  have "unat (- 1 :: u32) = 2 ^ 32 - 1"
    using unsigned_minus_1_eq_mask [where 'a = nat and 'b = 32] by (simp add: mask_eq_exp_minus_1)
  then have "memset_loop ?m (d + n + 1) 0 (- 1) x = (if x = d + n then xs ! unat n else 0)" for x
    using n region_all_but_one [of x "d + n + 1"] by (auto simp: memset_loop_eq write_bytes_eq region_def)
  then show ?thesis
    using strncpy_loop_overflows [OF assms] by (auto simp: bmk_strncpy_def fun_eq_iff)
qed

text \<open>
  (C40) \<^verbatim>\<open>bmk_strncpy\<close> of a string longer than \<^verbatim>\<open>n\<close> wraps its count and clears all of
  memory but one byte.
\<close>

theorem bmk_strncpy_wipes:
  assumes "cstr m s xs" "unat n < length xs" "d = s \<or> length xs < unat (d - s)"
  shows "bmk_strncpy m d s n = ((\<lambda>x. 0)(d + n := xs ! unat n), d)"
  using assms by (rule strncpy_long)

theorem bmk_strncpy_wipes_witness:
  "fst (bmk_strncpy (write_bytes (\<lambda>_. 7) 16 [104, 105, 0]) 96 16 1) 5000 = 0"
  using bmk_strncpy_wipes [of "write_bytes (\<lambda>_. 7) 16 [104, 105, 0]" 16 "[104, 105]" 1 96] by simp

end
