(* ===== verification/Kernel.thy ===== *)
theory Kernel
  imports Subr
begin

text \<open>
  \<^verbatim>\<open>kernel.c\<close> and the constants and macros of \<^verbatim>\<open>include/bmk/kernel.h\<close>: the page allocator
  \<^verbatim>\<open>bmk_allocpg\<close>, the search of the multiboot memory map by \<^verbatim>\<open>parsemem\<close>, and the console.
  The linker symbols \<^verbatim>\<open>_begin\<close> and \<^verbatim>\<open>_end\<close> are arguments.
\<close>

section \<open>Pages\<close>

definition PAGE_SIZE :: u32 where "PAGE_SIZE = 0x1000"
definition MEMSTART :: u32 where "MEMSTART = 0x100000"

definition round_page :: "u32 \<Rightarrow> u32" where
  "round_page x = (x + (PAGE_SIZE - 1)) AND NOT (PAGE_SIZE - 1)"

definition trunc_page :: "u32 \<Rightarrow> u32" where
  "trunc_page x = x AND NOT (PAGE_SIZE - 1)"

record physmem =
  bmk_membase :: u32
  bmk_memsize :: u32
  current :: u32

definition bmk_allocpg :: "'a physmem_scheme \<Rightarrow> u32 \<Rightarrow> 'a physmem_scheme \<times> u32" where
  "bmk_allocpg st howmany =
     (let rv = bmk_membase st + PAGE_SIZE * current st;
          st = st\<lparr>current := current st + howmany\<rparr>
      in if current st * PAGE_SIZE > bmk_memsize st then (st, 0) else (st, rv))"

section \<open>The memory map\<close>

definition load64 :: "memory \<Rightarrow> u32 \<Rightarrow> u64" where
  "load64 m a = ucast (load32 m a) OR push_bit 32 (ucast (load32 m (a + 4)))"

text \<open>\<^verbatim>\<open>struct multiboot_mmap_entry\<close> is packed: size at 0, addr at 4, len at 12, type at 20.\<close>

record multiboot_mmap_entry =
  mbm_size :: u32
  mbm_addr :: u64
  mbm_len :: u64
  mbm_type :: u32

definition MULTIBOOT_MEMORY_AVAILABLE :: u32 where "MULTIBOOT_MEMORY_AVAILABLE = 1"

definition mmap_entry :: "memory \<Rightarrow> u32 \<Rightarrow> multiboot_mmap_entry" where
  "mmap_entry m a = \<lparr>mbm_size = load32 m a, mbm_addr = load64 m (a + 4),
     mbm_len = load64 m (a + 12), mbm_type = load32 m (a + 20)\<rparr>"

text \<open>The entry the search stops at.\<close>

definition our_memory :: "multiboot_mmap_entry \<Rightarrow> bool" where
  "our_memory mbm \<longleftrightarrow> mbm_addr mbm = ucast MEMSTART \<and> mbm_type mbm = MULTIBOOT_MEMORY_AVAILABLE"

partial_function (option) parsemem_scan :: "memory \<Rightarrow> u32 \<Rightarrow> u32 \<Rightarrow> u32 \<Rightarrow> u32 option" where
  "parsemem_scan m addr len off =
     (if off < len then
        (let mbm = mmap_entry m (addr + off)
         in if our_memory mbm then Some off
            else parsemem_scan m addr len (off + (mbm_size mbm + 4)))
      else Some off)"

definition parsemem ::
  "memory \<Rightarrow> u32 \<Rightarrow> u32 \<Rightarrow> 'a physmem_scheme \<Rightarrow> u32 \<Rightarrow> u32 \<Rightarrow> 'a physmem_scheme outcome option" where
  "parsemem m begin_sym end_sym st addr len =
     map_option (\<lambda>off.
       if off < len then
         (let mbm = mmap_entry m (addr + off);
              memsize = ucast (mbm_len mbm);
              osbegin = begin_sym;
              osend = round_page end_sym;
              ossize = osend - osbegin
          in Returns (st\<lparr>bmk_membase := ucast (mbm_addr mbm + ucast ossize),
                         bmk_memsize := memsize - ossize\<rparr>))
       else Halts (AssertFail ''off < len''))
     (parsemem_scan m addr len 0)"

section \<open>The console\<close>

definition CONS_WIDTH :: int where "CONS_WIDTH = 80"
definition CONS_HEIGHT :: int where "CONS_HEIGHT = 25"
definition CONS_MAGENTA :: u32 where "CONS_MAGENTA = 0x500"

text \<open>The cells of \<^verbatim>\<open>cons_buf\<close> and the static cursor of \<^verbatim>\<open>bmk_cons_putc\<close>.\<close>

record cons =
  cons_buf :: "int \<Rightarrow> u16"
  cons_x :: int
  cons_y :: int

definition cons_putat :: "u32 \<Rightarrow> int \<Rightarrow> int \<Rightarrow> cons \<Rightarrow> cons" where
  "cons_putat c x y s = s\<lparr>cons_buf := (cons_buf s)(x + y * CONS_WIDTH := ucast (CONS_MAGENTA OR c))\<rparr>"

definition cons_copy_up :: "nat \<Rightarrow> cons \<Rightarrow> cons" where
  "cons_copy_up x s = s\<lparr>cons_buf := (cons_buf s)(int x := cons_buf s (int x + CONS_WIDTH))\<rparr>"

definition cons_scroll :: "cons \<Rightarrow> cons" where
  "cons_scroll s = fold cons_copy_up [0..<nat ((CONS_HEIGHT - 1) * CONS_WIDTH)] s"

definition cons_clear_at :: "nat \<Rightarrow> cons \<Rightarrow> cons" where
  "cons_clear_at x s = cons_putat 32 (int x) (cons_y s) s"

definition cons_clear_line :: "cons \<Rightarrow> cons" where
  "cons_clear_line s = fold cons_clear_at [0..<nat CONS_WIDTH] s"

definition bmk_cons_putc :: "u32 \<Rightarrow> cons \<Rightarrow> cons" where
  "bmk_cons_putc c s =
     (let (s, doclear) =
            (if c = 10 then (s\<lparr>cons_x := 0, cons_y := cons_y s + 1\<rparr>, True)
             else if c = 13 then (s\<lparr>cons_x := 0\<rparr>, False)
             else ((cons_putat c (cons_x s) (cons_y s) s)\<lparr>cons_x := cons_x s + 1\<rparr>, False));
          (s, doclear) =
            (if cons_x s = CONS_WIDTH then (s\<lparr>cons_x := 0, cons_y := cons_y s + 1\<rparr>, True)
             else (s, doclear));
          s = (if cons_y s = CONS_HEIGHT then cons_scroll (s\<lparr>cons_y := cons_y s - 1\<rparr>) else s)
      in if doclear then cons_clear_line s else s)"

partial_function (option) bmk_cons_puts :: "memory \<Rightarrow> u32 \<Rightarrow> cons \<Rightarrow> cons option" where
  "bmk_cons_puts m str s =
     (if m str \<noteq> 0 then bmk_cons_puts m (str + 1) (bmk_cons_putc (scast (m str)) s) else Some s)"

definition bmk_init :: "cons \<Rightarrow> cons" where
  "bmk_init s =
     fold (\<lambda>x. cons_putat 32 (int x mod CONS_WIDTH) (int x div CONS_WIDTH))
       [0..<nat (CONS_HEIGHT * CONS_WIDTH)] s"

lemmas cons_consts = CONS_WIDTH_def CONS_HEIGHT_def CONS_MAGENTA_def

section \<open>Page arithmetic\<close>

lemma page_mask: "PAGE_SIZE - 1 = 2 ^ 12 - 1"
  by (simp add: PAGE_SIZE_def)

lemma trunc_page_unat: "unat (trunc_page x) = unat x - unat x mod 4096"
  unfolding trunc_page_def page_mask using and_not_pow2_minus [of 12 x] by simp

lemma round_page_unat:
  assumes "unat x + 4095 < 2 ^ 32"
  shows "unat (round_page x) = (unat x + 4095) div 4096 * 4096"
proof -
  have "unat (x + (PAGE_SIZE - 1)) = unat x + 4095"
    using assms by (subst unat_add_no_wrap) (auto simp: PAGE_SIZE_def)
  then show ?thesis
    unfolding round_page_def page_mask using and_not_pow2_minus [of 12 "x + (2 ^ 12 - 1)"]
    by (simp add: PAGE_SIZE_def minus_mod_eq_div_mult)
qed

lemma round_page_bounds:
  assumes "unat x + 4095 < 2 ^ 32"
  shows "4096 dvd unat (round_page x)" "unat x \<le> unat (round_page x)" "unat (round_page x) < unat x + 4096"
  using assms by (auto simp: round_page_unat)

section \<open>The page allocator\<close>

text \<open>
  The free memory the kernel is left with after \<^verbatim>\<open>parsemem\<close>: page aligned, not at address zero,
  and ending before the end of the address space.
\<close>

definition physmem_ok :: "'a physmem_scheme \<Rightarrow> bool" where
  "physmem_ok st \<longleftrightarrow> 0 < unat (bmk_membase st) \<and> 4096 dvd unat (bmk_membase st) \<and>
     unat (bmk_membase st) + unat (bmk_memsize st) < 2 ^ 32"

lemma unat_pages: "unat n < 2 ^ 20 \<Longrightarrow> unat (PAGE_SIZE * n) = 4096 * unat n"
  by (simp add: PAGE_SIZE_def unat_word_ariths)

lemma bmk_allocpg_cases:
  assumes ok: "physmem_ok st" and lt: "unat (current st) + unat n < 2 ^ 20"
  shows "bmk_allocpg st n =
    (if 4096 * (unat (current st) + unat n) \<le> unat (bmk_memsize st)
     then (st\<lparr>current := current st + n\<rparr>, bmk_membase st + PAGE_SIZE * current st)
     else (st\<lparr>current := current st + n\<rparr>, 0))"
proof -
  have "unat (current st + n) = unat (current st) + unat n"
    using lt by (intro unat_add_no_wrap) simp
  then show ?thesis
    using lt unat_pages [of "current st + n"]
    by (auto simp: bmk_allocpg_def word_less_nat_alt mult.commute)
qed

lemma bmk_allocpg_page:
  assumes ok: "physmem_ok st" and lt: "unat (current st) + unat n < 2 ^ 20"
    and n: "0 < unat n" and rv: "bmk_allocpg st n = (st', rv)" "rv \<noteq> 0"
  shows "unat rv = unat (bmk_membase st) + 4096 * unat (current st)"
    and "4096 * (unat (current st) + unat n) \<le> unat (bmk_memsize st)"
proof -
  show le: "4096 * (unat (current st) + unat n) \<le> unat (bmk_memsize st)"
    using rv bmk_allocpg_cases [OF ok lt] by (auto split: if_splits)
  have "unat (PAGE_SIZE * current st) = 4096 * unat (current st)" using lt by (intro unat_pages) simp
  then show "unat rv = unat (bmk_membase st) + 4096 * unat (current st)"
    using rv bmk_allocpg_cases [OF ok lt] le ok n
    by (auto simp: physmem_ok_def unat_add_no_wrap split: if_splits)
qed

text \<open>The results of a sequence of requests, each with the number of pages it asked for.\<close>

fun allocpg_seq :: "'a physmem_scheme \<Rightarrow> u32 list \<Rightarrow> (u32 \<times> u32) list" where
  "allocpg_seq st [] = []"
| "allocpg_seq st (n # ns) = (case bmk_allocpg st n of (st', rv) \<Rightarrow> (rv, n) # allocpg_seq st' ns)"

definition granted :: "(u32 \<times> u32) list \<Rightarrow> (u32 \<times> u32) list" where
  "granted = filter (\<lambda>(rv, n). rv \<noteq> 0)"

definition within_pages :: "'a physmem_scheme \<Rightarrow> u32 \<times> u32 \<Rightarrow> bool" where
  "within_pages st p \<longleftrightarrow> (case p of (rv, n) \<Rightarrow>
     unat (bmk_membase st) + 4096 * unat (current st) \<le> unat rv \<and> 4096 dvd unat rv \<and>
     unat rv + 4096 * unat n \<le> unat (bmk_membase st) + unat (bmk_memsize st))"

definition below_pages :: "u32 \<times> u32 \<Rightarrow> u32 \<times> u32 \<Rightarrow> bool" where
  "below_pages p q \<longleftrightarrow> unat (fst p) + 4096 * unat (snd p) \<le> unat (fst q)"

lemma bmk_allocpg_advances:
  assumes "unat (current st) + unat n < 2 ^ 20" "bmk_allocpg st n = (st', rv)"
  shows "unat (current st') = unat (current st) + unat n" "bmk_membase st' = bmk_membase st"
    "bmk_memsize st' = bmk_memsize st"
  using assms by (auto simp: bmk_allocpg_def Let_def unat_add_no_wrap split: if_splits)

lemma allocpg_seq_granted:
  assumes "physmem_ok st" "unat (current st) + sum_list (map unat ns) < 2 ^ 20" "0 \<notin> set ns"
  shows "list_all (within_pages st) (granted (allocpg_seq st ns)) \<and>
    sorted_wrt below_pages (granted (allocpg_seq st ns))"
  using assms
proof (induction ns arbitrary: st)
  case Nil
  show ?case by (simp add: granted_def)
next
  case (Cons n ns)
  obtain st' rv where a: "bmk_allocpg st n = (st', rv)" by fastforce
  have lt: "unat (current st) + unat n < 2 ^ 20" using Cons.prems(2) by simp
  note adv = bmk_allocpg_advances [OF lt a]
  have n: "0 < unat n" using Cons.prems(3) unat_0_less [of n] by auto
  have IH: "list_all (within_pages st') (granted (allocpg_seq st' ns)) \<and>
      sorted_wrt below_pages (granted (allocpg_seq st' ns))"
    using Cons.prems adv by (intro Cons.IH) (auto simp: physmem_ok_def)
  have "within_pages st' p \<Longrightarrow> within_pages st p" for p
    using adv by (auto simp: within_pages_def)
  then have rest: "list_all (within_pages st) (granted (allocpg_seq st' ns))"
    using IH by (auto simp: list_all_iff)
  show ?case
  proof (cases "rv = 0")
    case True
    then show ?thesis using a IH rest by (simp add: granted_def)
  next
    case False
    note pg = bmk_allocpg_page [OF Cons.prems(1) lt n a False]
    have "within_pages st (rv, n)" using pg Cons.prems(1) by (auto simp: within_pages_def physmem_ok_def)
    moreover have "list_all (below_pages (rv, n)) (granted (allocpg_seq st' ns))"
      using IH pg(1) adv by (auto simp: list_all_iff within_pages_def below_pages_def)
    ultimately show ?thesis
      using a IH rest False by (simp add: granted_def list_all_iff)
  qed
qed

text \<open>
  For any sequence of requests that together ask for fewer than $2^{20}$ pages, the ranges
  \<^verbatim>\<open>bmk_allocpg\<close> grants are page aligned, inside the memory the kernel manages, and each lies
  after all the ranges granted before it, so no page is handed out twice.
\<close>

theorem bmk_allocpg_disjoint:
  assumes "physmem_ok st" "unat (current st) + sum_list (map unat ns) < 2 ^ 20" "0 \<notin> set ns"
  shows "list_all (within_pages st) (granted (allocpg_seq st ns)) \<and>
    sorted_wrt below_pages (granted (allocpg_seq st ns))"
  using assms by (rule allocpg_seq_granted)

definition sample_physmem :: physmem where
  "sample_physmem = \<lparr>bmk_membase = 0x200000, bmk_memsize = 0x1000000, current = 0\<rparr>"

theorem bmk_allocpg_disjoint_witness:
  "allocpg_seq sample_physmem [2, 0x1000, 1] = [(0x200000, 2), (0, 0x1000), (0, 1)] \<and>
   list_all (within_pages sample_physmem) (granted (allocpg_seq sample_physmem [2, 0x1000, 1]))"
  using bmk_allocpg_disjoint [of sample_physmem "[2, 0x1000, 1]"]
  by (simp add: sample_physmem_def physmem_ok_def bmk_allocpg_def PAGE_SIZE_def Let_def)

text \<open>
  The page counter grows on failed requests too and its product with the page size wraps:
  with 16 MB of memory a request for $2^{20} - 1$ pages succeeds, and the next page handed out is
  the first page again.
\<close>

theorem bmk_allocpg_wraps:
  "allocpg_seq sample_physmem [1, 0xfffff, 1] = [(0x200000, 1), (0x201000, 0xfffff), (0x200000, 1)]"
  by (simp add: sample_physmem_def bmk_allocpg_def PAGE_SIZE_def Let_def)

section \<open>Finding the memory\<close>

text \<open>The map the boot loader leaves at \<open>p\<close>: entries one after the other, each preceded by its size.\<close>

fun mmap_at :: "memory \<Rightarrow> u32 \<Rightarrow> multiboot_mmap_entry list \<Rightarrow> bool" where
  "mmap_at m p [] = True"
| "mmap_at m p (e # es) \<longleftrightarrow> mmap_entry m p = e \<and> mmap_at m (p + (mbm_size e + 4)) es"

definition mmap_bytes :: "multiboot_mmap_entry list \<Rightarrow> nat" where
  "mmap_bytes es = sum_list (map (\<lambda>e. unat (mbm_size e) + 4) es)"

lemma parsemem_scan_find:
  "mmap_at m (addr + off) es \<Longrightarrow> unat off + mmap_bytes es = unat len \<Longrightarrow>
   case find our_memory es of
     None \<Rightarrow> parsemem_scan m addr len off = Some len
   | Some e \<Rightarrow> \<exists>off'. parsemem_scan m addr len off = Some off' \<and> off' < len \<and> mmap_entry m (addr + off') = e"
proof (induction es arbitrary: off)
  case Nil
  then have "off = len" by (simp add: mmap_bytes_def word_unat_eq_iff)
  then show ?case by (simp add: parsemem_scan.simps)
next
  case (Cons e es)
  have lt: "off < len" using Cons.prems(2) by (simp add: mmap_bytes_def word_less_nat_alt)
  have e: "mmap_entry m (addr + off) = e" using Cons.prems(1) by simp
  show ?case
  proof (cases "our_memory e")
    case True
    then show ?thesis using lt e by (simp add: parsemem_scan.simps [of m addr len off])
  next
    case False
    have b: "unat off + (unat (mbm_size e) + 4) + mmap_bytes es = unat len"
      using Cons.prems(2) by (simp add: mmap_bytes_def)
    then have s: "unat (mbm_size e + 4) = unat (mbm_size e) + 4"
      using unsigned_less [of len, where 'a = nat] by (intro trans [OF unat_add_no_wrap]) auto
    have o: "unat (off + (mbm_size e + 4)) = unat off + (unat (mbm_size e) + 4)"
      using b s unsigned_less [of len, where 'a = nat] by (subst unat_add_no_wrap) auto
    have step: "parsemem_scan m addr len off = parsemem_scan m addr len (off + (mbm_size e + 4))"
      using lt e False by (simp add: parsemem_scan.simps [of m addr len off])
    show ?thesis
      unfolding step using Cons.IH [of "off + (mbm_size e + 4)"] Cons.prems(1) b o False
      by (simp add: add.assoc)
  qed
qed

lemma parsemem_find:
  assumes "mmap_at m addr es" "mmap_bytes es = unat len"
  shows "parsemem m begin_sym end_sym st addr len = Some (case find our_memory es of
      None \<Rightarrow> Halts (AssertFail ''off < len'')
    | Some mbm \<Rightarrow> Returns (st\<lparr>
        bmk_membase := ucast (mbm_addr mbm + ucast (round_page end_sym - begin_sym)),
        bmk_memsize := ucast (mbm_len mbm) - (round_page end_sym - begin_sym)\<rparr>))"
  using parsemem_scan_find [of m addr 0 es len] assms
  by (auto simp: parsemem_def Let_def split: option.splits)

lemma ucast_add_32: "(ucast (ucast a + ucast b :: u64) :: u32) = a + (b :: u32)"
  by transfer (simp add: take_bit_add)

lemma parsemem_chunk:
  assumes "mmap_at m addr es" "mmap_bytes es = unat len" "find our_memory es = Some mbm"
    and b: "unat end_sym + 4095 < 2 ^ 32" "unat MEMSTART < unat end_sym"
      "unat (round_page end_sym) \<le> unat MEMSTART + unat (mbm_len mbm)" "unat MEMSTART + unat (mbm_len mbm) < 2 ^ 32"
  obtains sz where "unat sz = unat MEMSTART + unat (mbm_len mbm) - unat (round_page end_sym)"
    "parsemem m MEMSTART end_sym st addr len =
       Some (Returns (st\<lparr>bmk_membase := round_page end_sym, bmk_memsize := sz\<rparr>))"
proof -
  have mbm: "mbm_addr mbm = ucast MEMSTART" using assms(3) by (auto simp: find_Some_iff our_memory_def)
  note r = round_page_bounds [OF b(1)]
  define len32 :: u32 where "len32 = ucast (mbm_len mbm)"
  have len32: "unat len32 = unat (mbm_len mbm)"
    using b by (simp add: len32_def unsigned_ucast_eq MEMSTART_def take_bit_nat_eq_self_iff)
  have o: "unat (round_page end_sym - MEMSTART) = unat (round_page end_sym) - unat MEMSTART"
    using b r by (intro unat_sub_no_wrap) (auto simp: word_le_nat_alt)
  have s: "unat (len32 - (round_page end_sym - MEMSTART)) = unat len32 - (unat (round_page end_sym) - unat MEMSTART)"
    using b o len32 by (subst unat_sub_no_wrap) (auto simp: word_le_nat_alt)
  show thesis
    using that [of "len32 - (round_page end_sym - MEMSTART)"] parsemem_find [OF assms(1,2), of MEMSTART end_sym st] assms(3)
      mbm s len32 b r by (simp add: len32_def ucast_add_32)
qed

text \<open>
  On a well-formed memory map \<^verbatim>\<open>parsemem\<close> always returns. Without an available entry at
  \<^verbatim>\<open>MEMSTART\<close> the assertion fails; with one, and the kernel image linked at \<^verbatim>\<open>MEMSTART\<close>
  inside that chunk, the memory given to the page allocator starts at the first page after the
  image, ends where the chunk ends, and satisfies the allocator's requirements.
\<close>

theorem parsemem_establishes:
  assumes "mmap_at m addr es" "mmap_bytes es = unat len" "unat end_sym + 4095 < 2 ^ 32"
    and "\<And>mbm. find our_memory es = Some mbm \<Longrightarrow> unat MEMSTART < unat end_sym \<and>
      unat (round_page end_sym) \<le> unat MEMSTART + unat (mbm_len mbm) \<and>
      unat MEMSTART + unat (mbm_len mbm) < 2 ^ 32"
  shows "case find our_memory es of
      None \<Rightarrow> parsemem m MEMSTART end_sym st addr len = Some (Halts (AssertFail ''off < len''))
    | Some mbm \<Rightarrow> \<exists>st'. parsemem m MEMSTART end_sym st addr len = Some (Returns st') \<and>
        bmk_membase st' = round_page end_sym \<and> current st' = current st \<and> physmem_ok st' \<and>
        unat (bmk_membase st') + unat (bmk_memsize st') = unat MEMSTART + unat (mbm_len mbm)"
proof (cases "find our_memory es")
  case None
  then show ?thesis using parsemem_find [OF assms(1,2)] by simp
next
  case (Some mbm)
  note b = assms(4) [OF Some] and r = round_page_bounds [OF assms(3)]
  obtain sz where "unat sz = unat MEMSTART + unat (mbm_len mbm) - unat (round_page end_sym)"
    "parsemem m MEMSTART end_sym st addr len = Some (Returns (st\<lparr>bmk_membase := round_page end_sym, bmk_memsize := sz\<rparr>))"
    using parsemem_chunk [OF assms(1,2) Some assms(3)] b by blast
  then show ?thesis using Some b r by (auto simp: physmem_ok_def)
qed

definition sample_mmap :: memory where
  "sample_mmap = write_bytes (\<lambda>_. 0) 0x500
     [20, 0, 0, 0,  0, 0, 0x10, 0, 0, 0, 0, 0,  0, 0, 0, 1, 0, 0, 0, 0,  1, 0, 0, 0]"

theorem parsemem_establishes_witness:
  "\<exists>st'. parsemem sample_mmap MEMSTART 0x123456 sample_physmem 0x500 24 = Some (Returns st') \<and>
     bmk_membase st' = 0x124000 \<and> physmem_ok st'"
proof -
  have e: "mmap_entry sample_mmap 0x500 =
      \<lparr>mbm_size = 20, mbm_addr = 0x100000, mbm_len = 0x1000000, mbm_type = 1\<rparr>"
    by (simp add: mmap_entry_def sample_mmap_def load32_def load64_def)
  let ?es = "[mmap_entry sample_mmap 0x500]"
  have f: "find our_memory ?es = Some (mmap_entry sample_mmap 0x500)"
    by (simp add: e our_memory_def MEMSTART_def MULTIBOOT_MEMORY_AVAILABLE_def)
  have r: "round_page 0x123456 = 0x124000" by (simp add: round_page_def PAGE_SIZE_def)
  show ?thesis
    using parsemem_establishes [of sample_mmap "0x500" ?es 24 "0x123456" sample_physmem] f
    by (simp add: e r mmap_bytes_def MEMSTART_def) blast
qed

section \<open>The console stays on the screen\<close>

definition on_screen :: "cons \<Rightarrow> bool" where
  "on_screen s \<longleftrightarrow> 0 \<le> cons_x s \<and> cons_x s < CONS_WIDTH \<and> 0 \<le> cons_y s \<and> cons_y s < CONS_HEIGHT"

text \<open>The cell at column \<open>x\<close> of line \<open>y\<close>.\<close>

definition cell :: "cons \<Rightarrow> int \<Rightarrow> int \<Rightarrow> u16" where
  "cell s x y = cons_buf s (x + y * CONS_WIDTH)"

lemma cons_copy_up_simps [simp]:
  "cons_x (cons_copy_up n s) = cons_x s" "cons_y (cons_copy_up n s) = cons_y s"
  "cons_buf (cons_copy_up n s) i = (if i = int n then cons_buf s (i + 80) else cons_buf s i)"
  by (simp_all add: cons_copy_up_def CONS_WIDTH_def)

lemma cons_clear_at_simps [simp]:
  "cons_x (cons_clear_at n s) = cons_x s" "cons_y (cons_clear_at n s) = cons_y s"
  "cons_buf (cons_clear_at n s) i = (if i = int n + cons_y s * 80 then 0x520 else cons_buf s i)"
  by (simp_all add: cons_clear_at_def cons_putat_def cons_consts)

lemma fold_copy_up:
  "cons_x (fold cons_copy_up [0..<n] s) = cons_x s" "cons_y (fold cons_copy_up [0..<n] s) = cons_y s"
  "cons_buf (fold cons_copy_up [0..<n] s) i =
     (if 0 \<le> i \<and> i < int n then cons_buf s (i + 80) else cons_buf s i)"
  by (induction n arbitrary: i) auto

lemma fold_clear_at:
  "cons_x (fold cons_clear_at [0..<n] s) = cons_x s" "cons_y (fold cons_clear_at [0..<n] s) = cons_y s"
  "cons_buf (fold cons_clear_at [0..<n] s) i =
     (if cons_y s * 80 \<le> i \<and> i < int n + cons_y s * 80 then 0x520 else cons_buf s i)"
  by (induction n arbitrary: i) auto

lemma cons_scroll_simps [simp]:
  "cons_x (cons_scroll s) = cons_x s" "cons_y (cons_scroll s) = cons_y s"
  "cons_buf (cons_scroll s) i = (if 0 \<le> i \<and> i < 1920 then cons_buf s (i + 80) else cons_buf s i)"
  unfolding cons_scroll_def fold_copy_up cons_consts by simp_all

lemma cons_clear_line_simps [simp]:
  "cons_x (cons_clear_line s) = cons_x s" "cons_y (cons_clear_line s) = cons_y s"
  "cons_buf (cons_clear_line s) i =
     (if cons_y s * 80 \<le> i \<and> i < 80 + cons_y s * 80 then 0x520 else cons_buf s i)"
  unfolding cons_clear_line_def fold_clear_at cons_consts by simp_all

lemma cons_putat_simps [simp]:
  "cons_x (cons_putat c x y s) = cons_x s" "cons_y (cons_putat c x y s) = cons_y s"
  "cons_buf (cons_putat c x y s) i = (if i = x + y * 80 then ucast (0x500 OR c) else cons_buf s i)"
  by (simp_all add: cons_putat_def cons_consts)

text \<open>The end of \<^verbatim>\<open>bmk_cons_putc\<close>, once the cursor has moved.\<close>

definition cons_settle :: "bool \<Rightarrow> cons \<Rightarrow> cons" where
  "cons_settle doclear s =
     (let s = (if cons_y s = CONS_HEIGHT then cons_scroll (s\<lparr>cons_y := cons_y s - 1\<rparr>) else s)
      in if doclear then cons_clear_line s else s)"

lemma putc_cases:
  "bmk_cons_putc c s =
    (if c = 10 then cons_settle True (s\<lparr>cons_x := 0, cons_y := cons_y s + 1\<rparr>)
     else if c = 13 then cons_settle False (s\<lparr>cons_x := 0\<rparr>)
     else if cons_x s = 79 then
       cons_settle True ((cons_putat c (cons_x s) (cons_y s) s)\<lparr>cons_x := 0, cons_y := cons_y s + 1\<rparr>)
     else cons_settle False ((cons_putat c (cons_x s) (cons_y s) s)\<lparr>cons_x := cons_x s + 1\<rparr>))"
  by (simp add: bmk_cons_putc_def cons_settle_def CONS_WIDTH_def)

lemma settle_cursor [simp]:
  "cons_x (cons_settle d s) = cons_x s"
  "cons_y (cons_settle d s) = (if cons_y s = 25 then 24 else cons_y s)"
  by (simp_all add: cons_settle_def CONS_HEIGHT_def)

lemma settle_buf:
  "cons_buf (cons_settle d s) i =
     (if cons_y s = 25
      then (if d \<and> 1920 \<le> i \<and> i < 2000 then 0x520
            else if 0 \<le> i \<and> i < 1920 then cons_buf s (i + 80) else cons_buf s i)
      else (if d \<and> cons_y s * 80 \<le> i \<and> i < 80 + cons_y s * 80 then 0x520 else cons_buf s i))"
  by (simp add: cons_settle_def CONS_HEIGHT_def)

lemma putc_on_screen: "on_screen s \<Longrightarrow> on_screen (bmk_cons_putc c s)"
  by (simp add: on_screen_def putc_cases cons_consts)

lemma putc_off_screen:
  assumes "on_screen s" "i < 0 \<or> 2000 \<le> i"
  shows "cons_buf (bmk_cons_putc c s) i = cons_buf s i"
proof -
  have y: "0 \<le> cons_y s" "cons_y s \<le> 24" and x: "0 \<le> cons_x s" "cons_x s \<le> 79"
    using assms(1) by (auto simp: on_screen_def cons_consts)
  have "i \<noteq> cons_x s + cons_y s * 80" using x y assms(2) by linarith
  moreover have "\<not> ((cons_y s + 1) * 80 \<le> i \<and> i < 80 + (cons_y s + 1) * 80)" if "cons_y s \<noteq> 24"
    using y that assms(2) by (cases "i < 0") auto
  ultimately show ?thesis
    using assms(2) y by (auto simp: putc_cases settle_buf)
qed

text \<open>
  Writing a string never leaves the screen: from a cursor inside it, \<^verbatim>\<open>bmk_cons_puts\<close> of any
  string returns with the cursor inside it, and no cell beyond the 80 by 25 buffer has changed.
\<close>

theorem bmk_cons_puts_on_screen:
  assumes "cstr m str xs" "on_screen s"
  shows "\<exists>s'. bmk_cons_puts m str s = Some s' \<and> on_screen s' \<and>
    (\<forall>i. i < 0 \<or> 2000 \<le> i \<longrightarrow> cons_buf s' i = cons_buf s i)"
  using assms
proof (induction xs arbitrary: str s)
  case Nil
  then show ?case by (simp add: bmk_cons_puts.simps)
next
  case (Cons x xs)
  let ?s = "bmk_cons_putc (scast x) s"
  have "cstr m (str + 1) xs" using Cons.prems(1) by simp
  from Cons.IH [OF this putc_on_screen [OF Cons.prems(2)], of "scast x"]
  obtain s' where "bmk_cons_puts m (str + 1) ?s = Some s'" "on_screen s'"
    "\<And>i. i < 0 \<or> 2000 \<le> i \<Longrightarrow> cons_buf s' i = cons_buf ?s i"
    by blast
  with Cons.prems putc_off_screen show ?case
    by (auto simp: bmk_cons_puts.simps [of m str])
qed

theorem bmk_cons_puts_on_screen_witness:
  "\<exists>s'. bmk_cons_puts (write_bytes (\<lambda>_. 0) 16 [104, 10]) 16 \<lparr>cons_buf = (\<lambda>_. 0), cons_x = 79, cons_y = 24\<rparr>
     = Some s' \<and> on_screen s'"
  using bmk_cons_puts_on_screen [of "write_bytes (\<lambda>_. 0) 16 [104, 10]" 16 "[104, 10]"
      "\<lparr>cons_buf = (\<lambda>_. 0), cons_x = 79, cons_y = 24\<rparr>"]
  by (auto simp: on_screen_def cons_consts)

lemma cell_index_eq:
  assumes "0 \<le> x" "x < 80" "0 \<le> x'" "x' < (80 :: int)"
  shows "x + y * 80 = x' + y' * 80 \<longleftrightarrow> x = x' \<and> y = y'"
proof
  assume eq: "x + y * 80 = x' + y' * 80"
  have "(x + y * 80) div 80 = y" "(x' + y' * 80) div 80 = y'" using assms by simp_all
  with eq show "x = x' \<and> y = y'" by simp
qed simp

text \<open>
  A newline moves to the start of the next line and blanks it; on the last line every line
  moves up by one, the bottom line is blank and the cursor stays on it. A character that is not
  the last of its line changes its own cell only and moves the cursor right.
\<close>

theorem bmk_cons_putc_effect:
  assumes "on_screen s" "0 \<le> x" "x < CONS_WIDTH" "0 \<le> y" "y < CONS_HEIGHT"
  shows "cell (bmk_cons_putc 10 s) x y =
      (if cons_y s = CONS_HEIGHT - 1
       then (if y = CONS_HEIGHT - 1 then 0x520 else cell s x (y + 1))
       else (if y = cons_y s + 1 then 0x520 else cell s x y)) \<and>
    (cons_x s < CONS_WIDTH - 1 \<and> c \<noteq> 10 \<and> c \<noteq> 13 \<longrightarrow>
      cell (bmk_cons_putc c s) x y = (if x = cons_x s \<and> y = cons_y s then ucast (0x500 OR c) else cell s x y) \<and>
      cons_x (bmk_cons_putc c s) = cons_x s + 1 \<and> cons_y (bmk_cons_putc c s) = cons_y s)"
proof -
  have s: "0 \<le> cons_y s" "cons_y s \<le> 24" "0 \<le> cons_x s" "cons_x s \<le> 79"
    and xy: "0 \<le> x" "x \<le> 79" "0 \<le> y" "y \<le> 24"
    using assms by (auto simp: on_screen_def cons_consts)
  have "(cons_y s + 1) * 80 \<le> x + y * 80 \<and> x + y * 80 < 80 + (cons_y s + 1) * 80 \<longleftrightarrow> y = cons_y s + 1"
    using s xy by auto
  moreover have "1920 \<le> x + y * 80 \<longleftrightarrow> y = 24" "x + y * 80 < 2000" "x + y * 80 < 1920 \<longleftrightarrow> y \<noteq> 24"
    using xy by auto
  ultimately have nl: "cell (bmk_cons_putc 10 s) x y =
      (if cons_y s = 24 then (if y = 24 then 0x520 else cell s x (y + 1))
       else (if y = cons_y s + 1 then 0x520 else cell s x y))"
    using s xy by (auto simp: putc_cases settle_buf cell_def CONS_WIDTH_def algebra_simps)
  have "cell (bmk_cons_putc c s) x y = (if x = cons_x s \<and> y = cons_y s then ucast (0x500 OR c) else cell s x y)"
    if "cons_x s < 79" "c \<noteq> 10" "c \<noteq> 13"
    using s xy that cell_index_eq [of x "cons_x s" y "cons_y s"]
    by (simp add: putc_cases settle_buf cell_def CONS_WIDTH_def)
  moreover have "cons_x (bmk_cons_putc c s) = cons_x s + 1 \<and> cons_y (bmk_cons_putc c s) = cons_y s"
    if "cons_x s < 79" "c \<noteq> 10" "c \<noteq> 13"
    using s that by (simp add: putc_cases)
  ultimately show ?thesis using nl by (simp add: CONS_WIDTH_def CONS_HEIGHT_def)
qed

theorem bmk_cons_putc_effect_witness:
  "cell (bmk_cons_putc 10 \<lparr>cons_buf = (\<lambda>i. if i = 85 then 0x541 else 0), cons_x = 7, cons_y = 24\<rparr>) 5 0 = 0x541"
  using bmk_cons_putc_effect [of "\<lparr>cons_buf = (\<lambda>i. if i = 85 then 0x541 else 0), cons_x = 7, cons_y = 24\<rparr>" 5 0]
  by (simp add: on_screen_def cons_consts cell_def)

end
