(* ===== verification/Memalloc.thy ===== *)
theory Memalloc
  imports Kernel
begin

text \<open>
  The kernel allocator of \<^verbatim>\<open>memalloc.c\<close>: power-of-two buckets with free lists threaded through
  the free blocks, on the flat memory. Free and live blocks, headers and client data all live in
  the same byte memory, so that corruption would be visible. The statistics and range-checking
  code under \<^verbatim>\<open>MSTATS\<close>, \<^verbatim>\<open>RCHECK\<close> and \<^verbatim>\<open>MEMALLOC_TESTING\<close> is not compiled into the
  kernel.
\<close>

section \<open>State and operations\<close>

text \<open>
  \<^verbatim>\<open>union overhead\<close> takes eight bytes on i386: \<^verbatim>\<open>ov_next\<close> and \<^verbatim>\<open>ov_alignpad\<close> share the
  word at offset 0, \<^verbatim>\<open>ov_magic\<close> is the byte at 4 and \<^verbatim>\<open>ov_index\<close> the byte at 5.
\<close>

definition MINSHIFT :: nat where "MINSHIFT = 5"
definition NBUCKETS :: nat where "NBUCKETS = 30"
definition MAGIC :: u8 where "MAGIC = 0xef"
definition sizeof_overhead :: u32 where "sizeof_overhead = 8"

lemmas memalloc_consts = MINSHIFT_def NBUCKETS_def MAGIC_def sizeof_overhead_def

record heap = physmem +
  mem :: memory
  nextf :: "nat \<Rightarrow> u32"
  pagesz :: u32
  pagebucket :: nat

text \<open>How often a word can be doubled before it vanishes: the measure of the doubling loops.\<close>

definition doublings :: "u32 \<Rightarrow> nat" where
  "doublings w = (LEAST k. push_bit k w = 0)"

lemma doublings_decrease: "w \<noteq> 0 \<Longrightarrow> doublings (push_bit 1 w) < doublings w"
proof -
  assume w: "w \<noteq> 0"
  have ex: "push_bit 32 w = 0" by (rule bit_eqI) (auto simp: bit_simps)
  have z: "push_bit (doublings w) w = 0" unfolding doublings_def using ex by (rule LeastI)
  with w have "doublings w \<noteq> 0" by (metis push_bit_of_0 push_bit_0_id id_apply)
  then obtain k where k: "doublings w = Suc k" by (cases "doublings w") auto
  with z have "push_bit k (push_bit 1 w) = 0" by (simp add: push_bit_push_bit)
  then have "doublings (push_bit 1 w) \<le> k" unfolding doublings_def by (rule Least_le)
  with k show ?thesis by simp
qed

text \<open>
  The loop that computes \<^verbatim>\<open>pagebucket\<close>. It doubles \<^verbatim>\<open>amt\<close> until it reaches the page size; a
  zero \<^verbatim>\<open>amt\<close>, on which the C loop would not end, is not reached from \<^verbatim>\<open>1<<MINSHIFT\<close>.
\<close>

function pagebucket_loop :: "u32 \<Rightarrow> nat \<Rightarrow> nat" where
  "pagebucket_loop amt bucket =
     (if PAGE_SIZE > amt \<and> amt \<noteq> 0 then pagebucket_loop (push_bit 1 amt) (bucket + 1) else bucket)"
  by auto
termination by (relation "measure (\<lambda>(amt, bucket). doublings amt)") (use doublings_decrease in \<open>auto simp del: push_bit_Suc\<close>)

declare pagebucket_loop.simps [simp del]

text \<open>The loop that finds the bucket; \<open>None\<close> is the return of \<^verbatim>\<open>NULL\<close> when \<^verbatim>\<open>amt\<close> overflows.\<close>

function bucket_loop :: "u32 \<Rightarrow> u32 \<Rightarrow> nat \<Rightarrow> nat option" where
  "bucket_loop allocbytes amt bucket =
     (if allocbytes > amt then
        (let amt = push_bit 1 amt
         in if amt = 0 then None else bucket_loop allocbytes amt (bucket + 1))
      else Some bucket)"
  by auto
termination
proof (relation "measure (\<lambda>(allocbytes, amt, bucket). doublings amt)", goal_cases)
  case (2 allocbytes amt bucket x)
  then have "amt \<noteq> 0" by auto
  then show ?case using 2 doublings_decrease [of amt] by simp
qed simp

declare bucket_loop.simps [simp del]

definition corealloc :: "'a physmem_scheme \<Rightarrow> nat \<Rightarrow> 'a physmem_scheme \<times> u32" where
  "corealloc st shift = bmk_allocpg st (push_bit shift 1)"

text \<open>\<^verbatim>\<open>while (--nblks > 0)\<close>, with the number of iterations left.\<close>

fun morecore_loop :: "nat \<Rightarrow> u32 \<Rightarrow> memory \<Rightarrow> u32 \<Rightarrow> memory \<times> u32" where
  "morecore_loop 0 sz m op = (m, op)"
| "morecore_loop (Suc k) sz m op =
     (let m = store32 m op (op + sz) in morecore_loop k sz m (load32 m op))"

definition morecore :: "nat \<Rightarrow> heap \<Rightarrow> heap" where
  "morecore bucket st =
     (let (amt, nblks, sz) =
            (if bucket < pagebucket st then
               (let nblks = pagesz st div push_bit (bucket + MINSHIFT) 1
                in (0, nblks, pagesz st div nblks))
             else (bucket - pagebucket st, 1, 0));
          (st, op) = corealloc st amt
      in if op = 0 then st
         else
           (let st = st\<lparr>nextf := (nextf st)(bucket := op)\<rparr>;
                (m, op) = morecore_loop (unat nblks - 1) sz (mem st) op
            in st\<lparr>mem := store32 m op 0\<rparr>))"

text \<open>The three parts of \<^verbatim>\<open>bmk_memalloc\<close>: first use, choice of the bucket, and taking a block.\<close>

definition memalloc_init :: "heap \<Rightarrow> heap" where
  "memalloc_init st =
     (if pagesz st = 0
      then st\<lparr>pagesz := PAGE_SIZE, pagebucket := pagebucket_loop (push_bit MINSHIFT 1) 0\<rparr>
      else st)"

definition memalloc_bucket :: "heap \<Rightarrow> u32 \<Rightarrow> u32 \<Rightarrow> nat option" where
  "memalloc_bucket st nbytes align =
     (let allocbytes = nbytes + ((sizeof_overhead + (align - 1)) AND NOT (align - 1));
          (amt, bucket) = (if allocbytes \<le> pagesz st then (push_bit MINSHIFT 1, 0)
                           else (pagesz st, pagebucket st))
      in bucket_loop allocbytes amt bucket)"

definition memalloc_take :: "heap \<Rightarrow> nat \<Rightarrow> u32 \<Rightarrow> heap \<times> u32" where
  "memalloc_take st bucket align =
     (let st = (if nextf st bucket = 0 then morecore bucket st else st);
          op = nextf st bucket
      in if op = 0 then (st, 0)
         else
           (let st = st\<lparr>nextf := (nextf st)(bucket := load32 (mem st) op)\<rparr>;
                rv = (op + sizeof_overhead + align - 1) AND NOT (align - 1);
                alignpad = rv - op;
                op = rv - sizeof_overhead;
                m = (mem st)(op + 4 := MAGIC, op + 5 := of_nat bucket)
            in (st\<lparr>mem := store32 m op alignpad\<rparr>, rv)))"

definition bmk_memalloc :: "heap \<Rightarrow> u32 \<Rightarrow> u32 \<Rightarrow> heap \<times> u32" where
  "bmk_memalloc st nbytes align =
     (let st = memalloc_init st
      in if align AND (align - 1) \<noteq> 0 then (st, 0)
         else
           (let align = (if align < 4 then 4 else align)
            in case memalloc_bucket st nbytes align of
                 None \<Rightarrow> (st, 0)
               | Some bucket \<Rightarrow> memalloc_take st bucket align))"

definition bmk_xmalloc :: "heap \<Rightarrow> u32 \<Rightarrow> (heap \<times> u32) outcome" where
  "bmk_xmalloc st howmuch =
     (case bmk_memalloc st howmuch 0 of
        (st, rv) \<Rightarrow> if rv = 0 then Halts (Panic ''xmalloc failed'') else Returns (st, rv))"

definition bmk_memfree :: "heap \<Rightarrow> u32 \<Rightarrow> heap outcome" where
  "bmk_memfree st cp =
     (if cp = 0 then Returns st
      else
        (let op = cp - sizeof_overhead
         in if mem st (op + 4) \<noteq> MAGIC then Returns st
            else
              (let size = unat (mem st (op + 5));
                   alignpad = load32 (mem st) op
               in if \<not> size < NBUCKETS then Halts (AssertFail ''size < NBUCKETS'')
                  else
                    (let origp = cp - alignpad
                     in Returns (st\<lparr>mem := store32 (mem st) origp (nextf st size),
                                    nextf := (nextf st)(size := origp)\<rparr>)))))"

definition bmk_memrealloc :: "heap \<Rightarrow> u32 \<Rightarrow> u32 \<Rightarrow> (heap \<times> u32) outcome" where
  "bmk_memrealloc st cp nbytes =
     (if cp = 0 then Returns (bmk_memalloc st nbytes 8)
      else if nbytes = 0 then bind_outcome (bmk_memfree st cp) (\<lambda>st. Returns (st, 0))
      else
        (let op = cp - sizeof_overhead;
             size = unat (mem st (op + 5));
             alignpad = load32 (mem st) op;
             room = push_bit (size + MINSHIFT) 1 - (alignpad + sizeof_overhead)
         in if room \<ge> nbytes then Returns (st, cp)
            else
              (case bmk_memalloc st nbytes 8 of (st, np) \<Rightarrow>
                 if np = 0 then Returns (st, 0)
                 else
                   (let st = st\<lparr>mem := fst (bmk_memcpy (mem st) np cp room)\<rparr>
                    in bind_outcome (bmk_memfree st cp) (\<lambda>st. Returns (st, np))))))"

section \<open>Buckets and alignment\<close>

text \<open>The size in bytes of the blocks of a bucket, and the smallest bucket for a number of bytes.\<close>

definition bsize :: "nat \<Rightarrow> nat" where
  "bsize b = 2 ^ (b + 5)"

definition bucket_for :: "nat \<Rightarrow> nat" where
  "bucket_for n = (LEAST b. n \<le> bsize b)"

lemma unat_pow2: "k < 32 \<Longrightarrow> unat (2 ^ k :: u32) = 2 ^ k"
  by (simp add: unat_exp)

lemma push_bit_one [simp]: "push_bit k (1 :: u32) = 2 ^ k"
  by (simp add: push_bit_eq_mult)

lemma push_bit_pow2: "push_bit 1 (2 ^ k :: u32) = 2 ^ Suc k"
  by (simp add: push_bit_eq_mult)

lemma pow2_nonzero: "k < 32 \<Longrightarrow> (2 ^ k :: u32) \<noteq> 0"
  using unat_pow2 [of k] by (metis power_not_zero unat_0 zero_neq_numeral)

lemma bucket_loop_step:
  assumes "k < 26" "2 ^ (k + 5) < n"
  shows "bucket_loop n (2 ^ (k + 5)) k = bucket_loop n (2 ^ (Suc k + 5)) (Suc k)"
proof -
  have "(2 ^ (Suc k + 5) :: u32) \<noteq> 0" using assms(1) by (intro pow2_nonzero) simp
  moreover have "push_bit 1 (2 ^ (k + 5) :: u32) = 2 ^ (Suc k + 5)" using push_bit_pow2 [of "k + 5"] by simp
  ultimately show ?thesis
    unfolding bucket_loop.simps [of n "2 ^ (k + 5)"] using assms(2) by (simp only: Let_def if_True if_False Suc_eq_plus1)
qed

lemma bucket_loop_returns:
  assumes "k \<le> 26" "unat n \<le> 2 ^ 31"
  shows "\<exists>b. bucket_loop n (2 ^ (k + 5)) k = Some b \<and> k \<le> b \<and> b \<le> 26 \<and> unat n \<le> bsize b \<and>
    (b = k \<or> bsize (b - 1) < unat n)"
  using assms
proof (induction "26 - k" arbitrary: k)
  case 0
  then have "k = 26" by simp
  moreover have "\<not> 2 ^ (26 + 5) < n" using 0 by (simp add: word_less_nat_alt)
  ultimately show ?case
    using 0 by (simp add: bucket_loop.simps [of n] bsize_def)
next
  case (Suc j)
  have k: "unat (2 ^ (k + 5) :: u32) = 2 ^ (k + 5)" using Suc.prems(1) by (intro unat_pow2) simp
  show ?case
  proof (cases "2 ^ (k + 5) < n")
    case True
    have "j = 26 - Suc k" "Suc k \<le> 26" using Suc.hyps(2) by auto
    from Suc.hyps(1) [OF this Suc.prems(2)]
    obtain b where "bucket_loop n (2 ^ (Suc k + 5)) (Suc k) = Some b" "Suc k \<le> b" "b \<le> 26"
        "unat n \<le> bsize b" "b = Suc k \<or> bsize (b - 1) < unat n" by blast
    moreover have "bsize k < unat n" using True k by (simp add: word_less_nat_alt bsize_def)
    ultimately show ?thesis using bucket_loop_step [OF _ True] \<open>Suc k \<le> 26\<close> by auto
  next
    case False
    then have "bucket_loop n (2 ^ (k + 5)) k = Some k" by (simp add: bucket_loop.simps [of n "2 ^ (k + 5)"])
    moreover have "unat n \<le> bsize k" using False k by (simp add: word_less_nat_alt bsize_def not_less)
    ultimately show ?thesis using Suc.prems(1) by auto
  qed
qed

lemma bucket_loop_overflow:
  assumes "k \<le> 26" "2 ^ 31 < unat n"
  shows "bucket_loop n (2 ^ (k + 5)) k = None"
  using assms
proof (induction "26 - k" arbitrary: k)
  case 0
  then have k: "k = 26" by simp
  have "(2 ^ 31 :: u32) < n" using 0 by (simp add: word_less_nat_alt)
  then show ?case unfolding k by (simp add: bucket_loop.simps [of n])
next
  case (Suc j)
  have k: "unat (2 ^ (k + 5) :: u32) = 2 ^ (k + 5)" using Suc.prems(1) by (intro unat_pow2) simp
  have "(2 :: nat) ^ (k + 5) \<le> 2 ^ 31" using Suc.prems(1) by (intro power_increasing) auto
  then have "2 ^ (k + 5) < n" using k Suc.prems(2) by (simp add: word_less_nat_alt)
  moreover have "j = 26 - Suc k" "Suc k \<le> 26" using Suc.hyps(2) by auto
  ultimately show ?case using Suc.hyps(1) [of "Suc k"] Suc.prems(2) bucket_loop_step [of k n] by simp
qed

lemma bsize_mono: "b \<le> c \<Longrightarrow> bsize b \<le> bsize c"
  by (simp add: bsize_def)

lemma bucket_for_eq:
  assumes "n \<le> bsize b" "b = 0 \<or> bsize (b - 1) < n"
  shows "bucket_for n = b"
  unfolding bucket_for_def
proof (rule Least_equality)
  show "n \<le> bsize b" by (rule assms(1))
next
  fix c assume "n \<le> bsize c"
  show "b \<le> c"
  proof (rule ccontr)
    assume "\<not> b \<le> c"
    then have "bsize c \<le> bsize (b - 1)" "b \<noteq> 0" by (auto intro: bsize_mono)
    with \<open>n \<le> bsize c\<close> assms(2) show False by simp
  qed
qed

lemma bucket_for_bounds:
  assumes "n \<le> 2 ^ 31"
  shows "bucket_for n \<le> 26" "n \<le> bsize (bucket_for n)"
proof -
  have n: "n \<le> bsize 26" using assms by (simp add: bsize_def)
  show "bucket_for n \<le> 26" unfolding bucket_for_def using n by (rule Least_le)
  show "n \<le> bsize (bucket_for n)" unfolding bucket_for_def using n by (rule LeastI)
qed

text \<open>The search that starts at the page bucket for large requests finds the same bucket.\<close>

lemma bucket_search:
  "bucket_loop n (if n \<le> 4096 then 2 ^ 5 else 4096) (if n \<le> 4096 then 0 else 7) =
     (if unat n \<le> 2 ^ 31 then Some (bucket_for (unat n)) else None)"
proof -
  define k where "k = (if n \<le> 4096 then 0 else 7 :: nat)"
  have k: "(if n \<le> 4096 then 2 ^ 5 else 4096 :: u32) = 2 ^ (k + 5)" "k \<le> 26" by (simp_all add: k_def)
  show ?thesis
  proof (cases "unat n \<le> 2 ^ 31")
    case True
    from bucket_loop_returns [OF k(2) True] obtain b where
      b: "bucket_loop n (2 ^ (k + 5)) k = Some b" "k \<le> b" "unat n \<le> bsize b"
         "b = k \<or> bsize (b - 1) < unat n" by blast
    have "b = 0 \<or> bsize (b - 1) < unat n"
      using b by (auto simp: k_def word_le_nat_alt bsize_def split: if_splits)
    then show ?thesis using b True bucket_for_eq [OF b(3)] unfolding k(1) k_def [symmetric] by simp
  next
    case False
    then show ?thesis using bucket_loop_overflow [OF k(2), of n] unfolding k(1) k_def [symmetric] by simp
  qed
qed

lemma pagebucket_loop_value: "pagebucket_loop (push_bit MINSHIFT 1) 0 = 7"
  by (simp add: pagebucket_loop.simps PAGE_SIZE_def MINSHIFT_def)

lemma header_space:
  assumes "2 \<le> k" "k < 32"
  shows "unat ((8 + (2 ^ k - 1)) AND NOT (2 ^ k - 1 :: u32)) = max 8 (2 ^ k)"
proof -
  have p: "(2 :: nat) ^ k \<le> 2 ^ 31" using assms by (intro power_increasing) auto
  have "unat (2 ^ k - 1 :: u32) = 2 ^ k - 1"
    using unat_pow2 [OF assms(2)] pow2_nonzero [OF assms(2)] by simp
  then have w: "unat (8 + (2 ^ k - 1) :: u32) = 2 ^ k + 7"
    using p by (subst unat_add_no_wrap) auto
  show ?thesis
  proof (cases "k = 2")
    case True
    then show ?thesis by simp
  next
    case False
    then have "(8 :: nat) dvd 2 ^ k" using assms le_imp_power_dvd [of 3 k 2] by simp
    then have "(8 :: nat) \<le> 2 ^ k" by (rule dvd_imp_le) simp
    then have "(2 ^ k + 7) mod 2 ^ k = (7 :: nat)" by simp
    then show ?thesis using and_not_pow2_minus [of k "8 + (2 ^ k - 1) :: u32"] assms(2) w \<open>8 \<le> 2 ^ k\<close> by simp
  qed
qed

lemma align_up:
  fixes op :: u32
  assumes k: "2 \<le> k" "k < 32" and op: "8 dvd unat op" "unat op + 2 ^ k + 7 < 2 ^ 32"
  defines "rv \<equiv> (op + 8 + 2 ^ k - 1) AND NOT (2 ^ k - 1)"
  shows "2 ^ k dvd unat rv" "unat op + 8 \<le> unat rv" "unat rv \<le> unat op + max 8 (2 ^ k)"
proof -
  let ?x = "unat op + 2 ^ k + 7"
  have "unat (2 ^ k - 1 :: u32) = 2 ^ k - 1"
    using unat_pow2 [OF k(2)] pow2_nonzero [OF k(2)] by simp
  moreover have "(4 :: nat) \<le> 2 ^ k" using k power_increasing [of 2 k "2 :: nat"] by simp
  ultimately have "unat (op + 8 + (2 ^ k - 1)) = ?x"
    using op by (subst unat_add_no_wrap; subst unat_add_no_wrap) auto
  moreover have "op + 8 + 2 ^ k - 1 = op + 8 + (2 ^ k - 1)" by simp
  ultimately have rv: "unat rv = ?x - ?x mod 2 ^ k"
    unfolding rv_def using and_not_pow2_minus [of k "op + 8 + (2 ^ k - 1)"] k by simp
  then show "2 ^ k dvd unat rv" by (simp add: dvd_minus_mod)
  have "?x mod 2 ^ k < 2 ^ k" by simp
  then show "unat op + 8 \<le> unat rv" using rv by linarith
  show "unat rv \<le> unat op + max 8 (2 ^ k)"
  proof (cases "k = 2")
    case True
    from op(1) obtain q where "unat op = 8 * q" ..
    then have "?x = 4 * (2 * q + 2) + 3" using True by simp
    then have "?x mod 4 = 3" by presburger
    then show ?thesis using rv True by simp
  next
    case False
    then have d: "(8 :: nat) dvd 2 ^ k" using k le_imp_power_dvd [of 3 k 2] by simp
    then obtain j where j: "(2 :: nat) ^ k = 8 * j" ..
    have "8 dvd unat op mod 2 ^ k" using op(1) d by (simp add: dvd_mod)
    then obtain i where i: "unat op mod 2 ^ k = 8 * i" ..
    have "8 * i < 8 * j" using i j by (metis mod_less_divisor zero_less_numeral zero_less_power)
    then have "unat op mod 2 ^ k + 7 < 2 ^ k" using i j by simp
    then have "(unat op + 7) mod 2 ^ k = unat op mod 2 ^ k + 7" by (metis mod_add_left_eq mod_less)
    moreover have "?x mod 2 ^ k = (unat op + 7) mod 2 ^ k"
      using mod_add_self2 [of "unat op + 7" "2 ^ k"] by (simp only: ac_simps)
    ultimately show ?thesis using rv by simp
  qed
qed

end
