(* ===== verification/Heapinv.thy ===== *)
theory Heapinv
  imports Memalloc
begin

text \<open>
  The invariant of the allocator's heap: every free list is a chain of blocks through memory, every
  live pointer has its header in front of it, and all blocks, free or live, lie in the managed
  memory without overlap. Each operation of \<^verbatim>\<open>memalloc.c\<close> is shown to keep it.
\<close>

section \<open>The heap invariant\<close>

text \<open>
  The blocks of the heap. \<open>F b\<close> is the free list of bucket \<open>b\<close>, read off the memory from
  \<^verbatim>\<open>nextf[b]\<close>. \<open>G p\<close> is, for a pointer \<open>p\<close> handed to a client, the block it lies in and the
  number of bytes asked for.
\<close>

type_synonym free_lists = "nat \<Rightarrow> u32 list"
type_synonym live_blocks = "u32 \<rightharpoonup> u32 \<times> nat \<times> nat"

fun chain :: "memory \<Rightarrow> u32 \<Rightarrow> u32 list \<Rightarrow> bool" where
  "chain m p [] \<longleftrightarrow> p = 0"
| "chain m p (x # xs) \<longleftrightarrow> p = x \<and> x \<noteq> 0 \<and> chain m (load32 m x) xs"

definition blocks :: "free_lists \<Rightarrow> live_blocks \<Rightarrow> (u32 \<times> nat) set" where
  "blocks F G = {(a, b). a \<in> set (F b)} \<union> {(a, b). \<exists>p n. G p = Some (a, b, n)}"

definition block_ok :: "'a physmem_scheme \<Rightarrow> u32 \<Rightarrow> nat \<Rightarrow> bool" where
  "block_ok st a b \<longleftrightarrow> b \<le> 26 \<and> 32 dvd unat a \<and> unat (bmk_membase st) \<le> unat a \<and>
     unat a + bsize b \<le> unat (bmk_membase st) + 4096 * unat (current st) \<and>
     unat a + bsize b \<le> unat (bmk_membase st) + unat (bmk_memsize st)"

definition block :: "u32 \<times> nat \<Rightarrow> u32 set" where
  "block x = region (fst x) (bsize (snd x))"

definition header :: "memory \<Rightarrow> u32 \<Rightarrow> u32 \<Rightarrow> nat \<Rightarrow> bool" where
  "header m p a b \<longleftrightarrow> load32 m (p - 8) = p - a \<and> m (p - 4) = MAGIC \<and> m (p - 3) = of_nat b"

definition live_ok :: "memory \<Rightarrow> u32 \<Rightarrow> u32 \<Rightarrow> nat \<Rightarrow> nat \<Rightarrow> bool" where
  "live_ok m p a b n \<longleftrightarrow> header m p a b \<and> unat a + 8 \<le> unat p \<and> unat p + n \<le> unat a + bsize b"

definition paged :: "heap \<Rightarrow> bool" where
  "paged st \<longleftrightarrow> pagesz st = PAGE_SIZE \<and> pagebucket st = 7"

definition heap_inv :: "heap \<Rightarrow> free_lists \<Rightarrow> live_blocks \<Rightarrow> bool" where
  "heap_inv st F G \<longleftrightarrow> physmem_ok st \<and>
     (paged st \<or> pagesz st = 0) \<and>
     (\<forall>b. chain (mem st) (nextf st b) (F b)) \<and> (\<forall>b. distinct (F b)) \<and>
     (\<forall>(a, b) \<in> blocks F G. block_ok st a b) \<and>
     (\<forall>x \<in> blocks F G. \<forall>y \<in> blocks F G. x \<noteq> y \<longrightarrow> block x \<inter> block y = {}) \<and>
     (\<forall>p a b n. G p = Some (a, b, n) \<longrightarrow> live_ok (mem st) p a b n \<and> a \<notin> set (F b)) \<and>
     (\<forall>p q a b n k. G p = Some (a, b, n) \<and> G q = Some (a, b, k) \<longrightarrow> p = q)"

lemma region_nowrap:
  assumes "unat a + n \<le> 2 ^ 32"
  shows "x \<in> region a n \<longleftrightarrow> unat a \<le> unat x \<and> unat x < unat a + n"
proof -
  have "unat (x - a) = (if unat a \<le> unat x then unat x - unat a else unat x + 2 ^ 32 - unat a)"
    using unat_sub_if_size [of x a] by (simp add: word_size)
  then show ?thesis using assms unsigned_less [of a, where 'a = nat] by (simp add: region_def) linarith
qed

lemma chain_cong:
  "(\<And>x. x \<in> set xs \<Longrightarrow> load32 m' x = load32 m x) \<Longrightarrow> chain m' p xs = chain m p xs"
  by (induction xs arbitrary: p) auto

lemma chain_nonzero: "chain m p xs \<Longrightarrow> 0 \<notin> set xs"
  by (induction xs arbitrary: p) auto

lemma chain_hd: "chain m p xs \<Longrightarrow> p = (if xs = [] then 0 else hd xs)"
  by (cases xs) auto

lemma block_ok_fits: "physmem_ok st \<Longrightarrow> block_ok st a b \<Longrightarrow> unat a + bsize b < 2 ^ 32"
  by (auto simp: physmem_ok_def block_ok_def)

lemma bsize_ge: "32 \<le> bsize b"
  unfolding bsize_def using power_increasing [of 5 "b + 5" "2 :: nat"] by simp

lemma in_block:
  "physmem_ok st \<Longrightarrow> block_ok st a b \<Longrightarrow> x \<in> block (a, b) \<longleftrightarrow> unat a \<le> unat x \<and> unat x < unat a + bsize b"
  unfolding block_def using block_ok_fits [of st a b] by (simp add: region_nowrap)

lemma subregion_in_block:
  assumes "physmem_ok st" "block_ok st a b" "unat a \<le> unat x" "unat x + n \<le> unat a + bsize b"
  shows "region x n \<subseteq> block (a, b)"
proof
  fix z assume "z \<in> region x n"
  then have "unat x \<le> unat z \<and> unat z < unat x + n"
    using assms(4) block_ok_fits [OF assms(1,2)] by (subst (asm) region_nowrap) linarith+
  then show "z \<in> block (a, b)" using in_block [OF assms(1,2), of z] assms(3,4) by linarith
qed

lemma link_in_block: "physmem_ok st \<Longrightarrow> block_ok st a b \<Longrightarrow> region a 4 \<subseteq> block (a, b)"
  using bsize_ge [of b] by (intro subregion_in_block) auto

lemma header_region:
  assumes "physmem_ok st" "block_ok st a b" "live_ok m p a b n"
  shows "region (p - 8) 8 \<subseteq> block (a, b)"
proof (rule subregion_in_block [OF assms(1,2)])
  have "unat (p - 8) = unat p - 8"
    using assms(3) by (intro trans [OF unat_sub_no_wrap]) (auto simp: live_ok_def word_le_nat_alt)
  then show "unat a \<le> unat (p - 8)" "unat (p - 8) + 8 \<le> unat a + bsize b"
    using assms(3) by (auto simp: live_ok_def)
qed

lemma header_cong:
  assumes "\<And>x. x \<in> region (p - 8) 8 \<Longrightarrow> m' x = m x"
  shows "header m' p a b = header m p a b"
proof -
  have "p - 4 \<in> region (p - 8) 8" "p - 3 \<in> region (p - 8) 8" by (simp_all add: region_def)
  moreover have "load32 m' (p - 8) = load32 m (p - 8)"
    using assms by (intro load32_cong) (auto simp: region_def)
  ultimately show ?thesis using assms by (simp add: header_def)
qed

text \<open>
  Writes confined to a set that meets no block but \<open>y\<close> leave the free lists and the headers of
  all the other blocks as they were.
\<close>

lemma frame_other:
  assumes "physmem_ok st" "block_ok st a b" "\<forall>x. x \<notin> W \<longrightarrow> m' x = m x" "block (a, b) \<inter> W = {}"
  shows "load32 m' a = load32 m a" and "live_ok m p a b n \<Longrightarrow> live_ok m' p a b n"
proof -
  show "load32 m' a = load32 m a"
    using assms link_in_block [OF assms(1,2)] by (intro load32_cong) blast
  show "live_ok m' p a b n" if "live_ok m p a b n"
    using that assms header_region [OF assms(1,2) that] header_cong [of p m' m a b]
    by (simp add: live_ok_def) blast
qed

section \<open>Carving a page into blocks\<close>

fun new_blocks :: "nat \<Rightarrow> u32 \<Rightarrow> u32 \<Rightarrow> u32 list" where
  "new_blocks 0 sz op = [op]"
| "new_blocks (Suc k) sz op = op # new_blocks k sz (op + sz)"

lemma unat_next_block:
  "unat (op :: u32) + (Suc (Suc k)) * unat sz < 2 ^ 32 \<Longrightarrow> unat (op + sz) = unat op + unat sz"
  by (intro unat_add_no_wrap) simp

lemma new_blocks_mem:
  "a \<in> set (new_blocks k sz op) \<Longrightarrow> unat op + Suc k * unat sz < 2 ^ 32 \<Longrightarrow>
   \<exists>i \<le> k. unat a = unat op + i * unat sz"
proof (induction k arbitrary: op)
  case (Suc k)
  show ?case
  proof (cases "a = op")
    case False
    then have "a \<in> set (new_blocks k sz (op + sz))" using Suc.prems(1) by simp
    moreover have n: "unat (op + sz) = unat op + unat sz" using Suc.prems(2) by (rule unat_next_block)
    ultimately obtain i where "i \<le> k" "unat a = unat (op + sz) + i * unat sz"
      using Suc.IH [of "op + sz"] Suc.prems(2) by auto
    then show ?thesis using n by (intro exI [of _ "Suc i"]) simp
  qed auto
qed simp

lemma new_blocks_distinct:
  "unat op + Suc k * unat sz < 2 ^ 32 \<Longrightarrow> 0 < unat sz \<Longrightarrow> distinct (new_blocks k sz op)"
proof (induction k arbitrary: op)
  case (Suc k)
  have n: "unat (op + sz) = unat op + unat sz" using Suc.prems(1) by (rule unat_next_block)
  have "op \<notin> set (new_blocks k sz (op + sz))"
  proof
    assume "op \<in> set (new_blocks k sz (op + sz))"
    then obtain i where "unat op = unat (op + sz) + i * unat sz"
      using new_blocks_mem [of op k sz "op + sz"] Suc.prems n by auto
    then show False using n Suc.prems(2) by simp
  qed
  then show ?case using Suc n by simp
qed simp

lemma morecore_loop_chain:
  assumes "morecore_loop k sz m op = (m', op')" "unat op + Suc k * unat sz < 2 ^ 32" "4 \<le> unat sz" "op \<noteq> 0"
  shows "chain (store32 m' op' 0) op (new_blocks k sz op) \<and>
    (\<forall>x. unat x < unat op \<or> unat op + Suc k * unat sz \<le> unat x \<longrightarrow> store32 m' op' 0 x = m x)"
  using assms
proof (induction k arbitrary: m op)
  case 0
  have "store32 m op 0 x = m x" if "unat x < unat op \<or> unat op + unat sz \<le> unat x" for x
    using that 0 by (intro store32_outside) (auto simp: region_nowrap)
  with 0 show ?case by auto
next
  case (Suc k)
  let ?m1 = "store32 m op (op + sz)"
  have n: "unat (op + sz) = unat op + unat sz" using Suc.prems(2) by (rule unat_next_block)
  have "morecore_loop k sz ?m1 (op + sz) = (m', op')" using Suc.prems(1) by simp
  moreover have "op + sz \<noteq> 0" using n Suc.prems(3) by (metis add_is_0 not_numeral_le_zero unat_0)
  ultimately have IH: "chain (store32 m' op' 0) (op + sz) (new_blocks k sz (op + sz))"
    "\<And>x. unat x < unat (op + sz) \<or> unat (op + sz) + Suc k * unat sz \<le> unat x \<Longrightarrow>
       store32 m' op' 0 x = ?m1 x"
    using Suc.IH [of ?m1 "op + sz"] Suc.prems n by auto
  have "load32 (store32 m' op' 0) op = load32 ?m1 op"
    using IH(2) n Suc.prems by (intro load32_cong) (auto simp: region_nowrap)
  moreover have "store32 m' op' 0 x = m x"
    if "unat x < unat op \<or> unat op + Suc (Suc k) * unat sz \<le> unat x" for x
  proof -
    have "store32 m' op' 0 x = ?m1 x" using that n Suc.prems(3) by (intro IH(2)) auto
    also have "\<dots> = m x" using that Suc.prems by (intro store32_outside) (auto simp: region_nowrap)
    finally show ?thesis .
  qed
  ultimately show ?case using IH(1) Suc.prems(4) by simp
qed

text \<open>The pages a request of bucket \<open>b\<close> takes from the page allocator, and the blocks it gives.\<close>

definition core_pages :: "nat \<Rightarrow> nat" where
  "core_pages b = 2 ^ (b - 7)"

definition core_blocks :: "nat \<Rightarrow> nat" where
  "core_blocks b = 2 ^ (7 - b)"

lemma core_bytes: "core_blocks b * bsize b = 4096 * core_pages b"
proof (cases "b \<le> 7")
  case True
  then have "7 - b + (b + 5) = 12" by simp
  then have "(2 :: nat) ^ (7 - b) * 2 ^ (b + 5) = 2 ^ 12" by (metis power_add)
  with True show ?thesis by (simp add: core_blocks_def core_pages_def bsize_def)
next
  case False
  then have "b + 5 = 12 + (b - 7)" by simp
  then have "(2 :: nat) ^ (b + 5) = 2 ^ 12 * 2 ^ (b - 7)" by (metis power_add)
  with False show ?thesis by (simp add: core_blocks_def core_pages_def bsize_def)
qed

lemma core_blocks_pos: "0 < core_blocks b"
  by (simp add: core_blocks_def)

lemma unat_core_pages: "b \<le> 26 \<Longrightarrow> unat (2 ^ (b - 7) :: u32) = core_pages b"
  by (simp add: core_pages_def unat_pow2)

lemma unat_bsize: "b \<le> 26 \<Longrightarrow> unat (2 ^ (b + 5) :: u32) = bsize b"
  by (simp add: bsize_def unat_pow2)

text \<open>\<^verbatim>\<open>morecore\<close> in terms of the page allocator, whichever side of the page bucket it is on.\<close>

lemma morecore_eq:
  assumes "paged st" "b \<le> 26"
  shows "morecore b st =
    (case bmk_allocpg st (2 ^ (b - 7)) of (st, op) \<Rightarrow>
       if op = 0 then st
       else (case morecore_loop (core_blocks b - 1) (2 ^ (b + 5)) (mem st) op of (m, op') \<Rightarrow>
         st\<lparr>nextf := (nextf st)(b := op), mem := store32 m op' 0\<rparr>))"
proof (cases "b < 7")
  case True
  then consider "b = 0" | "b = 1" | "b = 2" | "b = 3" | "b = 4" | "b = 5" | "b = 6" by linarith
  then show ?thesis using assms(1)
    by cases (simp_all add: morecore_def corealloc_def core_blocks_def paged_def MINSHIFT_def PAGE_SIZE_def
        split: prod.split)
next
  case False
  then have "core_blocks b = 1" by (simp add: core_blocks_def)
  with False assms(1) show ?thesis
    by (simp add: morecore_def corealloc_def paged_def split: prod.split)
qed

lemma block_ok_grow:
  "block_ok st a b \<Longrightarrow> bmk_membase st' = bmk_membase st \<Longrightarrow> bmk_memsize st' = bmk_memsize st \<Longrightarrow>
   unat (current st) \<le> unat (current st') \<Longrightarrow> block_ok st' a b"
  by (auto simp: block_ok_def)

lemma physmem_ok_cong:
  "bmk_membase st' = bmk_membase st \<Longrightarrow> bmk_memsize st' = bmk_memsize st \<Longrightarrow> physmem_ok st' = physmem_ok st"
  by (simp add: physmem_ok_def)

text \<open>Running out of core changes nothing but the page counter.\<close>

lemma heap_inv_advance:
  assumes "heap_inv st F G" "unat (current st) \<le> unat c"
  shows "heap_inv (st\<lparr>current := c\<rparr>) F G"
  using assms block_ok_grow [of st _ _ "st\<lparr>current := c\<rparr>"]
  by (auto simp: heap_inv_def physmem_ok_def paged_def)

lemma heap_invD:
  assumes "heap_inv st F G"
  shows "physmem_ok st" "\<And>b. chain (mem st) (nextf st b) (F b)" "\<And>b. distinct (F b)"
    "\<And>a b. (a, b) \<in> blocks F G \<Longrightarrow> block_ok st a b"
    "\<And>x y. x \<in> blocks F G \<Longrightarrow> y \<in> blocks F G \<Longrightarrow> x \<noteq> y \<Longrightarrow> block x \<inter> block y = {}"
    "\<And>p a b n. G p = Some (a, b, n) \<Longrightarrow> live_ok (mem st) p a b n"
    "\<And>p a b n. G p = Some (a, b, n) \<Longrightarrow> a \<notin> set (F b)"
    "\<And>p q a b n k. G p = Some (a, b, n) \<Longrightarrow> G q = Some (a, b, k) \<Longrightarrow> p = q"
    "paged st \<or> pagesz st = 0"
proof -
  have h: "physmem_ok st" "paged st \<or> pagesz st = 0" "\<forall>b. chain (mem st) (nextf st b) (F b)"
    "\<forall>b. distinct (F b)" "\<forall>(a, b) \<in> blocks F G. block_ok st a b"
    "\<forall>x \<in> blocks F G. \<forall>y \<in> blocks F G. x \<noteq> y \<longrightarrow> block x \<inter> block y = {}"
    "\<forall>p a b n. G p = Some (a, b, n) \<longrightarrow> live_ok (mem st) p a b n \<and> a \<notin> set (F b)"
    "\<forall>p q a b n k. G p = Some (a, b, n) \<and> G q = Some (a, b, k) \<longrightarrow> p = q"
    using assms unfolding heap_inv_def by - (elim conjE, assumption)+
  show "physmem_ok st" "paged st \<or> pagesz st = 0" by (fact h)+
  show "chain (mem st) (nextf st b) (F b)" "distinct (F b)" for b using h(3,4) by simp_all
  show "block_ok st a b" if "(a, b) \<in> blocks F G" for a b using h(5) that by auto
  show "block x \<inter> block y = {}" if "x \<in> blocks F G" "y \<in> blocks F G" "x \<noteq> y" for x y
    using h(6) that by simp
  show "live_ok (mem st) p a b n" "a \<notin> set (F b)" if "G p = Some (a, b, n)" for p a b n
    using h(7) that by auto
  show "p = q" if "G p = Some (a, b, n)" "G q = Some (a, b, k)" for p q a b n k
    using h(8) that by simp
qed

lemma heap_invI:
  assumes "physmem_ok st" "\<And>b. chain (mem st) (nextf st b) (F b)" "\<And>b. distinct (F b)"
    "\<And>a b. (a, b) \<in> blocks F G \<Longrightarrow> block_ok st a b"
    "\<And>x y. x \<in> blocks F G \<Longrightarrow> y \<in> blocks F G \<Longrightarrow> x \<noteq> y \<Longrightarrow> block x \<inter> block y = {}"
    "\<And>p a b n. G p = Some (a, b, n) \<Longrightarrow> live_ok (mem st) p a b n"
    "\<And>p a b n. G p = Some (a, b, n) \<Longrightarrow> a \<notin> set (F b)"
    "\<And>p q a b n k. G p = Some (a, b, n) \<Longrightarrow> G q = Some (a, b, k) \<Longrightarrow> p = q"
    "paged st \<or> pagesz st = 0"
  shows "heap_inv st F G"
  unfolding heap_inv_def
proof (intro conjI)
  show "\<forall>(a, b) \<in> blocks F G. block_ok st a b" using assms(4) by auto
  show "\<forall>x \<in> blocks F G. \<forall>y \<in> blocks F G. x \<noteq> y \<longrightarrow> block x \<inter> block y = {}"
    using assms(5) by simp
  show "\<forall>p a b n. G p = Some (a, b, n) \<longrightarrow> live_ok (mem st) p a b n \<and> a \<notin> set (F b)"
    using assms(6,7) by simp
  show "\<forall>p q a b n k. G p = Some (a, b, n) \<and> G q = Some (a, b, k) \<longrightarrow> p = q"
    using assms(8) by simp
qed (use assms(1,2,3,9) in simp_all)

lemma blocks_free: "a \<in> set (F b) \<Longrightarrow> (a, b) \<in> blocks F G"
  by (auto simp: blocks_def)

lemma blocks_live: "G p = Some (a, b, n) \<Longrightarrow> (a, b) \<in> blocks F G"
  by (auto simp: blocks_def)

text \<open>A write inside one block keeps the links and headers of all the others.\<close>

lemma frame_chain:
  assumes inv: "heap_inv st F G" and y: "y \<in> blocks F G" and m': "\<forall>x. x \<notin> block y \<longrightarrow> m' x = mem st x"
    and xs: "set xs \<subseteq> set (F b)" "\<And>a. a \<in> set xs \<Longrightarrow> (a, b) \<noteq> y"
  shows "chain m' q xs = chain (mem st) q xs"
proof (rule chain_cong)
  fix a assume a: "a \<in> set xs"
  then have B: "(a, b) \<in> blocks F G" using xs(1) by (auto intro: blocks_free)
  then have "block (a, b) \<inter> block y = {}" using heap_invD(5) [OF inv _ y] xs(2) a by blast
  then show "load32 m' a = load32 (mem st) a"
    by (rule frame_other(1) [OF heap_invD(1) [OF inv] heap_invD(4) [OF inv B] m'])
qed

lemma frame_live:
  assumes inv: "heap_inv st F G" and y: "y \<in> blocks F G" and m': "\<forall>x. x \<notin> block y \<longrightarrow> m' x = mem st x"
    and p: "G p = Some (a, b, n)" "(a, b) \<noteq> y"
  shows "live_ok m' p a b n"
proof -
  have B: "(a, b) \<in> blocks F G" using p(1) by (rule blocks_live)
  then have "block (a, b) \<inter> block y = {}" using heap_invD(5) [OF inv _ y] p(2) by blast
  then show ?thesis
    using heap_invD(6) [OF inv p(1)]
    by (rule frame_other(2) [OF heap_invD(1) [OF inv] heap_invD(4) [OF inv B] m'])
qed

text \<open>A live pointer determines its block: the eight bytes before it lie in the block.\<close>

lemma live_block_unique:
  assumes "heap_inv st F G" "G p = Some (a, b, n)" "y \<in> blocks F G" "p - 8 \<in> block y"
  shows "y = (a, b)"
proof (rule ccontr)
  assume "y \<noteq> (a, b)"
  then have "block y \<inter> block (a, b) = {}"
    using heap_invD(5) [OF assms(1,3) blocks_live [of G, OF assms(2)]] by blast
  moreover have "p - 8 \<in> block (a, b)"
    using header_region [OF heap_invD(1) [OF assms(1)] heap_invD(4) [OF assms(1) blocks_live [of G, OF assms(2)]]
        heap_invD(6) [OF assms(1,2)]] by auto
  ultimately show False using assms(4) by blast
qed

section \<open>Every operation keeps the invariant\<close>

text \<open>A client may write the bytes it was given.\<close>

lemma heap_inv_client_write:
  assumes inv: "heap_inv st F G" and p: "G p = Some (a, b, n)" and x: "x \<in> region p n"
  shows "heap_inv (st\<lparr>mem := (mem st)(x := v)\<rparr>) F G"
proof -
  let ?m = "(mem st)(x := v)"
  have B: "(a, b) \<in> blocks F G" using p by (rule blocks_live)
  note ok = heap_invD(1) [OF inv] heap_invD(4) [OF inv B]
  have l: "live_ok (mem st) p a b n" using inv p by (rule heap_invD(6))
  then have "region p n \<subseteq> block (a, b)" using ok by (intro subregion_in_block) (auto simp: live_ok_def)
  then have xb: "x \<in> block (a, b)" using x by blast
  have "unat p + n < 2 ^ 32" using l block_ok_fits [OF ok] by (simp add: live_ok_def)
  then have px: "unat p \<le> unat x" using x by (simp add: region_nowrap)
  have p8: "unat (p - 8) = unat p - 8" "8 \<le> unat p"
    using l by (auto simp: live_ok_def word_le_nat_alt unat_sub_no_wrap)
  have hd: "x \<notin> region (p - 8) 8"
    using px p8 \<open>unat p + n < 2 ^ 32\<close> by (simp add: region_nowrap)
  then have hc: "header ?m p a b = header (mem st) p a b" by (intro header_cong) auto
  have "chain ?m (nextf st c) (F c)" for c
  proof -
    have "(d, c) \<noteq> (a, b)" if "d \<in> set (F c)" for d using that heap_invD(7) [OF inv p] by auto
    then show ?thesis using frame_chain [OF inv B, of ?m "F c" c] xb heap_invD(2) [OF inv] by auto
  qed
  moreover have "live_ok ?m q c d k" if q: "G q = Some (c, d, k)" for q c d k
  proof (cases "(c, d) = (a, b)")
    case True
    then have "q = p" using heap_invD(8) [OF inv q] p by auto
    then show ?thesis
      using q p l hc by (auto simp: live_ok_def)
  next
    case False
    then show ?thesis using frame_live [OF inv B, of ?m] xb q by auto
  qed
  ultimately show ?thesis
    using inv by (intro heap_invI) (auto simp: physmem_ok_def block_ok_def paged_def dest: heap_invD)
qed

text \<open>An operation that creates no block has only the lists and the headers to account for.\<close>

lemma heap_inv_same_blocks:
  assumes inv: "heap_inv st F G" and sub: "blocks F' G' \<subseteq> blocks F G"
    and "\<And>b. chain m (nx b) (F' b)" "\<And>b. distinct (F' b)"
    "\<And>p a b n. G' p = Some (a, b, n) \<Longrightarrow> live_ok m p a b n"
    "\<And>p a b n. G' p = Some (a, b, n) \<Longrightarrow> a \<notin> set (F' b)"
    "\<And>p q a b n k. G' p = Some (a, b, n) \<Longrightarrow> G' q = Some (a, b, k) \<Longrightarrow> p = q"
  shows "heap_inv (st\<lparr>nextf := nx, mem := m\<rparr>) F' G'"
proof (rule heap_invI)
  let ?st = "st\<lparr>nextf := nx, mem := m\<rparr>"
  show "physmem_ok ?st" using heap_invD(1) [OF inv] by (simp add: physmem_ok_def)
  show "paged ?st \<or> pagesz ?st = 0" using heap_invD(9) [OF inv] by (simp add: paged_def)
  show "block_ok ?st a b" if "(a, b) \<in> blocks F' G'" for a b
    using heap_invD(4) [OF inv, of a b] sub that by (auto simp: block_ok_def)
  show "block x \<inter> block y = {}" if "x \<in> blocks F' G'" "y \<in> blocks F' G'" "x \<noteq> y" for x y
    using heap_invD(5) [OF inv, of x y] sub that by blast
  show "p = q" if "G' p = Some (a, b, n)" "G' q = Some (a, b, k)" for p q a b n k
    using that by (rule assms(7))
qed (use assms(3-6) in simp_all)

lemma bmk_memfree_live:
  assumes inv: "heap_inv st F G" and p: "G p = Some (a, b, n)"
  shows "bmk_memfree st p =
    Returns (st\<lparr>mem := store32 (mem st) a (nextf st b), nextf := (nextf st)(b := a)\<rparr>)"
proof -
  have l: "live_ok (mem st) p a b n" using inv p by (rule heap_invD(6))
  have b: "b \<le> 26" using heap_invD(4) [OF inv blocks_live [of G, OF p]] by (simp add: block_ok_def)
  have "p \<noteq> 0" using l by (auto simp: live_ok_def)
  moreover have "p - 8 + 4 = p - 4" "p - 8 + 5 = p - 3" by simp_all
  moreover have "unat (of_nat b :: u8) = b" using b by (simp add: unat_of_nat)
  ultimately show ?thesis
    using l b by (simp add: bmk_memfree_def live_ok_def header_def sizeof_overhead_def NBUCKETS_def)
qed

lemma heap_inv_free:
  assumes inv: "heap_inv st F G" and p: "G p = Some (a, b, n)"
  shows "heap_inv (st\<lparr>mem := store32 (mem st) a (nextf st b), nextf := (nextf st)(b := a)\<rparr>)
    (F(b := a # F b)) (G(p := None))"
proof -
  let ?m = "store32 (mem st) a (nextf st b)" and ?F = "F(b := a # F b)" and ?G = "G(p := None)"
  have B: "(a, b) \<in> blocks F G" using p by (rule blocks_live)
  note ok = heap_invD(1) [OF inv] heap_invD(4) [OF inv B]
  have m: "\<forall>x. x \<notin> block (a, b) \<longrightarrow> ?m x = mem st x"
    using link_in_block [OF ok] by (auto intro: store32_outside)
  have a: "a \<notin> set (F b)" using inv p by (rule heap_invD(7))
  have "a \<noteq> 0" using ok by (auto simp: physmem_ok_def block_ok_def)
  have sub: "blocks ?F ?G \<subseteq> blocks F G"
    using p by (auto simp: blocks_def split: if_splits)
  have other: "(c, d) \<noteq> (a, b)" if "?G q = Some (c, d, k)" for q c d k
    using that heap_invD(8) [OF inv p] by (auto split: if_splits)
  have "chain ?m (((nextf st)(b := a)) c) (?F c)" for c
  proof -
    have "(d, c) \<noteq> (a, b)" if "d \<in> set (F c)" for d using that a by auto
    then have "chain ?m (nextf st c) (F c)"
      using frame_chain [OF inv B m, of "F c" c "nextf st c"] heap_invD(2) [OF inv, of c] by simp
    then show ?thesis using \<open>a \<noteq> 0\<close> by auto
  qed
  moreover have "live_ok ?m q c d k" if "?G q = Some (c, d, k)" for q c d k
    using frame_live [OF inv B m, of q c d k] other [OF that] that by (auto split: if_splits)
  moreover have "c \<notin> set (?F d)" if "?G q = Some (c, d, k)" for q c d k
    using other [OF that] heap_invD(7) [OF inv, of q c d k] that by (auto split: if_splits)
  moreover have "q = q'" if "?G q = Some (c, d, k)" "?G q' = Some (c, d, k')" for q q' c d k k'
    using heap_invD(8) [OF inv] that by (auto split: if_splits)
  moreover have "distinct (?F c)" for c using heap_invD(3) [OF inv, of c] a by auto
  ultimately have "heap_inv (st\<lparr>nextf := (nextf st)(b := a), mem := ?m\<rparr>) ?F ?G"
    by (intro heap_inv_same_blocks [OF inv sub])
  moreover have "st\<lparr>nextf := (nextf st)(b := a), mem := ?m\<rparr> = st\<lparr>mem := ?m, nextf := (nextf st)(b := a)\<rparr>"
    by (cases st) simp
  ultimately show ?thesis by simp
qed

text \<open>The header is written inside the block.\<close>

lemma header_writes:
  assumes "physmem_ok st" "block_ok st op b" "unat op + 8 \<le> unat p" "unat p \<le> unat op + bsize b"
    and "x \<notin> block (op, b)"
  shows "store32 (m(p - 4 := u, p - 3 := v)) (p - 8) w x = m x"
proof -
  have p8: "unat (p - 8) = unat p - 8"
    using assms(3) by (intro trans [OF unat_sub_no_wrap]) (auto simp: word_le_nat_alt)
  have r8: "region (p - 8) 8 \<subseteq> block (op, b)"
    using assms p8 by (intro subregion_in_block) auto
  have "p - 4 \<in> region (p - 8) 8" "p - 3 \<in> region (p - 8) 8" by (simp_all add: region_def)
  then have "x \<notin> region (p - 8) 4" "x \<noteq> p - 4" "x \<noteq> p - 3"
    using assms(5) r8 region_mono [of 4 8 "p - 8"] by auto
  then show ?thesis by (simp add: store32_outside)
qed

lemma heap_inv_pop:
  assumes inv: "heap_inv st F G" and F: "F b = op # xs"
    and p: "unat op + 8 \<le> unat p" "unat p + n \<le> unat op + bsize b"
  defines "m \<equiv> store32 ((mem st)(p - 4 := MAGIC, p - 3 := of_nat b)) (p - 8) (p - op)"
  shows "heap_inv (st\<lparr>nextf := (nextf st)(b := load32 (mem st) op), mem := m\<rparr>)
    (F(b := xs)) (G(p \<mapsto> (op, b, n)))" and "G p = None"
proof -
  let ?F = "F(b := xs)" and ?G = "G(p \<mapsto> (op, b, n))"
  have B: "(op, b) \<in> blocks F G" using F by (intro blocks_free) simp
  note ok = heap_invD(1) [OF inv] heap_invD(4) [OF inv B]
  have p8: "unat (p - 8) = unat p - 8"
    using p by (intro trans [OF unat_sub_no_wrap]) (auto simp: word_le_nat_alt)
  have r8: "region (p - 8) 8 \<subseteq> block (op, b)"
    using p p8 by (intro subregion_in_block [OF ok]) auto
  have p43: "p - 4 \<in> region (p - 8) 8" "p - 3 \<in> region (p - 8) 8" "p - 8 \<in> region (p - 8) 8"
    by (simp_all add: region_def)
  have m: "\<forall>x. x \<notin> block (op, b) \<longrightarrow> m x = mem st x"
    unfolding m_def using header_writes [OF ok p(1)] p(2) by simp
  have "p - 4 \<notin> region (p - 8) 4" "p - 3 \<notin> region (p - 8) 4" by (simp_all add: region_def)
  then have h: "header m p op b" by (simp add: header_def m_def store32_outside)
  show Gp: "G p = None"
  proof (rule ccontr)
    assume "G p \<noteq> None"
    then obtain a c k where q: "G p = Some (a, c, k)" by (cases "G p") auto
    then have "(op, b) = (a, c)" using live_block_unique [OF inv q B] r8 p43 by blast
    then show False using heap_invD(7) [OF inv q] F by simp
  qed
  have op: "op \<notin> set xs" "distinct xs" using heap_invD(3) [OF inv, of b] F by auto
  have other: "(c, d) \<noteq> (op, b)" if "G q = Some (c, d, k)" for q c d k
    using heap_invD(7) [OF inv that] F by auto
  have "chain m (((nextf st)(b := load32 (mem st) op)) c) (?F c)" for c
  proof -
    have "set (?F c) \<subseteq> set (F c)" "\<And>d. d \<in> set (?F c) \<Longrightarrow> (d, c) \<noteq> (op, b)" using F op by auto
    then have "chain m q (?F c) = chain (mem st) q (?F c)" for q
      using frame_chain [OF inv B m, of "?F c" c q] by blast
    then show ?thesis using heap_invD(2) [OF inv, of c] F by auto
  qed
  moreover have "live_ok m q c d k" if "?G q = Some (c, d, k)" for q c d k
  proof (cases "q = p")
    case True
    then show ?thesis using that h p by (simp add: live_ok_def)
  next
    case False
    then show ?thesis using that frame_live [OF inv B m, of q c d k] other by auto
  qed
  moreover have "blocks ?F ?G \<subseteq> blocks F G"
    using F Gp by (auto simp: blocks_def split: if_splits)
  moreover have "c \<notin> set (?F d)" if "?G q = Some (c, d, k)" for q c d k
    using that op heap_invD(7) [OF inv, of q c d k] F by (auto split: if_splits)
  moreover have "q = q'" if "?G q = Some (c, d, k)" "?G q' = Some (c, d, k')" for q q' c d k k'
    using that heap_invD(8) [OF inv, of q c d k q' k'] other by (auto split: if_splits)
  moreover have "distinct (?F c)" for c using heap_invD(3) [OF inv, of c] op by auto
  ultimately show "heap_inv (st\<lparr>nextf := (nextf st)(b := load32 (mem st) op), mem := m\<rparr>) ?F ?G"
    by (intro heap_inv_same_blocks [OF inv])
qed

text \<open>The blocks carved from fresh pages, which lie after every block there was.\<close>

lemma new_blocks_ok:
  assumes ok: "physmem_ok st" and b: "b \<le> 26"
    and op: "unat op = unat (bmk_membase st) + 4096 * unat (current st)"
      "4096 * (unat (current st) + core_pages b) \<le> unat (bmk_memsize st)"
    and a: "a \<in> set (new_blocks (core_blocks b - 1) (2 ^ (b + 5)) op)"
  shows "\<exists>i < core_blocks b. unat a = unat op + i * bsize b"
    and "unat op \<le> unat a \<and> unat a + bsize b \<le> unat op + 4096 * core_pages b \<and> 32 dvd unat a"
proof -
  have k: "Suc (core_blocks b - 1) = core_blocks b" using core_blocks_pos [of b] by simp
  have "unat op + core_blocks b * bsize b < 2 ^ 32"
    using ok op by (simp add: core_bytes physmem_ok_def)
  then show ex: "\<exists>i < core_blocks b. unat a = unat op + i * bsize b"
    using new_blocks_mem [OF a] k unat_bsize [OF b] by (metis less_Suc_eq_le)
  then obtain i where i: "i < core_blocks b" "unat a = unat op + i * bsize b" by blast
  have "Suc i * bsize b \<le> core_blocks b * bsize b" using i(1) by (intro mult_le_mono1) simp
  moreover have "32 dvd bsize b" unfolding bsize_def using le_imp_power_dvd [of 5 "b + 5" "2 :: nat"] by simp
  moreover have "32 dvd unat (bmk_membase st)"
    using ok dvd_trans [of 32 4096 "unat (bmk_membase st)"] by (simp add: physmem_ok_def)
  then have "32 dvd unat op" unfolding op(1) by (intro dvd_add dvd_mult2) simp_all
  ultimately show "unat op \<le> unat a \<and> unat a + bsize b \<le> unat op + 4096 * core_pages b \<and> 32 dvd unat a"
    using i(2) core_bytes [of b] by simp
qed

lemma disjoint_intervals:
  assumes "unat a + n < 2 ^ 32" "unat c + k < 2 ^ 32" "unat a + n \<le> unat c \<or> unat c + k \<le> unat a"
  shows "region a n \<inter> region c k = {}"
  using assms by (auto simp: region_nowrap)

definition core_top :: "'a physmem_scheme \<Rightarrow> nat" where
  "core_top st = unat (bmk_membase st) + 4096 * unat (current st)"

lemma old_block_below:
  assumes "heap_inv st F G" "y \<in> blocks F G" "x \<in> block y"
  shows "unat x < core_top st"
  using in_block [OF heap_invD(1) [OF assms(1)], of "fst y" "snd y" x] assms
    heap_invD(4) [OF assms(1), of "fst y" "snd y"]
  by (auto simp: block_ok_def core_top_def)

lemma block_nonempty: "block y \<noteq> {}"
proof -
  have "fst y \<in> block y" using bsize_ge [of "snd y"] by (simp add: block_def)
  then show ?thesis by blast
qed

lemma heap_inv_add_blocks:
  assumes inv: "heap_inv st F G" and F: "F b = []"
    and st': "bmk_membase st' = bmk_membase st" "bmk_memsize st' = bmk_memsize st" "pagesz st' = pagesz st"
      "pagebucket st' = pagebucket st" "unat (current st) \<le> unat (current st')" "nextf st' = (nextf st)(b := op)"
    and low: "\<And>x. unat x < core_top st \<Longrightarrow> mem st' x = mem st x"
    and new: "\<And>a. a \<in> set new \<Longrightarrow> block_ok st' a b \<and> core_top st \<le> unat a" "distinct new"
      "chain (mem st') op new"
      "\<And>a c. a \<in> set new \<Longrightarrow> c \<in> set new \<Longrightarrow> a \<noteq> c \<Longrightarrow> block (a, b) \<inter> block (c, b) = {}"
  shows "heap_inv st' (F(b := new)) G"
proof (rule heap_invI)
  let ?F = "F(b := new)"
  have B: "y \<in> blocks F G \<or> fst y \<in> set new \<and> snd y = b" if "y \<in> blocks ?F G" for y
    using that by (auto simp: blocks_def split: if_splits)
  show phys: "physmem_ok st'" using heap_invD(1) [OF inv] st' by (simp add: physmem_ok_def)
  have high: "core_top st \<le> unat x" if "a \<in> set new" "x \<in> block (a, b)" for a x
    using in_block [OF phys, of a b x] new(1) [OF that(1)] that(2) by auto
  have sep: "block y \<inter> block (a, b) = {}" if "y \<in> blocks F G" "a \<in> set new" for y a
    using old_block_below [OF inv that(1)] high [OF that(2)] by fastforce
  have frame: "\<forall>x. x \<notin> {x. core_top st \<le> unat x} \<longrightarrow> mem st' x = mem st x" using low by auto
  have off: "block (a, c) \<inter> {x. core_top st \<le> unat x} = {}" if "(a, c) \<in> blocks F G" for a c
    using old_block_below [OF inv that] by fastforce
  note ok = heap_invD(1,4) [OF inv]
  show "block_ok st' a c" if "(a, c) \<in> blocks ?F G" for a c
    using B [OF that] new(1) block_ok_grow [OF ok(2) st'(1,2,5)] by auto
  show "block x \<inter> block y = {}" if "x \<in> blocks ?F G" "y \<in> blocks ?F G" "x \<noteq> y" for x y
    using B [OF that(1)] B [OF that(2)] that(3) heap_invD(5) [OF inv] sep new(4)
    by (cases x; cases y) (metis Int_commute fst_conv snd_conv)
  have "chain (mem st') q (F c) = chain (mem st) q (F c)" for q c
    by (rule chain_cong) (rule frame_other(1) [OF ok(1,2) frame off]; erule blocks_free)
  then show "chain (mem st') (nextf st' c) (?F c)" for c
    using heap_invD(2) [OF inv, of c] new(3) st'(6) by simp
  show "live_ok (mem st') p a c n" "a \<notin> set (?F c)" if "G p = Some (a, c, n)" for p a c n
    using that frame_other(2) [OF ok(1,2) frame off] blocks_live [of G, OF that] heap_invD(6,7) [OF inv that]
      sep [of "(a, c)" a] block_nonempty [of "(a, c)"] by (auto split: if_splits)
  show "distinct (?F c)" for c using heap_invD(3) [OF inv, of c] new(2) by auto
  show "p = q" if "G p = Some (a, c, n)" "G q = Some (a, c, k)" for p q a c n k
    using inv that by (rule heap_invD(8))
  show "paged st' \<or> pagesz st' = 0" using heap_invD(9) [OF inv] st' by (simp add: paged_def)
qed

lemma new_blocks_apart:
  assumes "\<exists>i < n. unat a = unat op + i * z" "\<exists>i < n. unat c = unat op + i * z" "a \<noteq> c"
    and "unat op + n * z < 2 ^ 32"
  shows "region a z \<inter> region c z = {}"
proof -
  obtain i j where i: "i < n" "unat a = unat op + i * z" and j: "j < n" "unat c = unat op + j * z"
    using assms(1,2) by blast
  have "i \<noteq> j" using i j assms(3) by (auto simp: word_unat_eq_iff)
  then have "Suc i * z \<le> j * z \<or> Suc j * z \<le> i * z" by (cases "i < j") (auto intro!: mult_le_mono1 simp del: mult_Suc)
  moreover have "Suc i * z \<le> n * z" "Suc j * z \<le> n * z" using i j by (auto intro!: mult_le_mono1 simp del: mult_Suc)
  ultimately show ?thesis using i j assms(4) by (intro disjoint_intervals) auto
qed

lemma heap_inv_morecore:
  assumes inv: "heap_inv st F G" and pg: "paged st" and F: "F b = []" and b: "b \<le> 26"
    and lt: "unat (current st) + core_pages b < 2 ^ 20"
  shows "\<exists>F'. heap_inv (morecore b st) F' G \<and> paged (morecore b st) \<and>
    (\<forall>x. unat x < core_top st \<longrightarrow> mem (morecore b st) x = mem st x)"
proof -
  obtain st1 op where al: "bmk_allocpg st (2 ^ (b - 7)) = (st1, op)" by fastforce
  have lt': "unat (current st) + unat (2 ^ (b - 7) :: u32) < 2 ^ 20" using lt unat_core_pages [OF b] by simp
  note ok = heap_invD(1) [OF inv]
  have st1: "st1 = st\<lparr>current := current st + 2 ^ (b - 7)\<rparr>"
    using bmk_allocpg_cases [OF ok lt'] al by (simp split: if_splits)
  have cur: "unat (current st1) = unat (current st) + core_pages b"
    using bmk_allocpg_advances [OF lt' al] unat_core_pages [OF b] by simp
  show ?thesis
  proof (cases "op = 0")
    case True
    then have "morecore b st = st1" using morecore_eq [OF pg b] al by simp
    moreover have "heap_inv st1 F G"
      unfolding st1 using cur st1 by (intro heap_inv_advance [OF inv]) simp
    ultimately show ?thesis using pg st1 by (auto simp: paged_def)
  next
    case False
    define new where "new = new_blocks (core_blocks b - 1) (2 ^ (b + 5)) op"
    obtain m op' where ml: "morecore_loop (core_blocks b - 1) (2 ^ (b + 5)) (mem st) op = (m, op')" by fastforce
    define m' where "m' = store32 m op' 0"
    have mc: "morecore b st = st1\<lparr>nextf := (nextf st)(b := op), mem := m'\<rparr>"
      using morecore_eq [OF pg b] al False ml st1 by (simp add: m'_def)
    have "0 < unat (2 ^ (b - 7) :: u32)" using unat_core_pages [OF b] by (simp add: core_pages_def)
    note op = bmk_allocpg_page [OF ok lt' this al False, unfolded unat_core_pages [OF b]]
    have k: "Suc (core_blocks b - 1) = core_blocks b" using core_blocks_pos [of b] by simp
    have top: "unat op + core_blocks b * bsize b < 2 ^ 32"
      using ok op by (simp add: core_bytes physmem_ok_def)
    have ch: "chain m' op new" and low: "\<And>x. unat x < core_top st \<Longrightarrow> m' x = mem st x"
      using morecore_loop_chain [OF ml] top k unat_bsize [OF b] bsize_ge [of b] False op(1)
      unfolding m'_def new_def core_top_def by auto
    note new = new_blocks_ok [OF ok b op, folded new_def]
    have "heap_inv (morecore b st) (F(b := new)) G"
    proof (rule heap_inv_add_blocks [OF inv F])
      show "block_ok (morecore b st) a b \<and> core_top st \<le> unat a" if "a \<in> set new" for a
        using new(2) [OF that] op cur b st1 unfolding mc by (auto simp: block_ok_def core_top_def)
      show "distinct new" using new_blocks_distinct [of op "core_blocks b - 1" "2 ^ (b + 5)"] top k
          unat_bsize [OF b] bsize_ge [of b] by (auto simp: new_def)
      show "block (a, b) \<inter> block (c, b) = {}" if "a \<in> set new" "c \<in> set new" "a \<noteq> c" for a c
        using new_blocks_apart [OF new(1) [OF that(1)] new(1) [OF that(2)] that(3) top] by (simp add: block_def)
    qed (use ch low cur st1 mc in simp_all)
    then show ?thesis using low pg st1 mc by (auto simp: paged_def)
  qed
qed

section \<open>Allocation\<close>

text \<open>
  The alignment a request gets, the bytes it needs with its header, and the two bounds under
  which the arithmetic of \<^verbatim>\<open>bmk_memalloc\<close> and \<^verbatim>\<open>bmk_allocpg\<close> does not wrap.
\<close>

definition eff_align :: "u32 \<Rightarrow> nat" where
  "eff_align align = (if align < 4 then 4 else unat align)"

definition need_bytes :: "u32 \<Rightarrow> u32 \<Rightarrow> nat" where
  "need_bytes nbytes align = unat nbytes + max 8 (eff_align align)"

definition request_fits :: "'a physmem_scheme \<Rightarrow> u32 \<Rightarrow> u32 \<Rightarrow> bool" where
  "request_fits st nbytes align \<longleftrightarrow> need_bytes nbytes align < 2 ^ 32 \<and>
     unat (current st) + core_pages (bucket_for (need_bytes nbytes align)) < 2 ^ 20"

lemma heap_inv_init:
  assumes "heap_inv st F G"
  shows "heap_inv (memalloc_init st) F G" "paged (memalloc_init st)" "mem (memalloc_init st) = mem st"
    "current (memalloc_init st) = current st"
proof -
  have eq: "memalloc_init st = (if pagesz st = 0 then st\<lparr>pagesz := PAGE_SIZE, pagebucket := 7\<rparr> else st)"
    unfolding memalloc_init_def pagebucket_loop_value ..
  show pg: "paged (memalloc_init st)" using heap_invD(9) [OF assms] unfolding eq by (auto simp: paged_def)
  show "mem (memalloc_init st) = mem st" "current (memalloc_init st) = current st" unfolding eq by simp_all
  have "nextf (memalloc_init st) = nextf st" "bmk_membase (memalloc_init st) = bmk_membase st"
    "bmk_memsize (memalloc_init st) = bmk_memsize st" unfolding eq by simp_all
  then show "heap_inv (memalloc_init st) F G"
    using assms pg \<open>mem (memalloc_init st) = mem st\<close> \<open>current (memalloc_init st) = current st\<close>
    by (simp add: heap_inv_def physmem_ok_def block_ok_def)
qed

text \<open>An accepted alignment is a power of two.\<close>

lemma align_power:
  assumes "align AND (align - 1) = 0"
  obtains k where "2 \<le> k" "k < 32" "(if align < 4 then 4 else align) = 2 ^ k" "eff_align align = 2 ^ k"
proof (cases "align < 4")
  case True
  then show ?thesis using that [of 2] by (simp add: eff_align_def)
next
  case False
  then have "align \<noteq> 0" by auto
  then obtain k where k: "k < 32" "align = 2 ^ k" using power_of_two_test [OF assms] by auto
  then have "unat align = 2 ^ k" by (simp add: unat_pow2)
  moreover have "4 \<le> unat align" using False by (simp add: word_less_nat_alt)
  ultimately have "(2 :: nat) ^ 2 \<le> 2 ^ k" by simp
  then have "2 \<le> k" by (subst (asm) power_increasing_iff) simp_all
  then show ?thesis using that [of k] k False \<open>unat align = 2 ^ k\<close> by (simp add: eff_align_def)
qed

lemma memalloc_bucket_eq:
  assumes "paged st" "2 \<le> k" "k < 32" "unat nbytes + max 8 (2 ^ k) < 2 ^ 32"
  shows "memalloc_bucket st nbytes (2 ^ k) =
    (if unat nbytes + max 8 (2 ^ k) \<le> 2 ^ 31 then Some (bucket_for (unat nbytes + max 8 (2 ^ k))) else None)"
proof -
  define h :: u32 where "h = (8 + (2 ^ k - 1)) AND NOT (2 ^ k - 1)"
  define ab where "ab = nbytes + h"
  have "unat h = max 8 (2 ^ k)" unfolding h_def using assms(2,3) by (rule header_space)
  then have ab: "unat ab = unat nbytes + max 8 (2 ^ k)"
    unfolding ab_def using assms(4) by (subst unat_add_no_wrap) simp_all
  have "memalloc_bucket st nbytes (2 ^ k) =
      bucket_loop ab (if ab \<le> 4096 then 2 ^ 5 else 4096) (if ab \<le> 4096 then 0 else 7)"
    using assms(1) unfolding memalloc_bucket_def sizeof_overhead_def h_def [symmetric] ab_def [symmetric]
    by (simp add: paged_def PAGE_SIZE_def MINSHIFT_def)
  then show ?thesis using bucket_search [of ab] ab by simp
qed

text \<open>What clients hold: no operation but their own writes changes the bytes they were given.\<close>

definition live_bytes_kept :: "live_blocks \<Rightarrow> memory \<Rightarrow> memory \<Rightarrow> bool" where
  "live_bytes_kept G m m' \<longleftrightarrow> (\<forall>q a c n x. G q = Some (a, c, n) \<longrightarrow> x \<in> region q n \<longrightarrow> m' x = m x)"

lemma live_region:
  assumes "heap_inv st F G" "G q = Some (a, c, n)"
  shows "region q n \<subseteq> block (a, c)"
  using heap_invD(6) [OF assms] heap_invD(4) [OF assms(1) blocks_live [of G, OF assms(2)]] heap_invD(1) [OF assms(1)]
  by (intro subregion_in_block) (auto simp: live_ok_def)

lemma live_bytes_low:
  assumes inv: "heap_inv st F G" and low: "\<forall>x. unat x < core_top st \<longrightarrow> m' x = mem st x"
  shows "live_bytes_kept G (mem st) m'"
  unfolding live_bytes_kept_def
proof (intro allI impI)
  fix q a c n x assume q: "G q = Some (a, c, n)" and "x \<in> region q n"
  then have "x \<in> block (a, c)" using live_region [OF inv q] by blast
  from old_block_below [OF inv blocks_live [of G, OF q] this] low show "m' x = mem st x" by simp
qed

lemma live_bytes_block:
  assumes inv: "heap_inv st F G" and y: "y \<in> blocks F G"
    and G': "\<And>q c d n. G' q = Some (c, d, n) \<Longrightarrow> G q = Some (c, d, n) \<and> (c, d) \<noteq> y"
    and m': "\<forall>x. x \<notin> block y \<longrightarrow> m' x = mem st x"
  shows "live_bytes_kept G' (mem st) m'"
  unfolding live_bytes_kept_def
proof (intro allI impI)
  fix q c d n x assume "G' q = Some (c, d, n)" and x: "x \<in> region q n"
  then have q: "G q = Some (c, d, n)" "(c, d) \<noteq> y" using G' by blast+
  then have "block (c, d) \<inter> block y = {}"
    using heap_invD(5) [OF inv blocks_live [of G, OF q(1)] y] by blast
  then show "m' x = mem st x" using x live_region [OF inv q(1)] m' by blast
qed

lemma live_bytes_trans:
  "live_bytes_kept G m m' \<Longrightarrow> live_bytes_kept G m' m'' \<Longrightarrow> live_bytes_kept G m m''"
  by (simp add: live_bytes_kept_def)

lemma live_bytes_refl [simp]: "live_bytes_kept G m m"
  by (simp add: live_bytes_kept_def)

text \<open>Taking a block off a non-empty free list.\<close>

lemma take_block:
  assumes inv: "heap_inv st F G" and F: "F b = op # xs" and k: "2 \<le> k" "k < 32"
    and n: "n + max 8 (2 ^ k) \<le> bsize b"
  defines "p \<equiv> (op + 8 + 2 ^ k - 1) AND NOT (2 ^ k - 1)"
  defines "m \<equiv> store32 ((mem st)(p - 8 + 4 := MAGIC, p - 8 + 5 := of_nat b)) (p - 8) (p - op)"
  shows "heap_inv (st\<lparr>nextf := (nextf st)(b := load32 (mem st) op), mem := m\<rparr>)
      (F(b := xs)) (G(p \<mapsto> (op, b, n)))"
    and "G p = None" "p \<noteq> 0" "2 ^ k dvd unat p" "live_bytes_kept G (mem st) m"
proof -
  have op: "op \<in> set (F b)" using F by simp
  note ok = heap_invD(1) [OF inv] heap_invD(4) [OF inv blocks_free [of op F b G, OF op]]
  have d: "8 dvd unat op" using ok(2) dvd_trans [of 8 32 "unat op"] by (simp add: block_ok_def)
  have "32 dvd unat op + bsize b"
    using ok(2) le_imp_power_dvd [of 5 "b + 5" "2 :: nat"] by (simp add: block_ok_def bsize_def)
  moreover have "unat op + bsize b < 2 ^ 32" using ok by (rule block_ok_fits)
  ultimately have "unat op + bsize b + 32 \<le> 2 ^ 32" by (elim dvdE) simp
  then have fit: "unat op + 2 ^ k + 7 < 2 ^ 32" using n by simp
  note al = align_up [OF k d fit, folded p_def]
  have p: "unat op + 8 \<le> unat p" "unat p + n \<le> unat op + bsize b" using al n by auto
  then show "p \<noteq> 0" by auto
  show "2 ^ k dvd unat p" by (rule al(1))
  have m: "m = store32 ((mem st)(p - 4 := MAGIC, p - 3 := of_nat b)) (p - 8) (p - op)" by (simp add: m_def)
  show "heap_inv (st\<lparr>nextf := (nextf st)(b := load32 (mem st) op), mem := m\<rparr>)
      (F(b := xs)) (G(p \<mapsto> (op, b, n)))" "G p = None"
    using heap_inv_pop [OF inv F p] unfolding m .
  show "live_bytes_kept G (mem st) m"
    unfolding m using header_writes [OF ok p(1)] p(2) heap_invD(7) [OF inv] op
    by (intro live_bytes_block [OF inv blocks_free [of op F b G, OF op]]) auto
qed

lemma memalloc_take_spec:
  assumes inv: "heap_inv st F G" and pg: "paged st" and b: "b \<le> 26"
    and lt: "unat (current st) + core_pages b < 2 ^ 20" and k: "2 \<le> k" "k < 32"
    and n: "n + max 8 (2 ^ k) \<le> bsize b" and t: "memalloc_take st b (2 ^ k) = (st', p)"
  shows "live_bytes_kept G (mem st) (mem st') \<and>
    (if p = 0 then \<exists>F'. heap_inv st' F' G
     else G p = None \<and> 2 ^ k dvd unat p \<and> (\<exists>F' a. heap_inv st' F' (G(p \<mapsto> (a, b, n)))))"
proof -
  define st1 where "st1 = (if nextf st b = 0 then morecore b st else st)"
  have t': "(st', p) = (if nextf st1 b = 0 then (st1, 0)
      else (let p = (nextf st1 b + 8 + 2 ^ k - 1) AND NOT (2 ^ k - 1) in
        (st1\<lparr>nextf := (nextf st1)(b := load32 (mem st1) (nextf st1 b)),
             mem := store32 ((mem st1)(p - 8 + 4 := MAGIC, p - 8 + 5 := of_nat b)) (p - 8) (p - nextf st1 b)\<rparr>, p)))"
    using t unfolding memalloc_take_def st1_def [symmetric] sizeof_overhead_def
    by (auto simp: Let_def split: if_splits)
  have "\<exists>F'. heap_inv st1 F' G \<and> live_bytes_kept G (mem st) (mem st1)"
  proof (cases "nextf st b = 0")
    case True
    then have "F b = []" using heap_invD(2) [OF inv, of b] by (cases "F b") auto
    from heap_inv_morecore [OF inv pg this b lt] True show ?thesis
      unfolding st1_def using live_bytes_low [OF inv] by auto
  next
    case False
    then show ?thesis using inv by (auto simp: st1_def)
  qed
  then obtain F1 where F1: "heap_inv st1 F1 G" and kept: "live_bytes_kept G (mem st) (mem st1)" by blast
  show ?thesis
  proof (cases "nextf st1 b = 0")
    case True
    then show ?thesis using t' F1 kept by auto
  next
    case False
    then obtain xs where xs: "F1 b = nextf st1 b # xs" using heap_invD(2) [OF F1, of b] by (cases "F1 b") auto
    note tb = take_block [OF F1 xs k n]
    show ?thesis
      using t' False tb live_bytes_trans [OF kept tb(5)] by (auto simp: Let_def)
  qed
qed

text \<open>
  \<^verbatim>\<open>bmk_memalloc\<close> keeps the invariant, whatever it returns. A pointer it returns is new, aligned
  as asked, and has room for the bytes asked for; the bytes of the other clients do not change.
\<close>

lemma bmk_memalloc_spec:
  assumes inv: "heap_inv st F G" and fits: "request_fits st nbytes align"
    and call: "bmk_memalloc st nbytes align = (st', p)"
  shows "live_bytes_kept G (mem st) (mem st') \<and>
    (if p = 0 then \<exists>F'. heap_inv st' F' G
     else G p = None \<and> eff_align align dvd unat p \<and>
       (\<exists>F' a b. heap_inv st' F' (G(p \<mapsto> (a, b, unat nbytes)))))"
proof -
  note i = heap_inv_init [OF inv]
  show ?thesis
  proof (cases "align AND (align - 1) = 0")
    case False
    then show ?thesis using call i by (auto simp: bmk_memalloc_def)
  next
    case True
    then obtain k where k: "2 \<le> k" "k < 32" "(if align < 4 then 4 else align) = 2 ^ k" "eff_align align = 2 ^ k"
      by (rule align_power)
    have need: "need_bytes nbytes align = unat nbytes + max 8 (2 ^ k)" by (simp add: need_bytes_def k(4))
    show ?thesis
    proof (cases "need_bytes nbytes align \<le> 2 ^ 31")
      case False
      then have "memalloc_bucket (memalloc_init st) nbytes (2 ^ k) = None"
        using memalloc_bucket_eq [OF i(2) k(1,2)] fits need by (simp add: request_fits_def)
      then show ?thesis using call i True by (auto simp: bmk_memalloc_def k(3))
    next
      case le: True
      define b where "b = bucket_for (need_bytes nbytes align)"
      note bf = bucket_for_bounds [OF le, folded b_def]
      have "memalloc_bucket (memalloc_init st) nbytes (2 ^ k) = Some b"
        using memalloc_bucket_eq [OF i(2) k(1,2)] fits need le by (simp add: request_fits_def b_def)
      then have "memalloc_take (memalloc_init st) b (2 ^ k) = (st', p)"
        using call True by (simp add: bmk_memalloc_def k(3))
      from memalloc_take_spec [OF i(1,2) bf(1) _ k(1,2) _ this, of "unat nbytes"] bf(2) fits need i(3,4)
      show ?thesis by (auto simp: request_fits_def b_def k(4) split: if_splits)
    qed
  qed
qed

end
