(* ===== verification/Heapclient.thy ===== *)
theory Heapclient
  imports Heapinv
begin

text \<open>
  The allocator as its clients see it: the contract, as the locale \<open>allocator\<close> interpreted on
  \<^verbatim>\<open>bmk_memalloc\<close> and \<^verbatim>\<open>bmk_memfree\<close>, the transition system of the heap and its clients, and
  the properties of allocation, release and reallocation.
\<close>

section \<open>The contract of the allocator\<close>

text \<open>
  What the rest of the kernel relies on, for any allocator over the flat memory: \<open>ok s L\<close> reads
  that in state \<open>s\<close> the live allocations and their sizes are \<open>L\<close>.
\<close>

type_synonym allocations = "u32 \<rightharpoonup> nat"

definition bytes_kept :: "allocations \<Rightarrow> memory \<Rightarrow> memory \<Rightarrow> bool" where
  "bytes_kept L m m' \<longleftrightarrow> (\<forall>p n x. L p = Some n \<longrightarrow> x \<in> region p n \<longrightarrow> m' x = m x)"

lemma bytes_kept_trans: "bytes_kept L m m' \<Longrightarrow> bytes_kept L m' m'' \<Longrightarrow> bytes_kept L m m''"
  by (simp add: bytes_kept_def)

locale allocator =
  fixes ok :: "'s \<Rightarrow> allocations \<Rightarrow> bool"
    and bytes :: "'s \<Rightarrow> memory"
    and set_byte :: "'s \<Rightarrow> u32 \<Rightarrow> u8 \<Rightarrow> 's"
    and fits :: "'s \<Rightarrow> u32 \<Rightarrow> u32 \<Rightarrow> bool"
    and alloc :: "'s \<Rightarrow> u32 \<Rightarrow> u32 \<Rightarrow> 's \<times> u32"
    and free :: "'s \<Rightarrow> u32 \<Rightarrow> 's outcome"
  assumes alloc_null: "ok s L \<Longrightarrow> fits s nb al \<Longrightarrow> alloc s nb al = (s', 0) \<Longrightarrow>
      ok s' L \<and> bytes_kept L (bytes s) (bytes s')"
    and alloc_new: "ok s L \<Longrightarrow> fits s nb al \<Longrightarrow> alloc s nb al = (s', p) \<Longrightarrow> p \<noteq> 0 \<Longrightarrow>
      L p = None \<and> ok s' (L(p \<mapsto> unat nb)) \<and> bytes_kept L (bytes s) (bytes s')"
    and free_live: "ok s L \<Longrightarrow> L p = Some n \<Longrightarrow>
      \<exists>s'. free s p = Returns s' \<and> ok s' (L(p := None)) \<and> bytes_kept (L(p := None)) (bytes s) (bytes s')"
    and write_live: "ok s L \<Longrightarrow> L p = Some n \<Longrightarrow> x \<in> region p n \<Longrightarrow> ok (set_byte s x v) L"
    and bytes_set: "bytes (set_byte s x v) = (bytes s)(x := v)"
    and live_disjoint: "ok s L \<Longrightarrow> L p = Some n \<Longrightarrow> L q = Some k \<Longrightarrow> p \<noteq> q \<Longrightarrow> region p n \<inter> region q k = {}"
begin

lemma new_disjoint:
  assumes "ok s L" "fits s n al" "alloc s n al = (s', p)" "p \<noteq> 0" "L q = Some k"
  shows "region p (unat n) \<inter> region q k = {}"
proof -
  have "L p = None" "ok s' (L(p \<mapsto> unat n))" using alloc_new [OF assms(1-4)] by auto
  moreover from this have "p \<noteq> q" using assms(5) by auto
  ultimately show ?thesis
    using live_disjoint [of s' "L(p \<mapsto> unat n)" p "unat n" q k] assms(5) by simp
qed

lemma alloc_free:
  assumes "ok s L" "fits s n al" "alloc s n al = (s', p)" "p \<noteq> 0"
  shows "\<exists>s''. free s' p = Returns s'' \<and> ok s'' L \<and> bytes_kept L (bytes s) (bytes s'')"
proof -
  have a: "L p = None" "ok s' (L(p \<mapsto> unat n))" "bytes_kept L (bytes s) (bytes s')"
    using alloc_new [OF assms] by auto
  have L: "(L(p \<mapsto> unat n))(p := None) = L" using a(1) by auto
  from free_live [OF a(2), of p "unat n"] obtain s'' where
    "free s' p = Returns s''" "ok s'' L" "bytes_kept L (bytes s') (bytes s'')"
    unfolding L by auto
  then show ?thesis using bytes_kept_trans [OF a(3)] by blast
qed

text \<open>Writing one allocation leaves the bytes of every other as they were.\<close>

lemma write_other:
  assumes "ok s L" "L p = Some n" "x \<in> region p n" "L q = Some k" "q \<noteq> p" "y \<in> region q k"
  shows "bytes (set_byte s x v) y = bytes s y"
  using live_disjoint [OF assms(1,2,4)] assms by (auto simp: bytes_set)

end

definition heap_ok :: "heap \<Rightarrow> allocations \<Rightarrow> bool" where
  "heap_ok st L \<longleftrightarrow> (\<exists>F G. heap_inv st F G \<and> L = (\<lambda>p. map_option (\<lambda>(a, b, n). n) (G p)))"

definition poke :: "heap \<Rightarrow> u32 \<Rightarrow> u8 \<Rightarrow> heap" where
  "poke st x v = st\<lparr>mem := (mem st)(x := v)\<rparr>"

lemma live_sizes:
  fixes G :: live_blocks
  assumes "L = (\<lambda>p. map_option (\<lambda>(a, b, n). n) (G p))"
  shows "L p = Some n \<longleftrightarrow> (\<exists>a b. G p = Some (a, b, n))"
    and "bytes_kept L m m' \<longleftrightarrow> live_bytes_kept G m m'"
    and "L(p \<mapsto> n) = (\<lambda>q. map_option (\<lambda>(a, b, n). n) ((G(p \<mapsto> (a, b, n))) q))"
    and "L(p := None) = (\<lambda>q. map_option (\<lambda>(a, b, n). n) ((G(p := None)) q))"
proof -
  show s: "L p = Some n \<longleftrightarrow> (\<exists>a b. G p = Some (a, b, n))" for p n using assms by auto
  show "bytes_kept L m m' \<longleftrightarrow> live_bytes_kept G m m'"
    unfolding bytes_kept_def live_bytes_kept_def s by blast
qed (use assms in \<open>auto simp: fun_eq_iff\<close>)

lemma live_blocks_apart:
  assumes inv: "heap_inv st F G" and "G p = Some (a, b, n)" "G q = Some (c, d, k)" "p \<noteq> q"
  shows "region p n \<inter> region q k = {}"
proof -
  have "(a, b) \<noteq> (c, d)" using heap_invD(8) [OF inv] assms by blast
  then have "block (a, b) \<inter> block (c, d) = {}"
    using heap_invD(5) [OF inv] blocks_live [of G, OF assms(2)] blocks_live [of G, OF assms(3)] by blast
  then show ?thesis using live_region [OF inv] assms(2,3) by blast
qed

lemma heap_ok_alloc:
  assumes "heap_ok st L" "request_fits st n al" "bmk_memalloc st n al = (st', p)"
  shows "bytes_kept L (mem st) (mem st') \<and>
    (if p = 0 then heap_ok st' L else L p = None \<and> eff_align al dvd unat p \<and> heap_ok st' (L(p \<mapsto> unat n)))"
proof -
  obtain F G where inv: "heap_inv st F G" and L: "L = (\<lambda>p. map_option (\<lambda>(a, b, n). n) (G p))"
    using assms(1) by (auto simp: heap_ok_def)
  note spec = bmk_memalloc_spec [OF inv assms(2,3)]
  have kept: "bytes_kept L (mem st) (mem st')" using spec live_sizes(2) [OF L] by blast
  show ?thesis
  proof (cases "p = 0")
    case True
    then show ?thesis using spec kept L by (auto simp: heap_ok_def)
  next
    case False
    then obtain F' a b where "G p = None" "eff_align al dvd unat p" "heap_inv st' F' (G(p \<mapsto> (a, b, unat n)))"
      using spec by auto
    moreover from this have "heap_ok st' (L(p \<mapsto> unat n))"
      unfolding heap_ok_def using live_sizes(3) [OF L] by blast
    ultimately show ?thesis using False kept L by simp
  qed
qed

lemma heap_ok_free:
  assumes "heap_ok st L" "L p = Some n"
  shows "\<exists>st'. bmk_memfree st p = Returns st' \<and> heap_ok st' (L(p := None)) \<and>
    bytes_kept (L(p := None)) (mem st) (mem st')"
proof -
  obtain F G where inv: "heap_inv st F G" and L: "L = (\<lambda>p. map_option (\<lambda>(a, b, n). n) (G p))"
    using assms(1) by (auto simp: heap_ok_def)
  then obtain a b where p: "G p = Some (a, b, n)" using assms(2) by (auto simp: live_sizes(1) [OF L])
  let ?st = "st\<lparr>mem := store32 (mem st) a (nextf st b), nextf := (nextf st)(b := a)\<rparr>"
  have B: "(a, b) \<in> blocks F G" using p by (rule blocks_live)
  have "\<forall>x. x \<notin> block (a, b) \<longrightarrow> mem ?st x = mem st x"
    using link_in_block [OF heap_invD(1) [OF inv] heap_invD(4) [OF inv B]] by (auto intro: store32_outside)
  then have "live_bytes_kept (G(p := None)) (mem st) (mem ?st)"
    using heap_invD(8) [OF inv p] by (intro live_bytes_block [OF inv B]) (auto split: if_splits)
  then show ?thesis
    using bmk_memfree_live [OF inv p] heap_inv_free [OF inv p] live_sizes(4) [OF L, of p]
      live_sizes(2) [OF live_sizes(4) [OF L, of p]]
    unfolding heap_ok_def by blast
qed

interpretation kmalloc: allocator heap_ok mem poke request_fits bmk_memalloc bmk_memfree
proof (unfold_locales, goal_cases)
  case (1 st L n al st')
  then show ?case using heap_ok_alloc [of st L n al st' 0] by simp
next
  case (2 st L n al st' p)
  then show ?case using heap_ok_alloc [of st L n al st' p] by simp
next
  case (3 st L p n)
  then show ?case by (rule heap_ok_free)
next
  case (4 st L p n x v)
  then show ?case
    unfolding heap_ok_def poke_def using heap_inv_client_write by (fastforce simp: live_sizes(1))
next
  case (5 st x v)
  then show ?case by (simp add: poke_def)
next
  case (6 st L p n q k)
  then show ?case unfolding heap_ok_def using live_blocks_apart by (fastforce simp: live_sizes(1))
qed

section \<open>Clients of the heap\<close>

text \<open>
  The kernel and its clients as a transition system: a client asks for memory, gives back what it
  holds, or writes a byte it holds.
\<close>

inductive heap_step :: "heap \<times> allocations \<Rightarrow> heap \<times> allocations \<Rightarrow> bool" where
  alloc: "heap_step (st, L) (st', L(p \<mapsto> unat n))"
    if "request_fits st n al" "bmk_memalloc st n al = (st', p)" "p \<noteq> 0"
| alloc_fails: "heap_step (st, L) (st', L)"
    if "request_fits st n al" "bmk_memalloc st n al = (st', 0)"
| release: "heap_step (st, L) (st', L(p := None))"
    if "L p = Some n" "bmk_memfree st p = Returns st'"
| client_write: "heap_step (st, L) (poke st x v, L)"
    if "L p = Some n" "x \<in> region p n"

inductive heap_reach :: "heap \<times> allocations \<Rightarrow> heap \<times> allocations \<Rightarrow> bool" where
  here: "heap_reach s s"
| step: "heap_reach s s'' " if "heap_reach s s'" "heap_step s' s''"

inductive_cases heap_stepE: "heap_step (st, L) (st', L')"

text \<open>The allocator as the kernel starts it: free lists empty, \<^verbatim>\<open>pagesz\<close> still zero.\<close>

definition heap_start :: "heap \<Rightarrow> bool" where
  "heap_start st \<longleftrightarrow> physmem_ok st \<and> pagesz st = 0 \<and> (\<forall>b. nextf st b = 0)"

lemma heap_start_ok: "heap_start st \<Longrightarrow> heap_ok st Map.empty"
  unfolding heap_ok_def
  by (rule exI [of _ "\<lambda>_. []"], rule exI [of _ Map.empty])
    (auto simp: heap_start_def heap_inv_def blocks_def)

lemma heap_step_ok: "heap_step (st, L) (st', L') \<Longrightarrow> heap_ok st L \<Longrightarrow> heap_ok st' L'"
  by (erule heap_stepE) (auto dest: kmalloc.alloc_new kmalloc.alloc_null kmalloc.free_live kmalloc.write_live)

lemma heap_reach_ok:
  assumes "heap_reach s s'" "heap_ok (fst s) (snd s)"
  shows "heap_ok (fst s') (snd s')"
  using assms
proof (induction rule: heap_reach.induct)
  case (step s s' s'')
  then show ?case using heap_step_ok [of "fst s'" "snd s'" "fst s''" "snd s''"] by simp
qed simp

definition managed :: "'a physmem_scheme \<Rightarrow> u32 set" where
  "managed st = {x. unat (bmk_membase st) \<le> unat x \<and> unat x < unat (bmk_membase st) + unat (bmk_memsize st)}"

lemma live_managed:
  assumes "heap_ok st L" "L p = Some n"
  shows "region p n \<subseteq> managed st"
proof -
  obtain F G where inv: "heap_inv st F G" and L: "L = (\<lambda>p. map_option (\<lambda>(a, b, n). n) (G p))"
    using assms(1) by (auto simp: heap_ok_def)
  then obtain a b where p: "G p = Some (a, b, n)" using assms(2) by (auto simp: live_sizes(1) [OF L])
  note ok = heap_invD(1) [OF inv] heap_invD(4) [OF inv blocks_live [of G, OF p]]
  have "block (a, b) \<subseteq> managed st" using in_block [OF ok] ok(2) by (auto simp: managed_def block_ok_def)
  then show ?thesis using live_region [OF inv p] by blast
qed

text \<open>
  (C1) In every state the allocator and its clients can reach from the start, whatever the
  sequence of requests, releases and writes to held memory: the live allocations lie inside the
  managed memory, no two of them share a byte, and each of them can be given back without
  tripping the allocator's assertion.
\<close>

theorem heap_reachable_safe:
  assumes "heap_start st0" "heap_reach (st0, Map.empty) (st, L)" "L p = Some n"
  shows "region p n \<subseteq> managed st \<and>
    (\<forall>q k. L q = Some k \<and> q \<noteq> p \<longrightarrow> region p n \<inter> region q k = {}) \<and>
    (\<exists>st'. bmk_memfree st p = Returns st')"
proof -
  have ok: "heap_ok st L" using heap_reach_ok [OF assms(2)] heap_start_ok [OF assms(1)] by simp
  then show ?thesis
    using live_managed [OF ok assms(3)] kmalloc.live_disjoint [OF ok assms(3)] kmalloc.free_live [OF ok assms(3)]
    by blast
qed

text \<open>
  (C4) Steps of other clients do not disturb what a client holds: a byte of a live allocation
  changes only by a write to that very address.
\<close>

theorem heap_step_keeps_bytes:
  assumes "heap_start st0" "heap_reach (st0, Map.empty) (st, L)" "heap_step (st, L) (st', L')"
    and "L p = Some n" "L' p = Some n" "x \<in> region p n"
  shows "mem st' x = mem st x \<or> (\<exists>v. st' = poke st x v)"
proof -
  have ok: "heap_ok st L" using heap_reach_ok [OF assms(2)] heap_start_ok [OF assms(1)] by simp
  from assms(3) show ?thesis
  proof cases
    case (alloc nb al q)
    then show ?thesis using kmalloc.alloc_new [OF ok] assms(4,6) by (fastforce simp: bytes_kept_def)
  next
    case (alloc_fails nb al)
    then show ?thesis using kmalloc.alloc_null [OF ok] assms(4,6) by (fastforce simp: bytes_kept_def)
  next
    case (release q k)
    then show ?thesis using kmalloc.free_live [OF ok release(2)] assms(5,6) by (auto simp: bytes_kept_def)
  next
    case (client_write y v q k)
    then show ?thesis by (cases "y = x") (auto simp: poke_def)
  qed
qed

lemma morecore_gives:
  assumes ok: "physmem_ok st" and pg: "paged st" and b: "b \<le> 26"
    and lt: "unat (current st) + core_pages b < 2 ^ 20"
    and room: "4096 * (unat (current st) + core_pages b) \<le> unat (bmk_memsize st)"
  shows "nextf (morecore b st) b \<noteq> 0"
proof -
  have lt': "unat (current st) + unat (2 ^ (b - 7) :: u32) < 2 ^ 20" using lt unat_core_pages [OF b] by simp
  have "unat (PAGE_SIZE * current st) = 4096 * unat (current st)" using lt by (intro unat_pages) simp
  then have "unat (bmk_membase st + PAGE_SIZE * current st) = unat (bmk_membase st) + 4096 * unat (current st)"
    using ok room by (subst unat_add_no_wrap) (auto simp: physmem_ok_def)
  then have "bmk_membase st + PAGE_SIZE * current st \<noteq> 0" using ok by (auto simp: physmem_ok_def)
  then show ?thesis
    using morecore_eq [OF pg b] bmk_allocpg_cases [OF ok lt'] room unat_core_pages [OF b]
    by (simp split: prod.split)
qed

text \<open>There is core for a request when the pages of its bucket are left.\<close>

definition core_left :: "'a physmem_scheme \<Rightarrow> u32 \<Rightarrow> u32 \<Rightarrow> bool" where
  "core_left st nbytes align \<longleftrightarrow>
     4096 * (unat (current st) + core_pages (bucket_for (need_bytes nbytes align))) \<le> unat (bmk_memsize st)"

lemma memalloc_take_gives:
  assumes inv: "heap_inv st F G" and pg: "paged st" and b: "b \<le> 26" and k: "2 \<le> k" "k < 32"
    and lt: "unat (current st) + core_pages b < 2 ^ 20"
    and room: "4096 * (unat (current st) + core_pages b) \<le> unat (bmk_memsize st)"
    and n: "n + max 8 (2 ^ k) \<le> bsize b"
  shows "snd (memalloc_take st b (2 ^ k)) \<noteq> 0"
proof -
  define st1 where "st1 = (if nextf st b = 0 then morecore b st else st)"
  have st1: "nextf st1 b \<noteq> 0"
    using morecore_gives [OF heap_invD(1) [OF inv] pg b lt room] by (simp add: st1_def)
  obtain F1 where F1: "heap_inv st1 F1 G"
  proof (cases "nextf st b = 0")
    case True
    then have "F b = []" using heap_invD(2) [OF inv, of b] by (cases "F b") auto
    from heap_inv_morecore [OF inv pg this b lt] show ?thesis using that True unfolding st1_def by auto
  qed (use inv that in \<open>auto simp: st1_def\<close>)
  obtain xs where xs: "F1 b = nextf st1 b # xs" using heap_invD(2) [OF F1, of b] st1 by (cases "F1 b") auto
  show ?thesis
    using take_block(3) [OF F1 xs k n] st1
    unfolding memalloc_take_def st1_def [symmetric] sizeof_overhead_def by (simp add: Let_def)
qed

lemma bmk_memalloc_gives:
  assumes ok: "heap_ok st L" and fits: "request_fits st nbytes align" and al: "align AND (align - 1) = 0"
    and n: "need_bytes nbytes align \<le> 2 ^ 31" and room: "core_left st nbytes align"
  shows "snd (bmk_memalloc st nbytes align) \<noteq> 0"
proof -
  obtain F G where inv: "heap_inv st F G" using ok by (auto simp: heap_ok_def)
  note i = heap_inv_init [OF inv]
  obtain k where k: "2 \<le> k" "k < 32" "(if align < 4 then 4 else align) = 2 ^ k" "eff_align align = 2 ^ k"
    using al by (rule align_power)
  have need: "need_bytes nbytes align = unat nbytes + max 8 (2 ^ k)" by (simp add: need_bytes_def k(4))
  define b where "b = bucket_for (need_bytes nbytes align)"
  note bf = bucket_for_bounds [OF n, folded b_def]
  have "memalloc_bucket (memalloc_init st) nbytes (2 ^ k) = Some b"
    using memalloc_bucket_eq [OF i(2) k(1,2)] fits need n by (simp add: request_fits_def b_def)
  then have "bmk_memalloc st nbytes align = memalloc_take (memalloc_init st) b (2 ^ k)"
    using al by (simp add: bmk_memalloc_def k(3))
  moreover have "bmk_memsize (memalloc_init st) = bmk_memsize st" by (simp add: memalloc_init_def)
  ultimately show ?thesis
    using memalloc_take_gives [OF i(1,2) bf(1) k(1,2), of "unat nbytes"] i(4) fits room bf(2) need
    by (simp add: request_fits_def core_left_def b_def)
qed

text \<open>
  (C5) \<^verbatim>\<open>bmk_memalloc\<close> succeeds whenever it should: a request with a power-of-two alignment (zero
  included) that needs at most 2 GB with its header, for whose bucket there are pages left, gets a
  pointer. The pointer is new, aligned as asked, clear of every live allocation, and taking it
  changes no byte of those.
\<close>

theorem bmk_memalloc_succeeds:
  assumes "heap_ok st L" "request_fits st nbytes align" "align AND (align - 1) = 0"
    and "need_bytes nbytes align \<le> 2 ^ 31" "core_left st nbytes align"
  shows "\<exists>st' p. bmk_memalloc st nbytes align = (st', p) \<and> p \<noteq> 0 \<and> L p = None \<and>
    eff_align align dvd unat p \<and> heap_ok st' (L(p \<mapsto> unat nbytes)) \<and>
    (\<forall>q k. L q = Some k \<longrightarrow> region p (unat nbytes) \<inter> region q k = {}) \<and> bytes_kept L (mem st) (mem st')"
proof -
  obtain st' p where call: "bmk_memalloc st nbytes align = (st', p)" by fastforce
  then have p: "p \<noteq> 0" using bmk_memalloc_gives [OF assms] by simp
  show ?thesis
    using call p heap_ok_alloc [OF assms(1,2) call] kmalloc.new_disjoint [OF assms(1,2) call p] by auto
qed

definition sample_heap :: heap where
  "sample_heap = \<lparr>bmk_membase = 0x200000, bmk_memsize = 0x1000000, current = 0,
     mem = (\<lambda>_. 0), nextf = (\<lambda>_. 0), pagesz = 0, pagebucket = 0\<rparr>"

lemma sample_heap_start: "heap_start sample_heap"
  by (simp add: heap_start_def sample_heap_def physmem_ok_def)

lemma sample_request:
  "request_fits sample_heap 100 64 \<and> need_bytes 100 64 \<le> 2 ^ 31 \<and> core_left sample_heap 100 64"
proof -
  have n: "need_bytes 100 64 = 164" by (simp add: need_bytes_def eff_align_def)
  have "bucket_for 164 = 3" by (rule bucket_for_eq) (simp_all add: bsize_def)
  then show ?thesis by (simp add: request_fits_def core_left_def n core_pages_def sample_heap_def)
qed

theorem bmk_memalloc_succeeds_witness:
  "\<exists>st' p. bmk_memalloc sample_heap 100 64 = (st', p) \<and> p \<noteq> 0 \<and> 64 dvd unat p \<and>
     heap_ok st' [p \<mapsto> 100]"
  using bmk_memalloc_succeeds [OF heap_start_ok [OF sample_heap_start], of 100 64] sample_request
  by (auto simp: eff_align_def)

lemma sample_reached: "\<exists>st p. heap_reach (sample_heap, Map.empty) (st, [p \<mapsto> 100])"
proof -
  obtain st p where call: "bmk_memalloc sample_heap 100 64 = (st, p)" by fastforce
  then have "p \<noteq> 0"
    using bmk_memalloc_gives [OF heap_start_ok [OF sample_heap_start], of 100 64] sample_request by simp
  then have "heap_step (sample_heap, Map.empty) (st, [p \<mapsto> unat (100 :: u32)])"
    using heap_step.alloc [OF _ call] sample_request by simp
  then show ?thesis using heap_reach.step [OF heap_reach.here] by fastforce
qed

theorem heap_reachable_safe_witness:
  "\<exists>st p. heap_reach (sample_heap, Map.empty) (st, [p \<mapsto> 100]) \<and> region p 100 \<subseteq> managed st \<and>
     (\<exists>st'. bmk_memfree st p = Returns st')"
proof -
  obtain st p where r: "heap_reach (sample_heap, Map.empty) (st, [p \<mapsto> 100])" using sample_reached by blast
  from heap_reachable_safe [OF sample_heap_start r, of p 100] r show ?thesis by auto
qed

theorem heap_step_keeps_bytes_witness:
  "\<exists>st p. heap_step (st, [p \<mapsto> 100]) (poke st p 7, [p \<mapsto> 100]) \<and> mem (poke st p 7) (p + 1) = mem st (p + 1)"
proof -
  obtain st p where r: "heap_reach (sample_heap, Map.empty) (st, [p \<mapsto> 100])" using sample_reached by blast
  have s: "heap_step (st, [p \<mapsto> 100]) (poke st p 7, [p \<mapsto> 100])"
    by (rule heap_step.client_write [of _ p 100]) simp_all
  have "p + 1 \<in> region p 100" by (simp add: region_def)
  from heap_step_keeps_bytes [OF sample_heap_start r s _ _ this] s show ?thesis
    by (auto simp: poke_def)
qed

text \<open>
  (C29) The bucket search, which starts at the page bucket for requests above a page, always finds
  the smallest bucket whose blocks hold the bytes asked for and their header, and gives up exactly
  above 2 GB; so the index is at most 26, inside \<^verbatim>\<open>nextf\<close>.
\<close>

theorem memalloc_bucket_least:
  assumes "paged st" "align AND (align - 1) = 0" "need_bytes nbytes align < 2 ^ 32"
  shows "memalloc_bucket st nbytes (if align < 4 then 4 else align) =
      (if need_bytes nbytes align \<le> 2 ^ 31 then Some (bucket_for (need_bytes nbytes align)) else None) \<and>
    (need_bytes nbytes align \<le> 2 ^ 31 \<longrightarrow> bucket_for (need_bytes nbytes align) \<le> 26)"
proof -
  obtain k where k: "2 \<le> k" "k < 32" "(if align < 4 then 4 else align) = 2 ^ k" "eff_align align = 2 ^ k"
    using assms(2) by (rule align_power)
  show ?thesis
    using memalloc_bucket_eq [OF assms(1) k(1,2)] assms(3) bucket_for_bounds(1) unfolding k(3)
    by (simp add: need_bytes_def k(4))
qed

theorem memalloc_bucket_least_witness:
  "memalloc_bucket (sample_heap\<lparr>pagesz := PAGE_SIZE, pagebucket := 7\<rparr>) 5000 4 = Some 8"
proof -
  have "need_bytes 5000 4 = 5008" by (simp add: need_bytes_def eff_align_def)
  moreover have "bucket_for 5008 = 8" by (rule bucket_for_eq) (simp_all add: bsize_def)
  ultimately show ?thesis
    using memalloc_bucket_least [of "sample_heap\<lparr>pagesz := PAGE_SIZE, pagebucket := 7\<rparr>" 4 5000]
    by (simp add: paged_def)
qed

text \<open>
  (C31) The size computation wraps: asking for $2^{32} - 1$ bytes yields a pointer into a block of
  32 bytes.
\<close>

theorem bmk_memalloc_size_wraps:
  "memalloc_bucket (memalloc_init sample_heap) 0xffffffff 4 = Some 0 \<and>
   snd (bmk_memalloc sample_heap 0xffffffff 0) \<noteq> 0 \<and> bsize 0 = 32"
proof -
  have b: "memalloc_bucket (memalloc_init sample_heap) 0xffffffff 4 = Some 0"
    by (simp add: memalloc_bucket_def memalloc_init_def sample_heap_def sizeof_overhead_def PAGE_SIZE_def
        MINSHIFT_def bucket_loop.simps Let_def)
  obtain F G where inv: "heap_inv sample_heap F G"
    using heap_start_ok [OF sample_heap_start] by (auto simp: heap_ok_def)
  note i = heap_inv_init [OF inv]
  have "snd (memalloc_take (memalloc_init sample_heap) 0 (2 ^ 2)) \<noteq> 0"
    by (rule memalloc_take_gives [OF i(1,2), where n = 0])
      (simp_all add: i(4) core_pages_def bsize_def memalloc_init_def sample_heap_def)
  then show ?thesis using b by (simp add: bmk_memalloc_def bsize_def)
qed

end
