(* ===== verification/Realloc.thy ===== *)
theory Realloc
  imports Heapclient
begin

text \<open>
  \<^verbatim>\<open>bmk_memrealloc\<close> on the heap: what it keeps and copies, and the eight bytes it loses because
  it counts the header of a block twice.
\<close>

section \<open>Reallocation\<close>

text \<open>The room \<^verbatim>\<open>bmk_memrealloc\<close> credits a live block with, read from its header.\<close>

definition realloc_room :: "heap \<Rightarrow> u32 \<Rightarrow> u32" where
  "realloc_room st cp = push_bit (unat (mem st (cp - 3)) + 5) 1 - (load32 (mem st) (cp - 8) + 8)"

lemma bmk_memrealloc_eq:
  assumes "cp \<noteq> 0" "nbytes \<noteq> 0"
  shows "bmk_memrealloc st cp nbytes =
    (if nbytes \<le> realloc_room st cp then Returns (st, cp)
     else (case bmk_memalloc st nbytes 8 of (st1, np) \<Rightarrow>
       if np = 0 then Returns (st1, 0)
       else bind_outcome (bmk_memfree (st1\<lparr>mem := fst (bmk_memcpy (mem st1) np cp (realloc_room st cp))\<rparr>) cp)
         (\<lambda>st. Returns (st, np))))"
proof -
  have "cp - 8 + 5 = cp - 3" by simp
  then show ?thesis
    using assms unfolding bmk_memrealloc_def realloc_room_def sizeof_overhead_def MINSHIFT_def Let_def
    by (simp only: if_False)
qed

lemma realloc_room_live:
  assumes inv: "heap_inv st F G" and p: "G p = Some (a, b, n)"
    and pad: "unat p + 8 \<le> unat a + bsize b"
  shows "unat (realloc_room st p) = unat a + bsize b - (unat p + 8)"
proof -
  have l: "live_ok (mem st) p a b n" using inv p by (rule heap_invD(6))
  have ok: "block_ok st a b" using heap_invD(4) [OF inv blocks_live [of G, OF p]] .
  then have b: "b \<le> 26" by (simp add: block_ok_def)
  have "unat (of_nat b :: u8) = b" using b by (simp add: unat_of_nat)
  then have r: "realloc_room st p = 2 ^ (b + 5) - ((p - a) + 8)"
    using l by (simp add: realloc_room_def live_ok_def header_def)
  have pa: "unat (p - a) = unat p - unat a"
    using l by (intro unat_sub_no_wrap) (auto simp: live_ok_def word_le_nat_alt)
  have f: "unat a + bsize b < 2 ^ 32" using heap_invD(1) [OF inv] ok by (rule block_ok_fits)
  have p8: "unat ((p - a) + 8) = unat p - unat a + 8"
    using pa pad f by (subst unat_add_no_wrap) auto
  show ?thesis
    unfolding r using p8 unat_bsize [OF b] pad l
    by (subst unat_sub_no_wrap) (auto simp: word_le_nat_alt live_ok_def)
qed

lemma heap_ok_write_bytes:
  "heap_ok st L \<Longrightarrow> L q = Some k \<Longrightarrow> (\<And>i. i < length bs \<Longrightarrow> x + of_nat i \<in> region q k) \<Longrightarrow>
   heap_ok (st\<lparr>mem := write_bytes (mem st) x bs\<rparr>) L"
proof (induction bs arbitrary: st x)
  case (Cons v bs)
  have "x \<in> region q k" using Cons.prems(3) [of 0] by simp
  then have "heap_ok (poke st x v) L" by (rule kmalloc.write_live [OF Cons.prems(1,2)])
  moreover have "x + 1 + of_nat i \<in> region q k" if "i < length bs" for i
    using Cons.prems(3) [of "Suc i"] that unfolding offset_Suc by simp
  ultimately have "heap_ok ((poke st x v)\<lparr>mem := write_bytes (mem (poke st x v)) (x + 1) bs\<rparr>) L"
    using Cons.IH [of "poke st x v" "x + 1"] Cons.prems(2) by blast
  then show ?case by (simp add: poke_def)
qed simp

text \<open>
  Copying into a new allocation from another live block: the copy is exact, and it stays in the new
  allocation.
\<close>

lemma copy_between_live:
  assumes ok: "heap_ok st L" and q: "L q = Some k" and r: "unat r \<le> k" and far: "unat r \<le> unat (q - p)"
  defines "m \<equiv> fst (bmk_memcpy (mem st) q p r)"
  shows "heap_ok (st\<lparr>mem := m\<rparr>) L" "read_bytes m q (unat r) = read_bytes (mem st) p (unat r)"
    "\<And>x. x \<notin> region q k \<Longrightarrow> m x = mem st x"
proof -
  have r32: "unat r < 2 ^ 32" using unsigned_less [of r, where 'a = nat] by simp
  have m: "m = write_bytes (mem st) q (read_bytes (mem st) p (unat r))"
    unfolding m_def bmk_memcpy_def using memcpy_loop_eq [of q p r "mem st"] far by simp
  show "heap_ok (st\<lparr>mem := m\<rparr>) L"
    unfolding m using r r32 by (intro heap_ok_write_bytes [OF ok q]) (simp add: unat_of_nat_small)
  show "read_bytes m q (unat r) = read_bytes (mem st) p (unat r)"
    using read_write_bytes [of "read_bytes (mem st) p (unat r)" "mem st" q] r32 by (simp add: m)
  show "m x = mem st x" if "x \<notin> region q k" for x
    unfolding m using that r r32 region_mono [OF r, of q] by (intro write_bytes_outside) auto
qed

lemma realloc_room_no_underflow:
  assumes inv: "heap_inv st F G" and p: "G p = Some (a, b, n)" and r: "unat (realloc_room st p) \<le> 2 ^ 31"
  shows "unat p + 8 \<le> unat a + bsize b"
proof (rule ccontr)
  assume big: "\<not> unat p + 8 \<le> unat a + bsize b"
  have l: "live_ok (mem st) p a b n" using inv p by (rule heap_invD(6))
  have ok: "block_ok st a b" using heap_invD(4) [OF inv blocks_live [of G, OF p]] .
  then have b: "b \<le> 26" by (simp add: block_ok_def)
  have bs: "bsize b \<le> 2 ^ 31" using b bsize_mono [of b 26] by (simp add: bsize_def)
  have "unat (of_nat b :: u8) = b" using b by (simp add: unat_of_nat)
  then have eq: "realloc_room st p = 2 ^ (b + 5) - ((p - a) + 8)"
    using l by (simp add: realloc_room_def live_ok_def header_def)
  have pa: "unat (p - a) = unat p - unat a"
    using l by (intro unat_sub_no_wrap) (auto simp: live_ok_def word_le_nat_alt)
  have p8: "unat ((p - a) + 8) = unat p - unat a + 8"
    using pa bs l by (subst unat_add_no_wrap) (auto simp: live_ok_def)
  show False
    using r big p8 unat_bsize [OF b] l unat_sub_if_size [of "2 ^ (b + 5) :: u32" "(p - a) + 8"] bs
    unfolding eq by (auto simp: live_ok_def word_size split: if_splits)
qed

lemma live_far_apart:
  assumes inv: "heap_inv st F G" and p: "G p = Some (a, b, n)" and q: "G q = Some (c, d, k)"
    and "p \<noteq> q" "0 < k" "unat p + r \<le> unat a + bsize b"
  shows "r \<le> unat (q - p)"
proof -
  have "(a, b) \<noteq> (c, d)" using heap_invD(8) [OF inv] p q assms(4) by blast
  then have "block (a, b) \<inter> block (c, d) = {}"
    using heap_invD(5) [OF inv blocks_live [of G, OF p] blocks_live [of G, OF q]] by blast
  moreover have "q \<in> block (c, d)" using live_region [OF inv q] assms(5) by auto
  moreover have "region p r \<subseteq> block (a, b)"
    using heap_invD(6) [OF inv p] assms(6)
    by (intro subregion_in_block [OF heap_invD(1) [OF inv] heap_invD(4) [OF inv blocks_live [of G, OF p]]])
      (auto simp: live_ok_def)
  ultimately have "q \<notin> region p r" by blast
  then show ?thesis by (simp add: region_def)
qed

lemma read_bytes_prefix: "k \<le> n \<Longrightarrow> read_bytes m a k = take k (read_bytes m a n)"
  by (simp add: read_bytes_def take_map min_def)

lemma bytes_keptD: "bytes_kept L m m' \<Longrightarrow> L p = Some n \<Longrightarrow> x \<in> region p n \<Longrightarrow> m' x = m x"
  by (simp add: bytes_kept_def)

lemma read_bytes_kept:
  assumes "bytes_kept L m m'" "L p = Some n" "k \<le> n" "k \<le> 2 ^ 32"
  shows "read_bytes m' p k = read_bytes m p k"
  using assms(4) bytes_keptD [OF assms(1,2)] region_mono [OF assms(3), of p]
  by (intro read_bytes_cong) auto

text \<open>The move: copy the room to the new allocation \<open>q\<close>, then release \<open>p\<close>.\<close>

lemma move_and_release:
  assumes ok: "heap_ok st L" and p: "L p = Some n" and q: "L q = Some k" "q \<noteq> p"
    and r: "unat r \<le> k" "unat r \<le> unat (q - p)"
  defines "m \<equiv> fst (bmk_memcpy (mem st) q p r)"
  shows "\<exists>st'. bmk_memfree (st\<lparr>mem := m\<rparr>) p = Returns st' \<and> heap_ok st' (L(p := None)) \<and>
    bytes_kept (L(p := None, q := None)) (mem st) (mem st') \<and>
    read_bytes (mem st') q (min n (unat r)) = read_bytes (mem st) p (min n (unat r))"
proof -
  note cp = copy_between_live [OF ok q(1) r, folded m_def]
  let ?L = "L(p := None)"
  obtain st' where st': "bmk_memfree (st\<lparr>mem := m\<rparr>) p = Returns st'" "heap_ok st' ?L"
      "bytes_kept ?L m (mem st')"
    using kmalloc.free_live [OF cp(1) p] by auto
  have "mem st' x = mem st x" if s: "(?L(q := None)) s = Some j" "x \<in> region s j" for s j x
  proof -
    have s': "?L s = Some j" "s \<noteq> q" "L s = Some j" using s(1) by (auto split: if_splits)
    then have "x \<notin> region q k"
      using kmalloc.live_disjoint [OF ok s'(3) q(1)] s(2) by auto
    then show ?thesis using bytes_keptD [OF st'(3) s'(1) s(2)] cp(3) by simp
  qed
  moreover have "read_bytes (mem st') q (min n (unat r)) = read_bytes m q (min n (unat r))"
    using read_bytes_kept [OF st'(3), of q k] q r(1) unsigned_less [of r, where 'a = nat] by simp
  moreover have "read_bytes m q (min n (unat r)) = read_bytes (mem st) p (min n (unat r))"
    using cp(2) read_bytes_prefix [of "min n (unat r)" "unat r" m q]
      read_bytes_prefix [of "min n (unat r)" "unat r" "mem st" p] by simp
  ultimately show ?thesis using st'(1,2) by (auto simp: bytes_kept_def)
qed


text \<open>One page, taken whole: the block of bucket 7 at the start of memory.\<close>

definition one_page_heap :: heap where
  "one_page_heap = fst (bmk_memalloc sample_heap 4088 0)"

lemma one_page:
  "bmk_memalloc sample_heap 4088 0 = (one_page_heap, 0x200008)"
  "current one_page_heap = 1" "mem one_page_heap 0x200005 = 7" "mem one_page_heap 0x200004 = MAGIC" "load32 (mem one_page_heap) 0x200000 = 8"
  "pagesz one_page_heap = PAGE_SIZE" "pagebucket one_page_heap = 7" "nextf one_page_heap b = 0"
  "bmk_membase one_page_heap = 0x200000" "bmk_memsize one_page_heap = 0x1000000"
  "0x200008 \<le> unat x \<Longrightarrow> mem one_page_heap x = 0"
proof -
  have b: "memalloc_bucket (memalloc_init sample_heap) 4088 4 = Some 7"
    by (simp add: memalloc_bucket_def memalloc_init_def sample_heap_def sizeof_overhead_def PAGE_SIZE_def
        MINSHIFT_def bucket_loop.simps Let_def)
  have i: "memalloc_init sample_heap = sample_heap\<lparr>pagesz := PAGE_SIZE, pagebucket := 7\<rparr>"
    unfolding memalloc_init_def pagebucket_loop_value by (simp add: sample_heap_def)
  have c: "bmk_memalloc sample_heap 4088 0 = memalloc_take (sample_heap\<lparr>pagesz := PAGE_SIZE, pagebucket := 7\<rparr>) 7 4"
    using b by (simp add: bmk_memalloc_def i)
  have m: "morecore 7 (sample_heap\<lparr>pagesz := PAGE_SIZE, pagebucket := 7\<rparr>) =
      sample_heap\<lparr>pagesz := PAGE_SIZE, pagebucket := 7, current := 1, nextf := (\<lambda>_. 0)(7 := 0x200000),
        mem := store32 (\<lambda>_. 0) 0x200000 0\<rparr>"
    by (simp add: morecore_def corealloc_def bmk_allocpg_def sample_heap_def PAGE_SIZE_def Let_def)
  have t: "memalloc_take (sample_heap\<lparr>pagesz := PAGE_SIZE, pagebucket := 7\<rparr>) 7 4 =
      (sample_heap\<lparr>pagesz := PAGE_SIZE, pagebucket := 7, current := 1, nextf := (\<lambda>_. 0)(7 := 0),
        mem := store32 ((store32 (\<lambda>_. 0) 0x200000 0)(0x200004 := MAGIC, 0x200005 := 7)) 0x200000 8\<rparr>, 0x200008)"
    by (simp add: memalloc_take_def m sizeof_overhead_def Let_def) (simp add: sample_heap_def)
  show "bmk_memalloc sample_heap 4088 0 = (one_page_heap, 0x200008)" by (simp add: one_page_heap_def c t)
  show "current one_page_heap = 1" "mem one_page_heap 0x200005 = 7" "mem one_page_heap 0x200004 = MAGIC"
    by (simp_all add: one_page_heap_def c t store32_def)
  show "load32 (mem one_page_heap) 0x200000 = 8" by (simp add: one_page_heap_def c t)
  show "pagesz one_page_heap = PAGE_SIZE" "pagebucket one_page_heap = 7" "nextf one_page_heap b = 0"
    "bmk_membase one_page_heap = 0x200000" "bmk_memsize one_page_heap = 0x1000000" for b
    unfolding one_page_heap_def c t by (simp_all add: sample_heap_def)
  show "mem one_page_heap x = 0" if "0x200008 \<le> unat x" for x
    unfolding one_page_heap_def c t using that by (auto simp: store32_def)
qed

lemma one_page_ok: "heap_ok one_page_heap [0x200008 \<mapsto> 4088]"
proof -
  have n: "need_bytes 4088 0 = 4096" by (simp add: need_bytes_def eff_align_def)
  have "bucket_for 4096 = 7" by (rule bucket_for_eq) (simp_all add: bsize_def)
  then have "request_fits sample_heap 4088 0" by (simp add: request_fits_def n core_pages_def sample_heap_def)
  from heap_ok_alloc [OF heap_start_ok [OF sample_heap_start] this one_page(1)] show ?thesis by simp
qed

lemma one_page_room: "realloc_room one_page_heap 0x200008 = 4080"
  by (simp add: realloc_room_def one_page)

lemma one_page_request: "request_fits one_page_heap 8000 8"
proof -
  have n: "need_bytes 8000 8 = 8008" by (simp add: need_bytes_def eff_align_def)
  have "bucket_for 8008 = 8" by (rule bucket_for_eq) (simp_all add: bsize_def)
  then show ?thesis by (simp add: request_fits_def n core_pages_def one_page)
qed


lemma one_page_larger:
  fixes v :: u8
  defines "st \<equiv> poke one_page_heap 0x200ff8 v"
  shows "bmk_memalloc st 8000 8 =
    (st\<lparr>current := 3, nextf := (\<lambda>_. 0),
       mem := store32 ((store32 (mem st) 0x201000 0)(0x201004 := MAGIC, 0x201005 := 8)) 0x201000 8\<rparr>, 0x201008)"
proof -
  have i: "memalloc_init st = st" by (simp add: memalloc_init_def st_def poke_def one_page PAGE_SIZE_def)
  have b: "memalloc_bucket st 8000 8 = Some 8"
    by (simp add: memalloc_bucket_def st_def poke_def one_page sizeof_overhead_def PAGE_SIZE_def
        bucket_loop.simps Let_def)
  have nx: "nextf one_page_heap = (\<lambda>_. 0)" by (simp add: one_page fun_eq_iff)
  have m: "morecore 8 st = st\<lparr>current := 3, nextf := (\<lambda>_. 0)(8 := 0x201000), mem := store32 (mem st) 0x201000 0\<rparr>"
    by (simp add: morecore_def corealloc_def bmk_allocpg_def st_def poke_def one_page nx PAGE_SIZE_def Let_def)
  have "memalloc_take st 8 8 =
      (st\<lparr>current := 3, nextf := (\<lambda>_. 0),
       mem := store32 ((store32 (mem st) 0x201000 0)(0x201004 := MAGIC, 0x201005 := 8)) 0x201000 8\<rparr>, 0x201008)"
    by (simp add: memalloc_take_def m sizeof_overhead_def Let_def) (simp add: st_def poke_def one_page fun_eq_iff)
  then show ?thesis using b by (simp add: bmk_memalloc_def i)
qed


end
