(* ===== verification/Libc.thy ===== *)
theory Libc
  imports Realloc
begin

text \<open>
  The C library's allocation interface, \<^verbatim>\<open>libc_malloc.c\<close>, and the emulation of \<^verbatim>\<open>mmap\<close> and its
  relatives, \<^verbatim>\<open>libc_emul.c\<close>. \<^verbatim>\<open>pread\<close> belongs to the rump kernel, and \<^verbatim>\<open>PROT_READ\<close>,
  \<^verbatim>\<open>MAP_ANON\<close> and \<^verbatim>\<open>ENOTSUP\<close> to its headers: they are arguments.
\<close>

section \<open>Allocation\<close>

text \<open>The results are the heap, the error, and the value stored through \<^verbatim>\<open>rv\<close> if there is one.\<close>

definition posix_memalign :: "heap \<Rightarrow> u32 \<Rightarrow> u32 \<Rightarrow> heap \<times> int \<times> u32 option" where
  "posix_memalign st nbytes align =
     (case bmk_memalloc st nbytes align of
        (st, v) \<Rightarrow> if v \<noteq> 0 then (st, 0, Some v) else (st, 10, None))"

definition malloc :: "heap \<Rightarrow> u32 \<Rightarrow> heap \<times> u32" where
  "malloc st sz = bmk_memalloc st sz 8"

definition calloc :: "heap \<Rightarrow> u32 \<Rightarrow> u32 \<Rightarrow> heap \<times> u32" where
  "calloc st n sz =
     (let tot = n * sz
      in case malloc st tot of
           (st, v) \<Rightarrow> if v \<noteq> 0 then (st\<lparr>mem := fst (bmk_memset (mem st) v 0 tot)\<rparr>, v) else (st, v))"

definition realloc :: "heap \<Rightarrow> u32 \<Rightarrow> u32 \<Rightarrow> (heap \<times> u32) outcome" where
  "realloc st cp nbytes = bmk_memrealloc st cp nbytes"

definition free :: "heap \<Rightarrow> u32 \<Rightarrow> heap outcome" where
  "free st cp = bmk_memfree st cp"

section \<open>Memory mapping\<close>

record mman =
  PROT_READ :: int
  MAP_ANON :: u32
  ENOTSUP :: int

text \<open>
  \<^verbatim>\<open>pread\<close> gives the memory after the call, and either the number of bytes read or the error it
  leaves in \<^verbatim>\<open>errno\<close>. The result of \<^verbatim>\<open>mmap\<close> is \<open>None\<close> for \<^verbatim>\<open>MAP_FAILED\<close>.
\<close>

type_synonym pread_fun = "memory \<Rightarrow> int \<Rightarrow> u32 \<Rightarrow> u32 \<Rightarrow> u64 \<Rightarrow> memory \<times> (int + nat)"

definition mmap ::
  "mman \<Rightarrow> pread_fun \<Rightarrow> heap \<Rightarrow> int \<Rightarrow> u32 \<Rightarrow> int \<Rightarrow> u32 \<Rightarrow> int \<Rightarrow> u64 \<Rightarrow> (heap \<times> int \<times> u32 option) outcome" where
  "mmap c pread st errno len prot flags fd off =
     (if fd \<noteq> - 1 \<and> prot \<noteq> PROT_READ c then Returns (st, ENOTSUP c, None)
      else
        (case posix_memalign st len 0x1000 of
           (st, error, None) \<Rightarrow> Returns (st, error, None)
         | (st, error, Some v) \<Rightarrow>
             if flags AND MAP_ANON c \<noteq> 0 then Returns (st, errno, Some v)
             else
               (case pread (mem st) fd v len off of
                  (m, Inr nn) \<Rightarrow> Returns (st\<lparr>mem := m\<rparr>, errno, Some v)
                | (m, Inl error) \<Rightarrow>
                    bind_outcome (free (st\<lparr>mem := m\<rparr>) v) (\<lambda>st. Returns (st, error, None)))))"

definition munmap :: "heap \<Rightarrow> u32 \<Rightarrow> u32 \<Rightarrow> (heap \<times> int) outcome" where
  "munmap st addr len = bind_outcome (free st addr) (\<lambda>st. Returns (st, 0))"

definition madvise :: "u32 \<Rightarrow> u32 \<Rightarrow> int \<Rightarrow> int" where
  "madvise addr len adv = 0"

definition mprotect :: "u32 \<Rightarrow> u32 \<Rightarrow> int \<Rightarrow> int" where
  "mprotect addr len prot = 0"

section \<open>Properties\<close>

text \<open>Any change confined to an allocation keeps the heap.\<close>

lemma heap_ok_overwrite:
  assumes ok: "heap_ok st L" and q: "L q = Some k" and k: "k \<le> 2 ^ 32"
    and m': "\<And>x. x \<notin> region q k \<Longrightarrow> m' x = mem st x"
  shows "heap_ok (st\<lparr>mem := m'\<rparr>) L"
proof -
  have "m' = write_bytes (mem st) q (read_bytes m' q k)"
    using k m' by (auto simp: fun_eq_iff write_bytes_eq region_def read_bytes_def)
  moreover have "heap_ok (st\<lparr>mem := write_bytes (mem st) q (read_bytes m' q k)\<rparr>) L"
    using k by (intro heap_ok_write_bytes [OF ok q]) (simp add: unat_of_nat_small)
  ultimately show ?thesis by simp
qed

lemma bytes_kept_outside:
  assumes "\<And>x. x \<notin> region v k \<Longrightarrow> m' x = m x"
    and "\<And>q j. L q = Some j \<Longrightarrow> region v k \<inter> region q j = {}"
  shows "bytes_kept L m m'"
  unfolding bytes_kept_def
proof (intro allI impI)
  fix p n x assume "L p = Some n" "x \<in> region p n"
  then have "x \<notin> region v k" using assms(2) by blast
  then show "m' x = m x" by (rule assms(1))
qed

text \<open>
  When the product does not wrap and there is memory, \<^verbatim>\<open>calloc\<close> gives a new allocation of
  that many bytes, all zero, and leaves every other allocation as it was.
\<close>

theorem calloc_zeroes:
  assumes ok: "heap_ok st L" and n: "unat n * unat sz < 2 ^ 32" and fits: "request_fits st (n * sz) 8"
    and room: "need_bytes (n * sz) 8 \<le> 2 ^ 31" "core_left st (n * sz) 8"
  shows "\<exists>st' v. calloc st n sz = (st', v) \<and> v \<noteq> 0 \<and> heap_ok st' (L(v \<mapsto> unat n * unat sz)) \<and>
    read_bytes (mem st') v (unat n * unat sz) = replicate (unat n * unat sz) 0 \<and>
    bytes_kept L (mem st) (mem st')"
proof -
  have tot: "unat (n * sz) = unat n * unat sz" using n by (simp add: unat_word_ariths)
  obtain st1 v where call: "bmk_memalloc st (n * sz) 8 = (st1, v)" by fastforce
  have v: "v \<noteq> 0" using bmk_memalloc_gives [OF ok fits _ room] call by simp
  have al: "heap_ok st1 (L(v \<mapsto> unat n * unat sz))" "bytes_kept L (mem st) (mem st1)"
    using heap_ok_alloc [OF ok fits call] v tot by auto
  define m where "m = write_bytes (mem st1) v (replicate (unat n * unat sz) 0)"
  have c: "calloc st n sz = (st1\<lparr>mem := m\<rparr>, v)"
    using call v tot by (simp add: calloc_def malloc_def bmk_memset_def memset_loop_eq m_def)
  have out: "m x = mem st1 x" if "x \<notin> region v (unat n * unat sz)" for x
    using that n by (simp add: m_def write_bytes_outside)
  have "heap_ok (st1\<lparr>mem := m\<rparr>) (L(v \<mapsto> unat n * unat sz))"
    using n out by (intro heap_ok_overwrite [OF al(1)]) auto
  moreover have "bytes_kept L (mem st) m"
    using bytes_kept_trans [OF al(2) bytes_kept_outside [OF out]] kmalloc.new_disjoint [OF ok fits call v] tot
    by simp
  moreover have "read_bytes m v (unat n * unat sz) = replicate (unat n * unat sz) 0"
    using read_write_bytes [of "replicate (unat n * unat sz) 0" "mem st1" v] n by (simp add: m_def)
  ultimately show ?thesis using c v by auto
qed

theorem calloc_zeroes_witness:
  "\<exists>st' v. calloc sample_heap 5 20 = (st', v) \<and> v \<noteq> 0 \<and> read_bytes (mem st') v 100 = replicate 100 0"
proof -
  have n: "need_bytes 100 8 = 108" by (simp add: need_bytes_def eff_align_def)
  have "bucket_for 108 = 2" by (rule bucket_for_eq) (simp_all add: bsize_def)
  then have "request_fits sample_heap 100 8" "core_left sample_heap 100 8"
    by (simp_all add: request_fits_def core_left_def n core_pages_def sample_heap_def)
  then show ?thesis
    using calloc_zeroes [OF heap_start_ok [OF sample_heap_start], of 5 20] n by auto
qed

text \<open>
  The product of \<^verbatim>\<open>calloc\<close> wraps: an array of $2^{16}$ elements of $2^{16}$ bytes is answered
  with an allocation of no bytes at all.
\<close>

theorem calloc_wraps: "calloc st 0x10000 0x10000 = malloc st 0"
proof -
  have "(0x10000 :: u32) * 0x10000 = 0" by (simp add: word_unat_eq_iff)
  then show ?thesis
    unfolding calloc_def by (simp only: Let_def) (simp add: bmk_memset_def memset_loop_eq split: prod.split)
qed

text \<open>
  (C32) A failed \<^verbatim>\<open>mmap\<close> leaks nothing: whether the arguments are refused, memory is short or
  \<^verbatim>\<open>pread\<close> fails, the call returns, the live allocations are those before it and their bytes are
  unchanged. \<^verbatim>\<open>pread\<close> is only required to write into the buffer it is given.
\<close>

theorem mmap_failure_leaks_nothing:
  assumes ok: "heap_ok st L" and fits: "request_fits st len 0x1000"
    and pread: "\<And>m fd v len off x. x \<notin> region v (unat len) \<Longrightarrow> fst (pread m fd v len off) x = m x"
  shows "\<exists>st' e r. mmap c pread st errno len prot flags fd off = Returns (st', e, r) \<and>
    (r = None \<longrightarrow> heap_ok st' L \<and> bytes_kept L (mem st) (mem st'))"
proof -
  obtain st1 v where call: "bmk_memalloc st len 0x1000 = (st1, v)" by fastforce
  note al = heap_ok_alloc [OF ok fits call]
  show ?thesis
  proof (cases "v \<noteq> 0 \<and> \<not> (fd \<noteq> - 1 \<and> prot \<noteq> PROT_READ c) \<and> flags AND MAP_ANON c = 0")
    case False
    then show ?thesis
      using ok call al by (auto simp: mmap_def posix_memalign_def bytes_kept_def)
  next
    case True
    obtain m r where pr: "pread (mem st1) fd v len off = (m, r)" by fastforce
    have m: "m x = mem st1 x" if "x \<notin> region v (unat len)" for x
      using pread [OF that, of "mem st1" fd off] pr by simp
    have L: "L v = None" "heap_ok st1 (L(v \<mapsto> unat len))" "bytes_kept L (mem st) (mem st1)"
      using True al by auto
    have "heap_ok (st1\<lparr>mem := m\<rparr>) (L(v \<mapsto> unat len))"
      using m unsigned_less [of len, where 'a = nat] by (intro heap_ok_overwrite [OF L(2)]) auto
    then obtain st2 where st2: "bmk_memfree (st1\<lparr>mem := m\<rparr>) v = Returns st2" "heap_ok st2 (L(v := None))"
        "bytes_kept (L(v := None)) m (mem st2)"
      using kmalloc.free_live [of "st1\<lparr>mem := m\<rparr>" "L(v \<mapsto> unat len)" v] by auto
    have eq: "L(v := None) = L" using L(1) by auto
    have "bytes_kept L (mem st1) m"
      using bytes_kept_outside [OF m] kmalloc.new_disjoint [OF ok fits call] True by simp
    then have "bytes_kept L (mem st) (mem st2)"
      using L(3) st2(3) eq by (metis bytes_kept_trans)
    then show ?thesis
      using True call pr st2(1,2) eq by (cases r) (auto simp: mmap_def posix_memalign_def free_def)
  qed
qed

theorem mmap_failure_leaks_nothing_witness:
  "\<exists>st' e r. mmap \<lparr>PROT_READ = 1, MAP_ANON = 0x1000, ENOTSUP = 86\<rparr> (\<lambda>m fd v len off. (m, Inl 5))
     sample_heap 0 100 1 0 3 0 = Returns (st', e, r) \<and> (r = None \<longrightarrow> heap_ok st' Map.empty)"
proof -
  have n: "need_bytes 100 0x1000 = 4196" by (simp add: need_bytes_def eff_align_def)
  have "bucket_for 4196 = 8" by (rule bucket_for_eq) (simp_all add: bsize_def)
  then have "request_fits sample_heap 100 0x1000"
    by (simp add: request_fits_def n core_pages_def sample_heap_def)
  from mmap_failure_leaks_nothing [OF heap_start_ok [OF sample_heap_start] this,
      of "\<lambda>m fd v len off. (m, Inl 5)"]
  show ?thesis by fastforce
qed

end
