(* ===== verification/Heapframe.thy ===== *)
theory Heapframe
  imports Libc
begin

text \<open>
  What the other components need to know of the heap: it survives any change of memory that stays
  within live allocations or outside the managed range, allocation and release stay within the
  managed range, and the page counter moves by at most the pages of the bucket.
\<close>

lemma live_region_bounds:
  assumes "heap_ok h L" "L p = Some n"
  shows "unat p + n < 2 ^ 32" "8 \<le> unat p"
proof -
  obtain F G where inv: "heap_inv h F G" and L: "L = (\<lambda>p. map_option (\<lambda>(a, b, n). n) (G p))"
    using assms(1) by (auto simp: heap_ok_def)
  then obtain a b where p: "G p = Some (a, b, n)" using assms(2) by (auto simp: live_sizes(1) [OF L])
  note l = heap_invD(6) [OF inv p]
  have "unat a + bsize b < 2 ^ 32"
    using block_ok_fits [OF heap_invD(1) [OF inv] heap_invD(4) [OF inv blocks_live [of G, OF p]]] .
  then show "unat p + n < 2 ^ 32" "8 \<le> unat p" using l by (auto simp: live_ok_def)
qed

text \<open>The bytes the allocator reads: the links of free blocks and the headers of live ones.\<close>

lemma heap_ok_frame:
  assumes ok: "heap_ok h L"
    and w: "\<And>x. m' x \<noteq> mem h x \<Longrightarrow> x \<notin> managed h \<or> (\<exists>p n. L p = Some n \<and> x \<in> region p n)"
  shows "heap_ok (h\<lparr>mem := m'\<rparr>) L"
proof -
  obtain F G where inv: "heap_inv h F G" and L: "L = (\<lambda>p. map_option (\<lambda>(a, b, n). n) (G p))"
    using ok by (auto simp: heap_ok_def)
  have same: "m' x = mem h x" if B: "y \<in> blocks F G" "x \<in> block y"
    and out: "\<And>p n a b. G p = Some (a, b, n) \<Longrightarrow> x \<in> region p n \<Longrightarrow> (a, b) \<noteq> y" for x y
  proof (rule ccontr)
    assume "m' x \<noteq> mem h x"
    moreover have "x \<in> managed h"
      using in_block [OF heap_invD(1) [OF inv] heap_invD(4) [OF inv]] B heap_invD(4) [OF inv, of "fst y" "snd y"]
      by (cases y) (auto simp: managed_def block_ok_def)
    ultimately obtain p n where p: "L p = Some n" "x \<in> region p n" using w by blast
    then obtain a b where G: "G p = Some (a, b, n)" by (auto simp: live_sizes(1) [OF L])
    then have "x \<in> block (a, b)" using live_region [OF inv] p(2) by blast
    then have "(a, b) = y" using heap_invD(5) [OF inv blocks_live [of G, OF G] B(1)] B(2) by blast
    then show False using out [OF G p(2)] by simp
  qed
  have "heap_inv (h\<lparr>nextf := nextf h, mem := m'\<rparr>) F G"
  proof (rule heap_inv_same_blocks [OF inv])
    show "chain m' (nextf h b) (F b)" for b
    proof -
      have "load32 m' a = load32 (mem h) a" if "a \<in> set (F b)" for a
      proof (rule load32_cong)
        fix x assume "x \<in> region a 4"
        moreover have B: "(a, b) \<in> blocks F G" using that by (rule blocks_free)
        ultimately show "m' x = mem h x"
          using link_in_block [OF heap_invD(1) [OF inv] heap_invD(4) [OF inv B]] heap_invD(7) [OF inv] that
          by (intro same [OF B]) auto
      qed
      then show ?thesis using heap_invD(2) [OF inv] chain_cong by metis
    qed
    show "live_ok m' p a b n" if p: "G p = Some (a, b, n)" for p a b n
    proof -
      note B = blocks_live [of G, OF p]
      note l = heap_invD(6) [OF inv p]
      have n: "unat p + n < 2 ^ 32" "8 \<le> unat p" using live_region_bounds [OF ok] p by (auto simp: live_sizes(1) [OF L])
      have "m' x = mem h x" if x: "x \<in> region (p - 8) 8" for x
      proof (rule same [OF B])
        show "x \<in> block (a, b)"
          using header_region [OF heap_invD(1) [OF inv] heap_invD(4) [OF inv B] l] x by blast
        have "x \<notin> region p n"
          using x n by (simp add: region_nowrap unat_sub_no_wrap)
        then show "(c, d) \<noteq> (a, b)" if "G q = Some (c, d, k)" "x \<in> region q k" for q k c d
          using that p heap_invD(8) [OF inv] by (metis option.inject prod.inject)
      qed
      then show ?thesis using l header_cong [of p m' "mem h" a b] by (auto simp: live_ok_def)
    qed
  qed (use inv in \<open>auto dest: heap_invD\<close>)
  then show ?thesis using L unfolding heap_ok_def by auto
qed

lemma bmk_allocpg_bounds:
  "bmk_membase (fst (bmk_allocpg st n)) = bmk_membase st" "bmk_memsize (fst (bmk_allocpg st n)) = bmk_memsize st"
  "current (fst (bmk_allocpg st n)) = current st + n"
  by (simp_all add: bmk_allocpg_def Let_def)

lemma morecore_bounds:
  assumes "paged st" "b \<le> 26"
  shows "bmk_membase (morecore b st) = bmk_membase st" "bmk_memsize (morecore b st) = bmk_memsize st"
    "unat (current (morecore b st)) \<le> unat (current st) + core_pages b"
proof -
  have eq: "current (morecore b st) = current st + 2 ^ (b - 7) \<and> bmk_membase (morecore b st) = bmk_membase st \<and>
      bmk_memsize (morecore b st) = bmk_memsize st"
    using morecore_eq [OF assms] bmk_allocpg_bounds [of st "2 ^ (b - 7)"] by (auto split: prod.splits)
  then show "bmk_membase (morecore b st) = bmk_membase st" "bmk_memsize (morecore b st) = bmk_memsize st" by simp_all
  show "unat (current (morecore b st)) \<le> unat (current st) + core_pages b"
    using eq unat_core_pages [OF assms(2)] by (simp add: unat_word_ariths)
qed

lemma bmk_memalloc_bounds:
  assumes ok: "heap_ok h L" and n: "need_bytes nb al < 2 ^ 32"
  shows "bmk_membase (fst (bmk_memalloc h nb al)) = bmk_membase h"
    "bmk_memsize (fst (bmk_memalloc h nb al)) = bmk_memsize h"
    "unat (current (fst (bmk_memalloc h nb al))) \<le> unat (current h) + core_pages (bucket_for (need_bytes nb al))"
proof -
  obtain F G where inv: "heap_inv h F G" using ok by (auto simp: heap_ok_def)
  note i = heap_inv_init [OF inv]
  have same: "bmk_membase (memalloc_init h) = bmk_membase h" "bmk_memsize (memalloc_init h) = bmk_memsize h"
    "current (memalloc_init h) = current h" by (simp_all add: memalloc_init_def)
  have "bmk_membase (fst (bmk_memalloc h nb al)) = bmk_membase h \<and>
    bmk_memsize (fst (bmk_memalloc h nb al)) = bmk_memsize h \<and>
    unat (current (fst (bmk_memalloc h nb al))) \<le> unat (current h) + core_pages (bucket_for (need_bytes nb al))"
  proof (cases "al AND (al - 1) = 0")
    case True
    then obtain k where k: "2 \<le> k" "k < 32" "(if al < 4 then 4 else al) = 2 ^ k" "eff_align al = 2 ^ k"
      by (rule align_power)
    have need: "need_bytes nb al = unat nb + max 8 (2 ^ k)" by (simp add: need_bytes_def k(4))
    note b = memalloc_bucket_eq [OF i(2) k(1,2), of nb]
    show ?thesis
    proof (cases "need_bytes nb al \<le> 2 ^ 31")
      case le: True
      define b where "b = bucket_for (need_bytes nb al)"
      note mb = morecore_bounds [OF i(2) bucket_for_bounds(1) [OF le, folded b_def], unfolded same]
      have "bmk_memalloc h nb al = memalloc_take (memalloc_init h) b (2 ^ k)"
        using True b n need le by (simp add: bmk_memalloc_def k(3) b_def)
      then show ?thesis
        using mb same unfolding b_def [symmetric] by (auto simp: memalloc_take_def Let_def split: if_splits)
    next
      case False
      then show ?thesis using True b n need same by (simp add: bmk_memalloc_def k(3))
    qed
  qed (simp add: bmk_memalloc_def same)
  then show "bmk_membase (fst (bmk_memalloc h nb al)) = bmk_membase h"
    "bmk_memsize (fst (bmk_memalloc h nb al)) = bmk_memsize h"
    "unat (current (fst (bmk_memalloc h nb al))) \<le> unat (current h) + core_pages (bucket_for (need_bytes nb al))"
    by simp_all
qed

lemma bmk_memfree_bounds:
  "bmk_memfree h p = Returns h' \<Longrightarrow> managed h' = managed h \<and> current h' = current h"
  by (auto simp: bmk_memfree_def managed_def Let_def split: if_splits)

text \<open>Pages taken directly from the page allocator lie behind everything the heap has.\<close>

lemma heap_ok_pages:
  assumes heap: "heap_ok h L" and lt: "unat (current h) + unat n < 2 ^ 20" and n: "0 < unat n"
    and p: "bmk_allocpg h n = (h', p)" "p \<noteq> 0"
  shows "heap_ok h' L" "mem h' = mem h" "managed h' = managed h" "unat p = core_top h"
    "core_top h' = core_top h + 4096 * unat n" "4096 dvd unat p - unat (bmk_membase h)"
    "region p (4096 * unat n) \<subseteq> managed h"
    "\<And>q k. L q = Some k \<Longrightarrow> region p (4096 * unat n) \<inter> region q k = {}"
proof -
  obtain F G where inv: "heap_inv h F G" and L: "L = (\<lambda>p. map_option (\<lambda>(a, b, n). n) (G p))"
    using heap by (auto simp: heap_ok_def)
  note ok = heap_invD(1) [OF inv]
  note pg = bmk_allocpg_page [OF ok lt n p]
  have h': "h' = h\<lparr>current := current h + n\<rparr>" using bmk_allocpg_cases [OF ok lt] p by (simp split: if_splits)
  have cur: "unat (current h') = unat (current h) + unat n" using bmk_allocpg_advances [OF lt p(1)] by simp
  show "mem h' = mem h" "managed h' = managed h" using h' by (simp_all add: managed_def)
  show top: "unat p = core_top h" "core_top h' = core_top h + 4096 * unat n" "4096 dvd unat p - unat (bmk_membase h)"
    using pg cur h' by (simp_all add: core_top_def)
  show "heap_ok h' L" using heap_inv_advance [OF inv, of "current h + n"] cur h' L by (auto simp: heap_ok_def)
  have "unat p + 4096 * unat n \<le> 2 ^ 32" using pg ok by (simp add: physmem_ok_def)
  then have reg: "x \<in> region p (4096 * unat n) \<longleftrightarrow> unat p \<le> unat x \<and> unat x < unat p + 4096 * unat n" for x
    by (rule region_nowrap)
  show "region p (4096 * unat n) \<subseteq> managed h" using reg pg by (auto simp: managed_def)
  show "region p (4096 * unat n) \<inter> region q k = {}" if q: "L q = Some k" for q k
  proof -
    obtain a b where "G q = Some (a, b, k)" using q by (auto simp: live_sizes(1) [OF L])
    then have "unat x < core_top h" if "x \<in> region q k" for x
      using that live_region [OF inv] old_block_below [OF inv blocks_live [of G]] by blast
    then show ?thesis using reg top(1) by fastforce
  qed
qed

text \<open>Allocation and release write the managed range only.\<close>

lemma morecore_unmanaged:
  assumes inv: "heap_inv st F G" and pg: "paged st" and b: "b \<le> 26"
    and lt: "unat (current st) + core_pages b < 2 ^ 20" and x: "x \<notin> managed st"
  shows "mem (morecore b st) x = mem st x"
proof -
  obtain st1 op where al: "bmk_allocpg st (2 ^ (b - 7)) = (st1, op)" by fastforce
  have lt': "unat (current st) + unat (2 ^ (b - 7) :: u32) < 2 ^ 20" using lt unat_core_pages [OF b] by simp
  note ok = heap_invD(1) [OF inv]
  have st1: "mem st1 = mem st"
    using bmk_allocpg_cases [OF ok lt'] al by (simp split: if_splits)
  show ?thesis
  proof (cases "op = 0")
    case True
    then show ?thesis using morecore_eq [OF pg b] al st1 by simp
  next
    case False
    obtain m op' where ml: "morecore_loop (core_blocks b - 1) (2 ^ (b + 5)) (mem st) op = (m, op')" by fastforce
    have "0 < unat (2 ^ (b - 7) :: u32)" using unat_core_pages [OF b] by (simp add: core_pages_def)
    note op = bmk_allocpg_page [OF ok lt' this al False, unfolded unat_core_pages [OF b]]
    have k: "Suc (core_blocks b - 1) = core_blocks b" using core_blocks_pos [of b] by simp
    have top: "unat op + core_blocks b * bsize b < 2 ^ 32" using ok op by (simp add: core_bytes physmem_ok_def)
    have "unat x < unat op \<or> unat op + core_blocks b * bsize b \<le> unat x"
      using x op by (auto simp: managed_def core_bytes)
    then have "store32 m op' 0 x = mem st x"
      using morecore_loop_chain [OF ml] top k unat_bsize [OF b] bsize_ge [of b] False by auto
    then show ?thesis using morecore_eq [OF pg b] al False ml st1 by simp
  qed
qed

lemma memalloc_take_unmanaged:
  assumes inv: "heap_inv st F G" and pg: "paged st" and b: "b \<le> 26"
    and lt: "unat (current st) + core_pages b < 2 ^ 20" and k: "2 \<le> k" "k < 32"
    and n: "n + max 8 (2 ^ k) \<le> bsize b" and x: "x \<notin> managed st"
  shows "mem (fst (memalloc_take st b (2 ^ k))) x = mem st x"
proof -
  define st1 where "st1 = (if nextf st b = 0 then morecore b st else st)"
  have m1: "mem st1 x = mem st x" using morecore_unmanaged [OF inv pg b lt x] by (simp add: st1_def)
  have man: "managed st1 = managed st" using morecore_bounds [OF pg b] by (simp add: st1_def managed_def)
  obtain F1 where F1: "heap_inv st1 F1 G"
  proof (cases "nextf st b = 0")
    case True
    then have "F b = []" using heap_invD(2) [OF inv, of b] by (cases "F b") auto
    from heap_inv_morecore [OF inv pg this b lt] show ?thesis using that True unfolding st1_def by auto
  qed (use inv that in \<open>auto simp: st1_def\<close>)
  show ?thesis
  proof (cases "nextf st1 b = 0")
    case True
    then show ?thesis using m1 unfolding memalloc_take_def st1_def [symmetric] by (simp add: Let_def)
  next
    case False
    define op where "op = nextf st1 b"
    obtain xs where xs: "F1 b = op # xs" using heap_invD(2) [OF F1, of b] False by (cases "F1 b") (auto simp: op_def)
    define p where "p = (op + 8 + 2 ^ k - 1) AND NOT (2 ^ k - 1)"
    note tb = take_block [OF F1 xs k n, folded p_def]
    have "region (p - 8) 8 \<subseteq> managed st1"
    proof -
      note inv2 = tb(1)
      have G: "(G(p \<mapsto> (op, b, n))) p = Some (op, b, n)" by simp
      note B = blocks_live [of "G(p \<mapsto> (op, b, n))", OF G]
      from header_region [OF heap_invD(1) [OF inv2] heap_invD(4) [OF inv2 B] heap_invD(6) [OF inv2 G]]
      show ?thesis
        using in_block [OF heap_invD(1) [OF inv2] heap_invD(4) [OF inv2 B]] heap_invD(4) [OF inv2 B]
        by (fastforce simp: managed_def block_ok_def)
    qed
    then have "x \<notin> region (p - 8) 8" using x man by blast
    then have ne: "x \<notin> region (p - 8) 4" "x \<noteq> p - 4" "x \<noteq> p - 3"
      using region_mono [of 4 8 "p - 8"] by (auto simp: region_def)
    have "fst (memalloc_take st b (2 ^ k)) = st1\<lparr>nextf := (nextf st1)(b := load32 (mem st1) op),
        mem := store32 ((mem st1)(p - 8 + 4 := MAGIC, p - 8 + 5 := of_nat b)) (p - 8) (p - op)\<rparr>"
      using False unfolding memalloc_take_def st1_def [symmetric] sizeof_overhead_def
      by (simp add: Let_def op_def p_def)
    then show ?thesis using ne m1 by (simp add: store32_outside)
  qed
qed

lemma bmk_memalloc_unmanaged:
  assumes ok: "heap_ok h L" and fits: "request_fits h nb al" and x: "x \<notin> managed h"
  shows "mem (fst (bmk_memalloc h nb al)) x = mem h x"
proof -
  obtain F G where inv: "heap_inv h F G" using ok by (auto simp: heap_ok_def)
  note i = heap_inv_init [OF inv]
  have man: "managed (memalloc_init h) = managed h" by (simp add: memalloc_init_def managed_def)
  show ?thesis
  proof (cases "al AND (al - 1) = 0")
    case True
    then obtain k where k: "2 \<le> k" "k < 32" "(if al < 4 then 4 else al) = 2 ^ k" "eff_align al = 2 ^ k"
      by (rule align_power)
    have need: "need_bytes nb al = unat nb + max 8 (2 ^ k)" by (simp add: need_bytes_def k(4))
    have nb: "need_bytes nb al < 2 ^ 32" using fits by (simp add: request_fits_def)
    note mb = memalloc_bucket_eq [OF i(2) k(1,2), of nb]
    show ?thesis
    proof (cases "need_bytes nb al \<le> 2 ^ 31")
      case le: True
      define b where "b = bucket_for (need_bytes nb al)"
      note bf = bucket_for_bounds [OF le, folded b_def]
      have "bmk_memalloc h nb al = memalloc_take (memalloc_init h) b (2 ^ k)"
        using True mb nb need le by (simp add: bmk_memalloc_def k(3) b_def)
      moreover have "unat (current (memalloc_init h)) + core_pages b < 2 ^ 20"
        using fits i(4) by (simp add: request_fits_def b_def)
      ultimately show ?thesis
        using memalloc_take_unmanaged [OF i(1,2) bf(1) _ k(1,2), of "unat nb" x] bf(2) need x man i(3) by simp
    next
      case False
      then show ?thesis using True mb nb need i(3) by (simp add: bmk_memalloc_def k(3))
    qed
  qed (simp add: bmk_memalloc_def i(3))
qed

lemma bmk_memfree_unmanaged:
  assumes ok: "heap_ok h L" and p: "L p = Some n" and call: "bmk_memfree h p = Returns h'" and x: "x \<notin> managed h"
  shows "mem h' x = mem h x"
proof -
  obtain F G where inv: "heap_inv h F G" and L: "L = (\<lambda>p. map_option (\<lambda>(a, b, n). n) (G p))"
    using ok by (auto simp: heap_ok_def)
  then obtain a b where G: "G p = Some (a, b, n)" using p by (auto simp: live_sizes(1) [OF L])
  note bo = heap_invD(1) [OF inv] heap_invD(4) [OF inv blocks_live [of G, OF G]]
  have "region a 4 \<subseteq> managed h"
    using link_in_block [OF bo] in_block [OF bo] bo(2) by (fastforce simp: managed_def block_ok_def)
  then have "x \<notin> region a 4" using x by blast
  moreover have "h' = h\<lparr>mem := store32 (mem h) a (nextf h b), nextf := (nextf h)(b := a)\<rparr>"
    using bmk_memfree_live [OF inv G] call by simp
  ultimately show ?thesis by (simp add: store32_outside)
qed

text \<open>The requests of the kernel itself: with the page counter this far from its limit, they fit.\<close>

definition pages_left :: "heap \<Rightarrow> nat \<Rightarrow> bool" where
  "pages_left h k \<longleftrightarrow> unat (current h) + k < 2 ^ 20"

lemma bmk_xmalloc_ok:
  assumes ok: "heap_ok h L" and call: "bmk_xmalloc h n = Returns (h', p)"
    and pages: "pages_left h k" "core_pages (bucket_for (need_bytes n 0)) \<le> k" and n: "need_bytes n 0 < 2 ^ 32"
  shows "p \<noteq> 0" "L p = None" "heap_ok h' (L(p \<mapsto> unat n))" "bytes_kept L (mem h) (mem h')"
    "managed h' = managed h" "pages_left h' (k - core_pages (bucket_for (need_bytes n 0)))"
    "\<And>x. x \<notin> managed h \<Longrightarrow> mem h' x = mem h x"
    "\<And>q j. L q = Some j \<Longrightarrow> region p (unat n) \<inter> region q j = {}"
proof -
  have call': "bmk_memalloc h n 0 = (h', p)" "p \<noteq> 0"
    using call by (auto simp: bmk_xmalloc_def split: prod.splits if_splits)
  have fits: "request_fits h n 0" using pages n by (auto simp: request_fits_def pages_left_def)
  note b = bmk_memalloc_bounds [OF ok n, unfolded call' fst_conv]
  show "p \<noteq> 0" "L p = None" "heap_ok h' (L(p \<mapsto> unat n))" "bytes_kept L (mem h) (mem h')"
    using heap_ok_alloc [OF ok fits call'(1)] call'(2) by auto
  show "managed h' = managed h" using b by (simp add: managed_def)
  show "pages_left h' (k - core_pages (bucket_for (need_bytes n 0)))" using b pages by (simp add: pages_left_def)
  show "mem h' x = mem h x" if "x \<notin> managed h" for x
    using bmk_memalloc_unmanaged [OF ok fits that] call'(1) by simp
  show "region p (unat n) \<inter> region q j = {}" if "L q = Some j" for q j
    using kmalloc.new_disjoint [OF ok fits call' that] .
qed

lemma bmk_xmalloc_returns:
  assumes ok: "heap_ok h L" and pages: "pages_left h k" "core_pages (bucket_for (need_bytes n 0)) \<le> k"
    and n: "need_bytes n 0 \<le> 2 ^ 31" and room: "4096 * (unat (current h) + k) \<le> unat (bmk_memsize h)"
  shows "\<exists>h' p. bmk_xmalloc h n = Returns (h', p)"
proof -
  have "request_fits h n 0" "core_left h n 0"
    using pages n room by (auto simp: request_fits_def pages_left_def core_left_def)
  from bmk_memalloc_gives [OF ok this(1) _ n this(2)] show ?thesis
    by (auto simp: bmk_xmalloc_def split: prod.split)
qed

lemma need_bytes_0: "need_bytes n 0 = unat n + 8"
  by (simp add: need_bytes_def eff_align_def)

lemma one_page_request_size: "unat n + 8 \<le> 4096 \<Longrightarrow> core_pages (bucket_for (need_bytes n 0)) = 1"
proof -
  assume "unat n + 8 \<le> 4096"
  then have "bucket_for (need_bytes n 0) \<le> 7"
    unfolding bucket_for_def need_bytes_0 by (intro Least_le) (simp add: bsize_def)
  then show ?thesis by (simp add: core_pages_def)
qed

lemma stack_request_size: "unat n = 2 ^ 16 \<Longrightarrow> core_pages (bucket_for (need_bytes n 0)) = 32"
proof -
  assume "unat n = 2 ^ 16"
  then have "bucket_for (need_bytes n 0) = 12"
    unfolding need_bytes_0 by (intro bucket_for_eq) (simp_all add: bsize_def)
  then show ?thesis by (simp add: core_pages_def)
qed

end
