(* ===== verification/Machdep.thy ===== *)
theory Machdep
  imports Memory
begin

text \<open>
  The machine-dependent layer: port output, the interrupt-enable depth (\<^verbatim>\<open>include/arch/i386/md.h\<close>),
  descriptor tables, interrupt controller and timer (\<^verbatim>\<open>arch/i386/machdep.c\<close>), and the thread
  start and context switch of \<^verbatim>\<open>arch/i386/cpu_sched.c\<close> and \<^verbatim>\<open>arch/i386/locore32.S\<close>. What the
  code does to devices is the log of its port accesses.
\<close>

section \<open>Ports and interrupt depth\<close>

definition ENOMEM :: int where "ENOMEM = 1"
definition EBUSY :: int where "EBUSY = 2"
definition EINVAL :: int where "EINVAL = 3"
definition EGENERIC :: int where "EGENERIC = EINVAL"
definition ETIMEDOUT :: int where "ETIMEDOUT = 4"
definition BMK_MAXINTR :: int where "BMK_MAXINTR = 32"

lemmas errno_defs = ENOMEM_def EBUSY_def EINVAL_def EGENERIC_def ETIMEDOUT_def

datatype io = Outb u16 u8 | Outl u16 u32 | Inb u16 u8 | Inl u16 u32 | Hlt

record region_descriptor =
  rd_limit :: u16
  rd_base :: u32

record gate_descriptor =
  gd_looffset :: u16
  gd_selector :: u16
  gd_stkcpy :: "5 word"
  gd_xx :: "3 word"
  gd_type :: "5 word"
  gd_dpl :: "2 word"
  gd_p :: "1 word"
  gd_hioffset :: u16

record segment_descriptor =
  sd_lolimit :: u16
  sd_lobase :: "24 word"
  sd_type :: "5 word"
  sd_dpl :: "2 word"
  sd_p :: "1 word"
  sd_hilimit :: "4 word"
  sd_xx :: "2 word"
  sd_def32 :: "1 word"
  sd_gran :: "1 word"
  sd_hibase :: u8

text \<open>
  The static variables of \<^verbatim>\<open>machdep.c\<close>, the two table registers, the segment registers, the interrupt flag, and the log
  of port accesses, oldest first.
\<close>

record cpu =
  bmk_spldepth :: int
  idt :: "nat \<Rightarrow> gate_descriptor"
  gdt :: "nat \<Rightarrow> segment_descriptor"
  gdtr :: region_descriptor
  idtr :: region_descriptor
  seg_cs :: u16
  seg_ds :: u16
  seg_es :: u16
  seg_gs :: u16
  seg_ss :: u16
  seg_fs :: u16
  iflag :: bool
  iolog :: "io list"

definition outb :: "u16 \<Rightarrow> u8 \<Rightarrow> cpu \<Rightarrow> cpu" where
  "outb port v c = c\<lparr>iolog := iolog c @ [Outb port v]\<rparr>"

definition outl :: "u16 \<Rightarrow> u32 \<Rightarrow> cpu \<Rightarrow> cpu" where
  "outl port v c = c\<lparr>iolog := iolog c @ [Outl port v]\<rparr>"

text \<open>The value an input instruction reads is the device's: it is an argument.\<close>

definition inb :: "u16 \<Rightarrow> u8 \<Rightarrow> cpu \<Rightarrow> cpu \<times> u8" where
  "inb port v c = (c\<lparr>iolog := iolog c @ [Inb port v]\<rparr>, v)"

definition inl :: "u16 \<Rightarrow> u32 \<Rightarrow> cpu \<Rightarrow> cpu \<times> u32" where
  "inl port v c = (c\<lparr>iolog := iolog c @ [Inl port v]\<rparr>, v)"

definition hlt :: "cpu \<Rightarrow> cpu" where
  "hlt c = c\<lparr>iolog := iolog c @ [Hlt]\<rparr>"

definition splhigh :: "cpu \<Rightarrow> cpu" where
  "splhigh c = c\<lparr>iflag := False, bmk_spldepth := bmk_spldepth c + 1\<rparr>"

definition spl0 :: "cpu \<Rightarrow> cpu outcome" where
  "spl0 c =
     (if bmk_spldepth c = 0 then Halts (Panic ''out of interrupt depth!'')
      else
        (let c = c\<lparr>bmk_spldepth := bmk_spldepth c - 1\<rparr>
         in Returns (if bmk_spldepth c = 0 then c\<lparr>iflag := True\<rparr> else c)))"

section \<open>Descriptors, interrupt controller and timer\<close>

definition fillgate :: "gate_descriptor \<Rightarrow> u32 \<Rightarrow> gate_descriptor" where
  "fillgate gd f = gd\<lparr>gd_hioffset := ucast (drop_bit 16 f), gd_looffset := ucast f,
     gd_selector := 8, gd_stkcpy := 0, gd_xx := 0, gd_type := 14, gd_dpl := 0, gd_p := 1\<rparr>"

definition SDT_MEMRWA :: "5 word" where "SDT_MEMRWA = 19"
definition SDT_MEMERA :: "5 word" where "SDT_MEMERA = 27"

definition fillsegment :: "segment_descriptor \<Rightarrow> 5 word \<Rightarrow> segment_descriptor" where
  "fillsegment sd ty = sd\<lparr>sd_lobase := 0, sd_hibase := 0, sd_lolimit := 0xffff, sd_hilimit := 0xf,
     sd_type := ty, sd_dpl := 0, sd_p := 1, sd_xx := 0, sd_def32 := 1, sd_gran := 1\<rparr>"

definition PIC1_CMD :: u16 where "PIC1_CMD = 0x20"
definition PIC1_DATA :: u16 where "PIC1_DATA = 0x21"
definition PIC2_CMD :: u16 where "PIC2_CMD = 0xa0"
definition PIC2_DATA :: u16 where "PIC2_DATA = 0xa1"
definition ICW1_IC4 :: u8 where "ICW1_IC4 = 1"
definition ICW1_INIT :: u8 where "ICW1_INIT = 0x10"
definition ICW4_8086 :: u8 where "ICW4_8086 = 1"

lemmas pic_defs = PIC1_CMD_def PIC1_DATA_def PIC2_CMD_def PIC2_DATA_def ICW1_IC4_def ICW1_INIT_def ICW4_8086_def

definition initpic :: "cpu \<Rightarrow> cpu" where
  "initpic c =
     (let c = outb PIC1_CMD (ICW1_INIT OR ICW1_IC4) c;
          c = outb PIC1_DATA 32 c;
          c = outb PIC1_DATA (push_bit 2 1) c;
          c = outb PIC1_DATA ICW4_8086 c;
          c = outb PIC1_DATA (0xff AND NOT (push_bit 2 1)) c;
          c = outb PIC2_CMD (ICW1_INIT OR ICW1_IC4) c;
          c = outb PIC2_DATA (32 + 8) c;
          c = outb PIC2_DATA 2 c;
          c = outb PIC2_DATA ICW4_8086 c
      in outb PIC2_DATA 0xff c)"

definition TIMER_CNTR :: u16 where "TIMER_CNTR = 0x40"
definition TIMER_MODE :: u16 where "TIMER_MODE = 0x43"
definition TIMER_RATEGEN :: u8 where "TIMER_RATEGEN = 4"
definition TIMER_16BIT :: u8 where "TIMER_16BIT = 0x30"
definition TIMER_HZ :: int where "TIMER_HZ = 1193182"
definition HZ :: int where "HZ = 100"

lemmas timer_defs = TIMER_CNTR_def TIMER_MODE_def TIMER_RATEGEN_def TIMER_16BIT_def TIMER_HZ_def HZ_def

text \<open>The addresses the linker gives to the routines and tables the kernel takes the address of.\<close>

record symbols =
  sym_insr :: u32
  sym_isr_clock :: u32
  sym_isr_10 :: u32
  sym_isr_11 :: u32
  sym_gdt :: u32
  sym_idt :: u32
  sym_bouncer :: u32
  sym_switch_return :: u32
  sym_isr :: u32
  sym_init_thread :: u32
  sym_bootstack :: u32
  sym_str_init :: u32
  sym_str_netisr :: u32

text \<open>
  After loading the table the data segment registers are loaded, and the return is a far one to the
  code segment.
\<close>

definition bmk_cpu_lgdt :: "region_descriptor \<Rightarrow> cpu \<Rightarrow> cpu" where
  "bmk_cpu_lgdt r c = c\<lparr>gdtr := r, seg_ds := 0x10, seg_es := 0x10, seg_gs := 0x10, seg_ss := 0x10, seg_fs := 0x10,
     seg_cs := 8\<rparr>"

definition bmk_cpu_lidt :: "region_descriptor \<Rightarrow> cpu \<Rightarrow> cpu" where
  "bmk_cpu_lidt r c = c\<lparr>idtr := r\<rparr>"

definition set_gate :: "nat \<Rightarrow> u32 \<Rightarrow> cpu \<Rightarrow> cpu" where
  "set_gate i f c = c\<lparr>idt := (idt c)(i := fillgate (idt c i) f)\<rparr>"

definition bmk_cpu_init :: "symbols \<Rightarrow> cpu \<Rightarrow> cpu outcome" where
  "bmk_cpu_init sy c =
     (let c = c\<lparr>gdt := (gdt c)(1 := fillsegment (gdt c 1) SDT_MEMERA)\<rparr>;
          c = c\<lparr>gdt := (gdt c)(2 := fillsegment (gdt c 2) SDT_MEMRWA)\<rparr>;
          c = bmk_cpu_lgdt \<lparr>rd_limit = 3 * 8 - 1, rd_base = sym_gdt sy\<rparr> c;
          c = bmk_cpu_lidt \<lparr>rd_limit = 256 * 8 - 1, rd_base = sym_idt sy\<rparr> c;
          c = fold (\<lambda>i. set_gate i (sym_insr sy)) [0..<32] c;
          c = initpic c;
          c = set_gate 32 (sym_isr_clock sy) c;
          c = outb TIMER_MODE (TIMER_RATEGEN OR TIMER_16BIT) c;
          c = outb TIMER_CNTR (word_of_int ((TIMER_HZ div HZ) mod 0x100)) c;
          c = outb TIMER_CNTR (word_of_int ((TIMER_HZ div HZ) div 0x100)) c
      in spl0 c)"

definition bmk_cpu_intr_init :: "symbols \<Rightarrow> int \<Rightarrow> cpu \<Rightarrow> cpu \<times> int" where
  "bmk_cpu_intr_init sy intr c =
     (if intr < 8 then (c, EGENERIC)
      else if intr = 10 then
        (outb PIC2_DATA (0xff AND NOT (push_bit (nat (intr - 8)) 1)) (set_gate (32 + 10) (sym_isr_10 sy) c), 0)
      else if intr = 11 then
        (outb PIC2_DATA (0xff AND NOT (push_bit (nat (intr - 8)) 1)) (set_gate (32 + 11) (sym_isr_11 sy) c), 0)
      else (c, EGENERIC))"

definition nanohlt_begin :: "cpu \<Rightarrow> cpu" where
  "nanohlt_begin c = hlt (outb PIC1_DATA (0xff AND NOT (push_bit 2 1 OR push_bit 0 1)) c)"

definition nanohlt_end :: "cpu \<Rightarrow> cpu" where
  "nanohlt_end c = outb PIC1_DATA (0xff AND NOT (push_bit 2 1)) c"

text \<open>
  \<^verbatim>\<open>bmk_cpu_nanohlt\<close>, with what the interrupts that end the halt do in between.
\<close>

definition bmk_cpu_nanohlt :: "(cpu \<Rightarrow> cpu) \<Rightarrow> cpu \<Rightarrow> cpu" where
  "bmk_cpu_nanohlt irqs c = nanohlt_end (irqs (nanohlt_begin c))"

section \<open>Thread start and context switch\<close>

definition stack_push :: "memory \<Rightarrow> u32 \<Rightarrow> u32 \<Rightarrow> memory \<times> u32" where
  "stack_push m stack v = (store32 m (stack - 4) v, stack - 4)"

definition bmk_cpu_sched_create :: "memory \<Rightarrow> u32 \<Rightarrow> u32 \<Rightarrow> u32 \<Rightarrow> memory \<times> u32" where
  "bmk_cpu_sched_create m f arg stack =
     (case stack_push m stack f of (m, stack) \<Rightarrow> stack_push m stack arg)"

text \<open>
  The registers the switch saves, with the instruction pointer, and the context of a thread
  (\<^verbatim>\<open>struct bmk_tcb\<close>).
\<close>

record regs =
  eax :: u32
  ebx :: u32
  esi :: u32
  edi :: u32
  ebp :: u32
  esp :: u32
  eip :: u32

record bmk_tcb =
  btcb_sp :: u32
  btcb_ip :: u32

definition pushl :: "u32 \<Rightarrow> memory \<times> 'a regs_scheme \<Rightarrow> memory \<times> 'a regs_scheme" where
  "pushl v = (\<lambda>(m, r). (store32 m (esp r - 4) v, r\<lparr>esp := esp r - 4\<rparr>))"

definition popl ::
  "(u32 \<Rightarrow> 'a regs_scheme \<Rightarrow> 'a regs_scheme) \<Rightarrow> memory \<times> 'a regs_scheme \<Rightarrow> memory \<times> 'a regs_scheme" where
  "popl upd = (\<lambda>(m, r). (m, upd (load32 m (esp r)) (r\<lparr>esp := esp r + 4\<rparr>)))"

text \<open>
  The switch up to its \<^verbatim>\<open>ret\<close>: the four registers are pushed on the old stack, the stack pointer
  and the address of label \<open>1\<close> are saved in \<open>prev\<close>, the stack pointer of \<open>next\<close> is loaded and its
  instruction pointer pushed and popped by \<^verbatim>\<open>ret\<close>.
\<close>

definition bmk_cpu_sched_switch ::
  "symbols \<Rightarrow> bmk_tcb \<Rightarrow> memory \<times> regs \<Rightarrow> bmk_tcb \<times> memory \<times> regs" where
  "bmk_cpu_sched_switch sy next s =
     (let s = pushl (ebp (snd s)) s;
          s = pushl (ebx (snd s)) s;
          s = pushl (esi (snd s)) s;
          s = pushl (edi (snd s)) s;
          prev = \<lparr>btcb_sp = esp (snd s), btcb_ip = sym_switch_return sy\<rparr>;
          s = (fst s, (snd s)\<lparr>esp := btcb_sp next\<rparr>);
          s = pushl (btcb_ip next) s;
          s = popl (\<lambda>v r. r\<lparr>eip := v\<rparr>) s
      in (prev, s))"

text \<open>The code at label \<open>1\<close>, which a switched-to thread runs, with its final \<^verbatim>\<open>ret\<close>.\<close>

definition switch_return :: "memory \<times> regs \<Rightarrow> memory \<times> regs" where
  "switch_return s =
     (let s = popl (\<lambda>v r. r\<lparr>edi := v\<rparr>) s;
          s = popl (\<lambda>v r. r\<lparr>esi := v\<rparr>) s;
          s = popl (\<lambda>v r. r\<lparr>ebx := v\<rparr>) s;
          s = popl (\<lambda>v r. r\<lparr>ebp := v\<rparr>) s
      in popl (\<lambda>v r. r\<lparr>eip := v\<rparr>) s)"

text \<open>
  The bouncer, up to its \<^verbatim>\<open>call\<close>: the argument and the function are popped, and the call leaves
  the address \<open>ra\<close> behind it on the stack above the argument.
\<close>

definition bmk_cpu_sched_bouncer :: "u32 \<Rightarrow> memory \<times> regs \<Rightarrow> memory \<times> regs" where
  "bmk_cpu_sched_bouncer ra s =
     (let s = popl (\<lambda>v r. r\<lparr>eax := v\<rparr>) s;
          s = popl (\<lambda>v r. r\<lparr>ebx := v\<rparr>) s;
          s = pushl 0 s;
          s = (fst s, (snd s)\<lparr>ebp := 0\<rparr>);
          s = pushl (eax (snd s)) s;
          s = pushl ra s
      in (fst s, (snd s)\<lparr>eip := ebx (snd s)\<rparr>))"

section \<open>Properties\<close>

text \<open>Where a gate sends the processor, and the first and last byte of a page-granular segment.\<close>

definition gate_target :: "gate_descriptor \<Rightarrow> u32" where
  "gate_target gd = push_bit 16 (ucast (gd_hioffset gd)) OR ucast (gd_looffset gd)"

definition gate_serves :: "u32 \<Rightarrow> gate_descriptor \<Rightarrow> bool" where
  "gate_serves f gd \<longleftrightarrow> gate_target gd = f \<and> gd_selector gd = 8 \<and> gd_type gd = 14 \<and> gd_dpl gd = 0 \<and> gd_p gd = 1"

definition segment_base :: "segment_descriptor \<Rightarrow> u32" where
  "segment_base sd = push_bit 24 (ucast (sd_hibase sd)) OR ucast (sd_lobase sd)"

definition segment_limit :: "segment_descriptor \<Rightarrow> u32" where
  "segment_limit sd =
     (let pages = push_bit 16 (ucast (sd_hilimit sd)) OR ucast (sd_lolimit sd)
      in if sd_gran sd = 1 then push_bit 12 pages OR 0xfff else pages)"

lemma fillgate_serves: "gate_serves f (fillgate gd f)"
proof -
  have "push_bit 16 (ucast (ucast (drop_bit 16 f) :: u16)) OR ucast (ucast f :: u16) = f"
    by (rule bit_eqI) (auto simp: bit_simps dest: bit_imp_le_length)
  then show ?thesis by (simp add: gate_serves_def gate_target_def fillgate_def)
qed

lemma fillsegment_flat: "segment_base (fillsegment sd ty) = 0 \<and> segment_limit (fillsegment sd ty) = 0xffffffff"
  by (simp add: segment_base_def segment_limit_def fillsegment_def)

lemma set_gate_simps [simp]:
  "idt (set_gate i f c) = (idt c)(i := fillgate (idt c i) f)"
  "gdt (set_gate i f c) = gdt c" "gdtr (set_gate i f c) = gdtr c" "idtr (set_gate i f c) = idtr c"
  "iflag (set_gate i f c) = iflag c" "bmk_spldepth (set_gate i f c) = bmk_spldepth c"
  "iolog (set_gate i f c) = iolog c"
  by (simp_all add: set_gate_def)

lemma outb_simps [simp]:
  "idt (outb p v c) = idt c" "gdt (outb p v c) = gdt c" "gdtr (outb p v c) = gdtr c" "idtr (outb p v c) = idtr c"
  "iflag (outb p v c) = iflag c" "bmk_spldepth (outb p v c) = bmk_spldepth c"
  "iolog (outb p v c) = iolog c @ [Outb p v]"
  by (simp_all add: outb_def)

lemma fold_set_gate:
  "idt (fold (\<lambda>i. set_gate i f) is c) i = (if i \<in> set is then fillgate (idt c i) f else idt c i) \<and>
   gdt (fold (\<lambda>i. set_gate i f) is c) = gdt c \<and> gdtr (fold (\<lambda>i. set_gate i f) is c) = gdtr c \<and>
   idtr (fold (\<lambda>i. set_gate i f) is c) = idtr c \<and> iolog (fold (\<lambda>i. set_gate i f) is c) = iolog c \<and>
   bmk_spldepth (fold (\<lambda>i. set_gate i f) is c) = bmk_spldepth c"
proof (induction "is" arbitrary: c)
  case (Cons j js)
  then show ?case by (cases "i = j") (simp_all add: fillgate_def)
qed simp

lemmas fold_set_gate_simps = fold_set_gate [THEN conjunct1] fold_set_gate [THEN conjunct2, THEN conjunct1]
  fold_set_gate [THEN conjunct2, THEN conjunct2, THEN conjunct1]
  fold_set_gate [THEN conjunct2, THEN conjunct2, THEN conjunct2, THEN conjunct1]
  fold_set_gate [THEN conjunct2, THEN conjunct2, THEN conjunct2, THEN conjunct2, THEN conjunct1]
  fold_set_gate [THEN conjunct2, THEN conjunct2, THEN conjunct2, THEN conjunct2, THEN conjunct2]

definition pic_timer_setup :: "io list" where
  "pic_timer_setup =
     [Outb 0x20 0x11, Outb 0x21 32, Outb 0x21 4, Outb 0x21 1, Outb 0x21 0xfb,
      Outb 0xa0 0x11, Outb 0xa1 40, Outb 0xa1 2, Outb 0xa1 1, Outb 0xa1 0xff,
      Outb 0x43 0x34, Outb 0x40 0x9b, Outb 0x40 0x2e]"

lemma cpu_init_result:
  assumes "bmk_spldepth c = 1"
  shows "\<exists>c'. bmk_cpu_init sy c = Returns c' \<and>
    (\<forall>i < 32. gate_serves (sym_insr sy) (idt c' i)) \<and> gate_serves (sym_isr_clock sy) (idt c' 32) \<and>
    (\<forall>i. 32 < i \<longrightarrow> idt c' i = idt c i) \<and>
    (\<forall>i \<in> {1, 2}. segment_base (gdt c' i) = 0 \<and> segment_limit (gdt c' i) = 0xffffffff) \<and>
    gdtr c' = \<lparr>rd_limit = 23, rd_base = sym_gdt sy\<rparr> \<and> idtr c' = \<lparr>rd_limit = 2047, rd_base = sym_idt sy\<rparr> \<and>
    iolog c' = iolog c @ pic_timer_setup \<and> bmk_spldepth c' = 0 \<and> iflag c'"
  using assms
  by (simp add: bmk_cpu_init_def spl0_def Let_def initpic_def fold_set_gate_simps fillgate_serves
      fillsegment_flat bmk_cpu_lgdt_def bmk_cpu_lidt_def pic_timer_setup_def pic_defs timer_defs del: upt_rec_numeral)

text \<open>The segment registers after initialisation select the flat code and data segments, entries 1 and 2 of the table.\<close>

lemma fold_set_gate_segments:
  "seg_cs (fold (\<lambda>i. set_gate i f) is c) = seg_cs c" "seg_ds (fold (\<lambda>i. set_gate i f) is c) = seg_ds c"
  "seg_es (fold (\<lambda>i. set_gate i f) is c) = seg_es c" "seg_gs (fold (\<lambda>i. set_gate i f) is c) = seg_gs c"
  "seg_ss (fold (\<lambda>i. set_gate i f) is c) = seg_ss c" "seg_fs (fold (\<lambda>i. set_gate i f) is c) = seg_fs c"
  by (induction "is" arbitrary: c) (simp_all add: set_gate_def)

lemma cpu_init_segments:
  assumes "bmk_cpu_init sy c = Returns c'"
  shows "seg_cs c' = 1 * 8 \<and> (\<forall>s \<in> {seg_ds, seg_es, seg_gs, seg_ss, seg_fs}. s c' = 2 * 8)"
  using assms
  by (auto simp: bmk_cpu_init_def spl0_def Let_def initpic_def outb_def set_gate_def fold_set_gate_segments
      bmk_cpu_lgdt_def bmk_cpu_lidt_def simp del: upt_rec_numeral split: if_splits)

text \<open>
  \<^verbatim>\<open>bmk_cpu_init\<close> on the boot state returns with the machine set up: every exception vector
  has a gate to the ignoring handler and vector 32 one to the clock handler, the code and data
  segments are flat over the whole address space, the table registers span the tables, the port
  writes are the initialisation of both interrupt controllers (vectors 32 and 40, all but the
  cascade masked) and of the timer with divisor $1193182 / 100$, and interrupts are on.
\<close>

theorem bmk_cpu_init_sets_up:
  assumes "bmk_spldepth c = 1"
  shows "\<exists>c'. bmk_cpu_init sy c = Returns c' \<and>
    (\<forall>i < 32. gate_serves (sym_insr sy) (idt c' i)) \<and> gate_serves (sym_isr_clock sy) (idt c' 32) \<and>
    (\<forall>i. 32 < i \<longrightarrow> idt c' i = idt c i) \<and>
    (\<forall>i \<in> {1, 2}. segment_base (gdt c' i) = 0 \<and> segment_limit (gdt c' i) = 0xffffffff) \<and>
    gdtr c' = \<lparr>rd_limit = 23, rd_base = sym_gdt sy\<rparr> \<and> idtr c' = \<lparr>rd_limit = 2047, rd_base = sym_idt sy\<rparr> \<and>
    iolog c' = iolog c @ pic_timer_setup \<and> bmk_spldepth c' = 0 \<and> iflag c'"
  using assms by (rule cpu_init_result)

definition sample_symbols :: symbols where
  "sample_symbols = \<lparr>sym_insr = 0x100100, sym_isr_clock = 0x100110, sym_isr_10 = 0x100120, sym_isr_11 = 0x100130,
     sym_gdt = 0x110000, sym_idt = 0x110100, sym_bouncer = 0x100140, sym_switch_return = 0x100150,
     sym_isr = 0x100200, sym_init_thread = 0x111000, sym_bootstack = 0x120000,
     sym_str_init = 0x101000, sym_str_netisr = 0x101010\<rparr>"

definition boot_cpu :: cpu where
  "boot_cpu = \<lparr>bmk_spldepth = 1, idt = (\<lambda>_. \<lparr>gd_looffset = 0, gd_selector = 0, gd_stkcpy = 0, gd_xx = 0,
       gd_type = 0, gd_dpl = 0, gd_p = 0, gd_hioffset = 0\<rparr>),
     gdt = (\<lambda>_. \<lparr>sd_lolimit = 0, sd_lobase = 0, sd_type = 0, sd_dpl = 0, sd_p = 0, sd_hilimit = 0, sd_xx = 0,
       sd_def32 = 0, sd_gran = 0, sd_hibase = 0\<rparr>),
     gdtr = \<lparr>rd_limit = 0, rd_base = 0\<rparr>, idtr = \<lparr>rd_limit = 0, rd_base = 0\<rparr>,
     seg_cs = 0, seg_ds = 0, seg_es = 0, seg_gs = 0, seg_ss = 0, seg_fs = 0, iflag = False, iolog = []\<rparr>"

theorem bmk_cpu_init_sets_up_witness:
  "\<exists>c'. bmk_cpu_init sample_symbols boot_cpu = Returns c' \<and> gate_serves 0x100100 (idt c' 13) \<and>
     iolog c' = pic_timer_setup \<and> iflag c'"
  using bmk_cpu_init_sets_up [of boot_cpu sample_symbols] by (auto simp: boot_cpu_def sample_symbols_def)

text \<open>A sequence of \<^verbatim>\<open>splhigh\<close> (\<open>True\<close>) and \<^verbatim>\<open>spl0\<close> (\<open>False\<close>) calls.\<close>

fun spl_run :: "bool list \<Rightarrow> cpu \<Rightarrow> cpu outcome" where
  "spl_run [] c = Returns c"
| "spl_run (True # ops) c = spl_run ops (splhigh c)"
| "spl_run (False # ops) c = bind_outcome (spl0 c) (spl_run ops)"

definition spl_ok :: "cpu \<Rightarrow> bool" where
  "spl_ok c \<longleftrightarrow> 0 \<le> bmk_spldepth c \<and> (iflag c \<longleftrightarrow> bmk_spldepth c = 0)"

fun spl_balance :: "bool list \<Rightarrow> int" where
  "spl_balance [] = 0"
| "spl_balance (h # ops) = (if h then 1 else - 1) + spl_balance ops"

lemma spl_step_ok:
  "spl_ok c \<Longrightarrow> spl_ok (splhigh c)"
  "spl_ok c \<Longrightarrow> spl0 c = Returns c' \<Longrightarrow> spl_ok c' \<and> bmk_spldepth c' = bmk_spldepth c - 1"
  by (auto simp: spl_ok_def splhigh_def spl0_def Let_def split: if_splits)

definition unmatched :: "int \<Rightarrow> bool list \<Rightarrow> bool" where
  "unmatched d ops \<longleftrightarrow> (\<exists>k. d + spl_balance (take k ops) < 0)"

lemma unmatched_Nil: "unmatched d [] \<longleftrightarrow> d < 0"
  by (simp add: unmatched_def)

lemma unmatched_Cons: "unmatched d (h # ops) \<longleftrightarrow> d < 0 \<or> unmatched (if h then d + 1 else d - 1) ops"
proof -
  have "unmatched d (h # ops) \<longleftrightarrow>
      d + spl_balance (take 0 (h # ops)) < 0 \<or> (\<exists>k. d + spl_balance (take (Suc k) (h # ops)) < 0)"
    unfolding unmatched_def by (metis not0_implies_Suc)
  then show ?thesis by (simp add: unmatched_def algebra_simps)
qed

text \<open>
  Nested interrupt masking: as long as no \<^verbatim>\<open>spl0\<close> is unmatched, a sequence of \<^verbatim>\<open>splhigh\<close>
  and \<^verbatim>\<open>spl0\<close> returns, the depth is the number of pending \<^verbatim>\<open>splhigh\<close> calls and interrupts are
  enabled exactly at depth zero; one \<^verbatim>\<open>spl0\<close> too many panics.
\<close>

theorem spl_nesting:
  assumes "spl_ok c"
  shows "if unmatched (bmk_spldepth c) ops then spl_run ops c = Halts (Panic ''out of interrupt depth!'')
    else \<exists>c'. spl_run ops c = Returns c' \<and> spl_ok c' \<and> bmk_spldepth c' = bmk_spldepth c + spl_balance ops"
  using assms
proof (induction ops c rule: spl_run.induct)
  case (1 c)
  then show ?case by (simp add: spl_ok_def unmatched_Nil)
next
  case (2 ops c)
  have "0 \<le> bmk_spldepth c" "bmk_spldepth (splhigh c) = bmk_spldepth c + 1"
    using 2(2) by (simp_all add: spl_ok_def splhigh_def)
  then show ?case using 2(1) [OF spl_step_ok(1) [OF 2(2)]] by (simp add: unmatched_Cons add.assoc split: if_splits)
next
  case (3 ops c)
  show ?case
  proof (cases "spl0 c")
    case (Inl h)
    moreover have "unmatched (- 1) ops" unfolding unmatched_def by (rule exI [of _ 0]) simp
    ultimately show ?thesis by (simp add: spl0_def Let_def unmatched_Cons split: if_splits)
  next
    case (Inr c')
    note ok = spl_step_ok(2) [OF 3(2) Inr]
    have "0 \<le> bmk_spldepth c" using 3(2) by (simp add: spl_ok_def)
    then show ?thesis using 3(1) [of c'] Inr ok by (auto simp: unmatched_Cons algebra_simps split: if_splits)
  qed
qed

theorem spl_nesting_witness:
  "\<exists>c'. spl_run [False, True, True, False] boot_cpu = Returns c' \<and> spl_ok c' \<and> bmk_spldepth c' = 1"
proof -
  have "spl_ok boot_cpu" "\<not> unmatched (bmk_spldepth boot_cpu) [False, True, True, False]"
    by (simp_all add: spl_ok_def boot_cpu_def unmatched_Cons unmatched_Nil)
  then show ?thesis using spl_nesting [of boot_cpu "[False, True, True, False]"] by (simp add: boot_cpu_def)
qed

text \<open>The last byte written to a port.\<close>

definition last_out :: "u16 \<Rightarrow> io list \<Rightarrow> u8 option" where
  "last_out port log = fold (\<lambda>x r. case x of Outb p v \<Rightarrow> if p = port then Some v else r | _ \<Rightarrow> r) log None"

lemma last_out_snoc [simp]:
  "last_out port (log @ [x]) = (case x of Outb p v \<Rightarrow> if p = port then Some v else last_out port log | _ \<Rightarrow> last_out port log)"
  by (simp add: last_out_def split: io.split)

text \<open>
  \<^verbatim>\<open>bmk_cpu_intr_init\<close> accepts exactly lines 10 and 11: it installs the handler and leaves
  every line of the second interrupt controller masked but the one asked for (so that setting up
  line 11 masks line 10 again); on any other line it changes nothing.
\<close>

theorem bmk_cpu_intr_init_lines:
  "case bmk_cpu_intr_init sy intr c of (c', e) \<Rightarrow>
     if intr = 10 \<or> intr = 11 then
       e = 0 \<and> gate_serves (if intr = 10 then sym_isr_10 sy else sym_isr_11 sy) (idt c' (32 + nat intr)) \<and>
       (\<forall>i. i \<noteq> 32 + nat intr \<longrightarrow> idt c' i = idt c i) \<and>
       (\<exists>v. last_out PIC2_DATA (iolog c') = Some v \<and>
          (\<forall>line. 8 \<le> line \<and> line < 16 \<longrightarrow> (bit v (line - 8) \<longleftrightarrow> line \<noteq> nat intr)))
     else c' = c \<and> e = EGENERIC"
proof -
  have m: "bit (0xff AND NOT (push_bit k 1) :: u8) (line - 8) \<longleftrightarrow> line \<noteq> k + 8"
    if "8 \<le> line" "line < 16" "k < 8" for k line :: nat
  proof -
    have ff: "(0xff :: u8) = mask 8" by (simp add: mask_eq_exp_minus_1)
    show ?thesis unfolding ff using that by (auto simp: bit_simps)
  qed
  show ?thesis
    using m [of _ 2] m [of _ 3] by (auto simp: bmk_cpu_intr_init_def fillgate_serves)
qed

theorem bmk_cpu_intr_init_lines_witness:
  "case bmk_cpu_intr_init sample_symbols 11 (fst (bmk_cpu_intr_init sample_symbols 10 boot_cpu)) of (c', e) \<Rightarrow>
     e = 0 \<and> gate_serves 0x100130 (idt c' 43) \<and>
     (\<exists>v. last_out PIC2_DATA (iolog c') = Some v \<and> bit v 2 \<and> \<not> bit v 3)"
proof -
  have "bit v 2" "\<not> bit v 3" if "\<forall>line. 8 \<le> line \<and> line < 16 \<longrightarrow> (bit v (line - 8) \<longleftrightarrow> line \<noteq> 11)" for v :: u8
    using that [rule_format, of 10] that [rule_format, of 11] by simp_all
  then show ?thesis
    using bmk_cpu_intr_init_lines [where sy = sample_symbols and intr = 11
        and c = "fst (bmk_cpu_intr_init sample_symbols 10 boot_cpu)"]
    by (fastforce simp: sample_symbols_def)
qed

section \<open>Context switches\<close>

lemma words_apart:
  assumes "4 \<le> unat (b - a)" "4 \<le> unat (a - b)"
  shows "region a 4 \<inter> region b 4 = {}"
proof (rule equals0I)
  fix x assume "x \<in> region a 4 \<inter> region b 4"
  then have x: "unat (x - a) < 4" "unat (x - b) < 4" by (simp_all add: region_def)
  have e: "b - a = (x - a) - (x - b)" "a - b = (x - b) - (x - a)" by simp_all
  show False
  proof (cases "unat (x - b) \<le> unat (x - a)")
    case True
    then have "unat (b - a) = unat (x - a) - unat (x - b)" unfolding e(1) by (rule unat_sub_no_wrap)
    then show False using x assms(1) by linarith
  next
    case False
    then have "unat (a - b) = unat (x - b) - unat (x - a)" unfolding e(2) by (intro unat_sub_no_wrap) simp
    then show False using x assms(2) by linarith
  qed
qed

lemma load32_push [simp]:
  "load32 (store32 m (a - numeral i) v) (a - numeral j) = load32 m (a - numeral j)"
  if "4 \<le> unat (numeral i - numeral j :: u32)" "4 \<le> unat (numeral j - numeral i :: u32)"
  using that by (intro load32_store32_other words_apart) simp_all

lemma load32_push_base [simp]:
  "load32 (store32 m (a - numeral i) v) a = load32 m a"
  if "4 \<le> unat (numeral i :: u32)" "4 \<le> unat (- numeral i :: u32)"
  using that by (intro load32_store32_other words_apart) simp_all

lemmas switch_defs = bmk_cpu_sched_switch_def switch_return_def bmk_cpu_sched_bouncer_def pushl_def popl_def
  bmk_cpu_sched_create_def stack_push_def Let_def

text \<open>The switch frame of a thread: four saved registers and the return address of the call.\<close>

definition switch_frame :: "memory \<Rightarrow> u32 \<Rightarrow> u32 list" where
  "switch_frame m sp = map (load32 m) [sp, sp + 4, sp + 8, sp + 12, sp + 16]"

lemma unat_add_le: "unat (a + b :: u32) \<le> unat a + unat b"
  by (simp add: unat_word_ariths)

lemma region_offset:
  assumes "k + n \<le> N" "k < 2 ^ 32"
  shows "region (a + of_nat k) n \<subseteq> region a N"
proof
  fix x assume "x \<in> region (a + of_nat k) n"
  then have x: "unat (x - (a + of_nat k)) < n" by (simp add: region_def)
  have "x - a = (x - (a + of_nat k)) + of_nat k" by simp
  then have "unat (x - a) \<le> unat (x - (a + of_nat k)) + k"
    using unat_add_le [of "x - (a + of_nat k)" "of_nat k"] assms(2) by (simp add: unat_of_nat_small)
  then show "x \<in> region a N" using x assms(1) by (simp add: region_def)
qed

lemma switch_frame_cong:
  assumes "\<And>x. x \<in> region sp 20 \<Longrightarrow> m' x = m x"
  shows "switch_frame m' sp = switch_frame m sp"
proof -
  have "region (sp + of_nat k) 4 \<subseteq> region sp 20" if "k \<le> 16" for k
    using that by (intro region_offset) simp_all
  then have "load32 m' (sp + of_nat k) = load32 m (sp + of_nat k)" if "k \<le> 16" for k
    using that assms by (intro load32_cong) blast
  from this [of 0] this [of 4] this [of 8] this [of 12] this [of 16] show ?thesis
    by (simp add: switch_frame_def)
qed

lemma switch_eq:
  "bmk_cpu_sched_switch sy nxt (m, r) =
     (\<lparr>btcb_sp = esp r - 16, btcb_ip = sym_switch_return sy\<rparr>,
      store32 (store32 (store32 (store32 (store32 m (esp r - 4) (ebp r)) (esp r - 8) (ebx r)) (esp r - 12) (esi r))
        (esp r - 16) (edi r)) (btcb_sp nxt - 4) (btcb_ip nxt),
      r\<lparr>esp := btcb_sp nxt, eip := btcb_ip nxt\<rparr>)"
  by (simp add: switch_defs)

lemma switch_saves:
  assumes "region (btcb_sp nxt - 4) 4 \<inter> region (esp r - 16) 20 = {}"
    and "bmk_cpu_sched_switch sy nxt (m, r) = (prev, m1, r1)"
  shows "switch_frame m1 (esp r - 16) = [edi r, esi r, ebx r, ebp r, load32 m (esp r)]"
proof -
  define m0 where "m0 = store32 (store32 (store32 (store32 m (esp r - 4) (ebp r)) (esp r - 8) (ebx r))
    (esp r - 12) (esi r)) (esp r - 16) (edi r)"
  have "m1 = store32 m0 (btcb_sp nxt - 4) (btcb_ip nxt)" using assms(2) by (simp add: switch_eq m0_def)
  then have "switch_frame m1 (esp r - 16) = switch_frame m0 (esp r - 16)"
    using assms(1) by (intro switch_frame_cong) (auto intro: store32_outside)
  also have "\<dots> = [edi r, esi r, ebx r, ebp r, load32 m (esp r)]" by (simp add: switch_frame_def m0_def)
  finally show ?thesis .
qed

lemma region_below:
  assumes "x \<in> region (a - of_nat k) 4" "k \<le> 16" "4 \<le> k"
  shows "x \<in> region (a - 16) 16"
proof -
  have "region (a - 16 + of_nat (16 - k)) 4 \<subseteq> region (a - 16) 16" using assms(2,3) by (intro region_offset) simp_all
  then show ?thesis using assms by (auto simp: of_nat_diff)
qed

lemma switch_outside:
  assumes "bmk_cpu_sched_switch sy nxt (m, r) = (prev, m1, r1)"
    and "x \<notin> region (esp r - 16) 16" and n: "n < 2 ^ 32 - 4" and x: "x \<in> region (btcb_sp nxt) n"
  shows "m1 x = m x"
proof -
  have *: "x \<notin> region (esp r - 4) 4" "x \<notin> region (esp r - 8) 4" "x \<notin> region (esp r - 12) 4"
      "x \<notin> region (esp r - 16) 4"
    using assms(2) region_below [of x "esp r" 4] region_below [of x "esp r" 8] region_below [of x "esp r" 12]
      region_below [of x "esp r" 16] by auto
  have "x \<notin> region (btcb_sp nxt - 4) 4"
  proof
    assume "x \<in> region (btcb_sp nxt - 4) 4"
    then have "unat (x - btcb_sp nxt + 4) < 4" by (simp add: region_def algebra_simps)
    moreover have "unat (x - btcb_sp nxt + 4) = unat (x - btcb_sp nxt) + 4"
      using x n by (subst unat_add_no_wrap) (simp_all add: region_def)
    ultimately show False by simp
  qed
  then show "m1 x = m x" using assms(1) * by (auto simp: switch_eq store32_outside)
qed

lemma switch_keeps:
  assumes "bmk_cpu_sched_switch sy nxt (m, r) = (prev, m1, r1)"
    and "region (esp r - 16) 16 \<inter> region (btcb_sp nxt) 20 = {}"
  shows "switch_frame m1 (btcb_sp nxt) = switch_frame m (btcb_sp nxt)"
  using assms(2) by (intro switch_frame_cong switch_outside [OF assms(1), where n = 20]) auto

lemma switch_return_frame:
  "switch_frame m sp = [a, b, c, d, e] \<Longrightarrow> esp r = sp \<Longrightarrow>
   switch_return (m, r) = (m, r\<lparr>edi := a, esi := b, ebx := c, ebp := d, esp := sp + 20, eip := e\<rparr>)"
  by (auto simp: switch_defs switch_frame_def add.commute)

text \<open>
  A context switch is transparent to the thread that makes it: if its saved frame is intact
  when some other thread later switches back to it, then it resumes behind the call with the stack
  pointer, the frame pointer and the other callee-saved registers it had. All that is needed of the
  two stacks is that they are apart from the frame.
\<close>

theorem bmk_cpu_sched_switch_roundtrip:
  assumes away: "bmk_cpu_sched_switch sy nxt (m, r) = (prev, m1, r1)"
    and apart: "region (btcb_sp nxt - 4) 4 \<inter> region (esp r - 16) 20 = {}"
    and intact: "\<And>x. x \<in> region (esp r - 16) 20 \<Longrightarrow> m2 x = m1 x"
    and again: "bmk_cpu_sched_switch sy prev (m2, r2) = (other, m3, r3)"
    and apart2: "region (esp r2 - 16) 16 \<inter> region (esp r - 16) 20 = {}"
  shows "eip r3 = sym_switch_return sy \<and>
    (\<exists>r4. switch_return (m3, r3) = (m3, r4) \<and> eip r4 = load32 m (esp r) \<and> esp r4 = esp r + 4 \<and>
       ebp r4 = ebp r \<and> ebx r4 = ebx r \<and> esi r4 = esi r \<and> edi r4 = edi r)"
proof -
  have prev: "prev = \<lparr>btcb_sp = esp r - 16, btcb_ip = sym_switch_return sy\<rparr>" using away by (auto simp: switch_eq)
  have "switch_frame m3 (esp r - 16) = [edi r, esi r, ebx r, ebp r, load32 m (esp r)]"
    using switch_keeps [OF again] apart2 switch_frame_cong [OF intact] switch_saves [OF apart away] by (simp add: prev)
  moreover have "esp r3 = esp r - 16" "eip r3 = sym_switch_return sy" using again by (auto simp: switch_eq prev)
  ultimately show ?thesis by (auto dest: switch_return_frame)
qed

definition sample_regs :: "u32 \<Rightarrow> regs" where
  "sample_regs sp = \<lparr>eax = 0, ebx = 1, esi = 2, edi = 3, ebp = 4, esp = sp, eip = 0\<rparr>"

lemma regions_apart:
  assumes "unat a + n \<le> unat b" "unat b + k \<le> 2 ^ 32"
  shows "region a n \<inter> region b k = {}" "region b k \<inter> region a n = {}"
proof -
  have False if "unat (x - a) < n" "unat (x - b) < k" for x
  proof -
    have "unat (a + (x - a)) = unat a + unat (x - a)" using that assms by (intro unat_add_no_wrap) simp
    moreover have "unat (b + (x - b)) = unat b + unat (x - b)" using that assms by (intro unat_add_no_wrap) simp
    ultimately show False using that assms by simp
  qed
  then show "region a n \<inter> region b k = {}" "region b k \<inter> region a n = {}" by (auto simp: region_def)
qed

theorem bmk_cpu_sched_switch_roundtrip_witness:
  "\<exists>prev m1 r1 other m3 r3 r4. bmk_cpu_sched_switch sample_symbols \<lparr>btcb_sp = 0x300000, btcb_ip = 5\<rparr>
      (\<lambda>_. 7, sample_regs 0x200000) = (prev, m1, r1) \<and>
    bmk_cpu_sched_switch sample_symbols prev (m1, sample_regs 0x300000) = (other, m3, r3) \<and>
    switch_return (m3, r3) = (m3, r4) \<and> ebp r4 = 4 \<and> esp r4 = 0x200004"
proof -
  obtain prev m1 r1 where a: "bmk_cpu_sched_switch sample_symbols \<lparr>btcb_sp = 0x300000, btcb_ip = 5\<rparr>
      (\<lambda>_. 7, sample_regs 0x200000) = (prev, m1, r1)" by (metis prod_cases3)
  obtain other m3 r3 where b: "bmk_cpu_sched_switch sample_symbols prev (m1, sample_regs 0x300000) = (other, m3, r3)"
    by (metis prod_cases3)
  have apart: "region (0x2ffffc) 4 \<inter> region 0x1ffff0 20 = {}" "region 0x2ffff0 16 \<inter> region 0x1ffff0 20 = {}"
    by (rule regions_apart(2); simp)+
  from bmk_cpu_sched_switch_roundtrip [OF a _ refl b] apart a b show ?thesis
    by (auto simp: sample_regs_def)
qed

text \<open>
  A new thread begins in its function with its argument: on the stack \<^verbatim>\<open>bmk_cpu_sched_create\<close>
  prepares below \<open>stk\<close>, a switch reaches the bouncer, which reaches \<open>f\<close> with \<open>arg\<close> above the return
  address.
\<close>

theorem new_thread_starts:
  assumes create: "bmk_cpu_sched_create m f arg stk = (m1, sp)"
    and switch: "bmk_cpu_sched_switch sy \<lparr>btcb_sp = sp, btcb_ip = sym_bouncer sy\<rparr> (m1, r) = (prev, m2, r2)"
    and apart: "region (esp r - 16) 16 \<inter> region (stk - 8) 8 = {}"
  shows "eip r2 = sym_bouncer sy \<and>
    (\<exists>m3 r3. bmk_cpu_sched_bouncer ra (m2, r2) = (m3, r3) \<and> eip r3 = f \<and> esp r3 = stk - 12 \<and>
       load32 m3 (esp r3) = ra \<and> load32 m3 (esp r3 + 4) = arg \<and> ebp r3 = 0)"
proof -
  have sp: "sp = stk - 8" and m1: "m1 = store32 (store32 m (stk - 4) f) (stk - 8) arg"
    using create by (auto simp: switch_defs)
  have sub: "region (stk - 8) 4 \<subseteq> region (stk - 8) 8" "region (stk - 4) 4 \<subseteq> region (stk - 8) 8"
    using region_offset [of 0 4 8 "stk - 8"] region_offset [of 4 4 8 "stk - 8"] by simp_all
  have keep: "load32 m2 a = load32 m1 a" if "region a 4 \<subseteq> region (stk - 8) 8" for a
  proof (rule load32_cong)
    fix x assume "x \<in> region a 4"
    then have x: "x \<in> region (stk - 8) 8" using that by blast
    then have "x \<notin> region (esp r - 16) 16" using apart by blast
    then show "m2 x = m1 x" using switch sp x by (auto intro: switch_outside [where n = 8])
  qed
  have "load32 m2 (stk - 8) = arg" "load32 m2 (stk - 4) = f"
    using keep sub by (simp_all add: m1)
  then show ?thesis
    using switch by (auto simp: switch_eq switch_defs sp)
qed

theorem new_thread_starts_witness:
  "\<exists>m1 sp prev m2 r2 m3 r3. bmk_cpu_sched_create (\<lambda>_. 0) 0x5000 77 0x300000 = (m1, sp) \<and>
    bmk_cpu_sched_switch sample_symbols \<lparr>btcb_sp = sp, btcb_ip = 0x100140\<rparr> (m1, sample_regs 0x200000) = (prev, m2, r2) \<and>
    bmk_cpu_sched_bouncer 9 (m2, r2) = (m3, r3) \<and> eip r3 = 0x5000 \<and> load32 m3 (esp r3 + 4) = 77"
proof -
  obtain m1 sp where a: "bmk_cpu_sched_create (\<lambda>_. 0) 0x5000 77 0x300000 = (m1, sp)" by fastforce
  obtain prev m2 r2 where b: "bmk_cpu_sched_switch sample_symbols \<lparr>btcb_sp = sp, btcb_ip = sym_bouncer sample_symbols\<rparr>
      (m1, sample_regs 0x200000) = (prev, m2, r2)" by (metis prod_cases3)
  have "region 0x1ffff0 16 \<inter> region 0x2ffff8 8 = {}" by (rule regions_apart(1); simp)
  with new_thread_starts [OF a b, of 9] a b show ?thesis
    by (auto simp: sample_regs_def sample_symbols_def)
qed

end
