(* ===== verification/Threads.thy ===== *)
theory Threads
  imports Heapframe Machdep
begin

text \<open>
  The threads of \<^verbatim>\<open>sched.c\<close>: their state, and the operations that do not give up the processor.
  The fields of \<^verbatim>\<open>struct bmk_thread\<close> are a store indexed by the address of the thread, except
  \<^verbatim>\<open>bt_name\<close>, which \<^verbatim>\<open>bmk_strncpy\<close> writes in the flat memory. The queues \<^verbatim>\<open>threads\<close>,
  \<^verbatim>\<open>zombies\<close> and \<^verbatim>\<open>joinwq\<close> are lists, which the macros of \<^verbatim>\<open>queue.h\<close> implement.
\<close>

section \<open>State\<close>

definition TLS_COUNT :: u32 where "TLS_COUNT = 2"
definition NAME_MAXLEN :: u32 where "NAME_MAXLEN = 16"
definition THREAD_RUNNABLE :: u32 where "THREAD_RUNNABLE = 0x01"
definition THREAD_MUSTJOIN :: u32 where "THREAD_MUSTJOIN = 0x02"
definition THREAD_JOINED :: u32 where "THREAD_JOINED = 0x04"
definition THREAD_EXTSTACK :: u32 where "THREAD_EXTSTACK = 0x08"
definition THREAD_TIMEDOUT :: u32 where "THREAD_TIMEDOUT = 0x10"
definition THREAD_STACKSIZE :: u32 where "THREAD_STACKSIZE = push_bit 16 1"
definition sizeof_thread :: u32 where "sizeof_thread = 60"

lemmas thread_flags = THREAD_RUNNABLE_def THREAD_MUSTJOIN_def THREAD_JOINED_def THREAD_EXTSTACK_def THREAD_TIMEDOUT_def

record bmk_thread =
  bt_tls :: "nat \<Rightarrow> u32"
  bt_wakeup_time :: u64
  bt_flags :: u32
  bt_errno :: u32
  bt_stackbase :: u32
  bt_tcb :: bmk_tcb

record join_waiter =
  jw_thread :: u32
  jw_wanted :: u32

text \<open>The static variables of \<^verbatim>\<open>sched.c\<close>, with the heap, the processor and its registers,
  and the console.\<close>

record sched =
  kheap :: heap
  kcpu :: cpu
  kcons :: cons
  kregs :: regs
  thread :: "u32 \<Rightarrow> bmk_thread"
  zombies :: "u32 list"
  threads :: "u32 list"
  scheduler_hook :: u32
  current_thread :: u32
  joinwq :: "join_waiter list"

definition zero_thread :: bmk_thread where
  "zero_thread = \<lparr>bt_tls = (\<lambda>_. 0), bt_wakeup_time = 0, bt_flags = 0, bt_errno = 0, bt_stackbase = 0,
     bt_tcb = \<lparr>btcb_sp = 0, btcb_ip = 0\<rparr>\<rparr>"

definition upd_thread :: "u32 \<Rightarrow> (bmk_thread \<Rightarrow> bmk_thread) \<Rightarrow> 'a sched_scheme \<Rightarrow> 'a sched_scheme" where
  "upd_thread t f st = st\<lparr>thread := (thread st)(t := f (thread st t))\<rparr>"

definition set_kmem :: "memory \<Rightarrow> 'a sched_scheme \<Rightarrow> 'a sched_scheme" where
  "set_kmem m st = st\<lparr>kheap := (kheap st)\<lparr>mem := m\<rparr>\<rparr>"

section \<open>Operations\<close>

definition bmk_sched_current :: "'a sched_scheme \<Rightarrow> u32" where
  "bmk_sched_current st = current_thread st"

definition is_runnable :: "'a sched_scheme \<Rightarrow> u32 \<Rightarrow> bool" where
  "is_runnable st t \<longleftrightarrow> bt_flags (thread st t) AND THREAD_RUNNABLE \<noteq> 0"

definition set_runnable :: "u32 \<Rightarrow> 'a sched_scheme \<Rightarrow> 'a sched_scheme" where
  "set_runnable t = upd_thread t (\<lambda>x. x\<lparr>bt_flags := bt_flags x OR THREAD_RUNNABLE\<rparr>)"

definition clear_runnable :: "u32 \<Rightarrow> 'a sched_scheme \<Rightarrow> 'a sched_scheme" where
  "clear_runnable t = upd_thread t (\<lambda>x. x\<lparr>bt_flags := bt_flags x AND NOT THREAD_RUNNABLE\<rparr>)"

definition stackalloc :: "heap \<Rightarrow> (heap \<times> u32) outcome" where
  "stackalloc h = bmk_xmalloc h THREAD_STACKSIZE"

definition stackfree :: "heap \<Rightarrow> u32 \<Rightarrow> heap outcome" where
  "stackfree h stack = bmk_memfree h stack"

text \<open>\<open>rdtsc\<close> leaves the time-stamp counter in \<^verbatim>\<open>edx:eax\<close>.\<close>

definition bmk_clock_now :: "u32 \<Rightarrow> u32 \<Rightarrow> u64" where
  "bmk_clock_now tsc_edx tsc_eax = push_bit 32 (ucast tsc_edx) OR ucast tsc_eax"

definition bmk_sched_setwakeup :: "u32 \<Rightarrow> u64 \<Rightarrow> 'a sched_scheme \<Rightarrow> 'a sched_scheme" where
  "bmk_sched_setwakeup t abstime = upd_thread t (\<lambda>x. x\<lparr>bt_wakeup_time := abstime\<rparr>)"

definition bmk_sched_wake :: "u32 \<Rightarrow> 'a sched_scheme \<Rightarrow> 'a sched_scheme" where
  "bmk_sched_wake t st = set_runnable t (upd_thread t (\<lambda>x. x\<lparr>bt_wakeup_time := - 1\<rparr>) st)"

definition bmk_sched_block :: "u32 \<Rightarrow> 'a sched_scheme \<Rightarrow> 'a sched_scheme" where
  "bmk_sched_block t st = clear_runnable t (upd_thread t (\<lambda>x. x\<lparr>bt_wakeup_time := - 1\<rparr>) st)"

text \<open>
  The stack of a new thread: its own, freshly allocated, or the caller's. The result also has the
  flags the thread starts with.
\<close>

definition create_stack :: "heap \<Rightarrow> u32 \<Rightarrow> u32 \<Rightarrow> (heap \<times> u32 \<times> u32 \<times> u32) outcome" where
  "create_stack h stack_base stack_size =
     (if stack_base = 0 then
        if stack_size = 0 then
          bind_outcome (stackalloc h) (\<lambda>(h, stack_base). Returns (h, 0, stack_base, THREAD_STACKSIZE))
        else Halts (AssertFail ''stack_size == 0'')
      else Returns (h, THREAD_EXTSTACK, stack_base, stack_size))"

definition bmk_sched_create ::
  "symbols \<Rightarrow> u32 \<Rightarrow> u32 \<Rightarrow> u32 \<Rightarrow> u32 \<Rightarrow> u32 \<Rightarrow> u32 \<Rightarrow> u32 \<Rightarrow> 'a sched_scheme \<Rightarrow>
   ('a sched_scheme \<times> u32) outcome" where
  "bmk_sched_create sy name cookie thrflags f data stack_base stack_size st =
     bind_outcome (bmk_xmalloc (kheap st) sizeof_thread) (\<lambda>(h, t).
     bind_outcome (create_stack (h\<lparr>mem := fst (bmk_memset (mem h) t 0 sizeof_thread)\<rparr>) stack_base stack_size)
       (\<lambda>(h, flags, stack_base, stack_size).
       (case bmk_cpu_sched_create (mem h) f data (stack_base + stack_size) of
          (m, stack) \<Rightarrow>
            (let st = st\<lparr>kheap := h\<lparr>mem := fst (bmk_strncpy m t name (NAME_MAXLEN - 1))\<rparr>\<rparr>;
                 st = upd_thread t (\<lambda>_. zero_thread\<lparr>bt_flags := flags, bt_stackbase := stack_base,
                        bt_tcb := \<lparr>btcb_sp = stack, btcb_ip = sym_bouncer sy\<rparr>, bt_wakeup_time := - 1\<rparr>) st;
                 st = set_runnable t st
             in Returns (st\<lparr>threads := t # threads st\<rparr>, t)))))"

definition bmk_sched_init :: "symbols \<Rightarrow> 'a sched_scheme \<Rightarrow> 'a sched_scheme" where
  "bmk_sched_init sy st =
     (let t = sym_init_thread sy;
          st = set_kmem (fst (bmk_strncpy (mem (kheap st)) t (sym_str_init sy) (NAME_MAXLEN - 1))) st;
          st = upd_thread t (\<lambda>x. x\<lparr>bt_flags := 0, bt_wakeup_time := - 1\<rparr>) st;
          st = set_runnable t st
      in st\<lparr>threads := threads st @ [t], current_thread := t\<rparr>)"

definition bmk_sched_set_hook :: "u32 \<Rightarrow> 'a sched_scheme \<Rightarrow> 'a sched_scheme" where
  "bmk_sched_set_hook f st = st\<lparr>scheduler_hook := f\<rparr>"

definition bmk_sched_init_mainthread :: "u32 \<Rightarrow> 'a sched_scheme \<Rightarrow> u32" where
  "bmk_sched_init_mainthread cookie st = current_thread st"

text \<open>\<^verbatim>\<open>bmk_sched_geterrno\<close> returns a pointer into the current thread: its reader and its writer.\<close>

definition bmk_sched_geterrno :: "'a sched_scheme \<Rightarrow> u32" where
  "bmk_sched_geterrno st = bt_errno (thread st (current_thread st))"

definition bmk_sched_seterrno :: "u32 \<Rightarrow> 'a sched_scheme \<Rightarrow> 'a sched_scheme" where
  "bmk_sched_seterrno e st = upd_thread (current_thread st) (\<lambda>x. x\<lparr>bt_errno := e\<rparr>) st"

definition bmk_sched_settls :: "u32 \<Rightarrow> u32 \<Rightarrow> u32 \<Rightarrow> 'a sched_scheme \<Rightarrow> 'a sched_scheme outcome" where
  "bmk_sched_settls t which v st =
     (if TLS_COUNT \<le> which then Halts (Panic ''out of bmk sched tls space'')
      else Returns (upd_thread t (\<lambda>x. x\<lparr>bt_tls := (bt_tls x)(unat which := v)\<rparr>) st))"

definition bmk_sched_gettls :: "'a sched_scheme \<Rightarrow> u32 \<Rightarrow> u32 \<Rightarrow> u32 outcome" where
  "bmk_sched_gettls st t which =
     (if TLS_COUNT \<le> which then Halts (Panic ''out of bmk sched tls space'')
      else Returns (bt_tls (thread st t) (unat which)))"

section \<open>Giving up the processor\<close>

text \<open>
  A thread gives up the processor inside \<^verbatim>\<open>bmk_sched\<close>, at the switch. Each operation that calls
  \<^verbatim>\<open>bmk_sched\<close> is therefore a function up to that call, and what follows the call runs when the
  thread is switched to again.
\<close>

definition sched_switch :: "symbols \<Rightarrow> u32 \<Rightarrow> u32 \<Rightarrow> 'a sched_scheme \<Rightarrow> 'a sched_scheme" where
  "sched_switch sy prev nxt st =
     (let st = st\<lparr>current_thread := nxt\<rparr>
      in case bmk_cpu_sched_switch sy (bt_tcb (thread st nxt)) (mem (kheap st), kregs st) of
           (tcb, m, r) \<Rightarrow> upd_thread prev (\<lambda>x. x\<lparr>bt_tcb := tcb\<rparr>) ((set_kmem m st)\<lparr>kregs := r\<rparr>))"

text \<open>The reaper at the end of \<^verbatim>\<open>bmk_sched\<close>.\<close>

definition reap_thread :: "u32 \<Rightarrow> 'a sched_scheme \<Rightarrow> 'a sched_scheme outcome" where
  "reap_thread t st =
     bind_outcome
       (if bt_flags (thread st t) AND THREAD_EXTSTACK = 0 then stackfree (kheap st) (bt_stackbase (thread st t))
        else Returns (kheap st))
       (\<lambda>h. bind_outcome (bmk_memfree h t) (\<lambda>h. Returns (st\<lparr>kheap := h\<rparr>)))"

fun reap :: "u32 \<Rightarrow> u32 list \<Rightarrow> 'a sched_scheme \<Rightarrow> 'a sched_scheme outcome" where
  "reap prev [] st = Returns st"
| "reap prev (t # ts) st =
     (if t \<noteq> prev then
        bind_outcome (reap_thread t (st\<lparr>zombies := remove1 t (zombies st)\<rparr>)) (reap prev ts)
      else reap prev ts st)"

definition sched_reaper :: "u32 \<Rightarrow> 'a sched_scheme \<Rightarrow> 'a sched_scheme outcome" where
  "sched_reaper prev st = reap prev (zombies st) st"

text \<open>
  One pass of \<^verbatim>\<open>bmk_sched_exit\<close> up to its call of \<^verbatim>\<open>bmk_sched\<close>: either the thread is gated until
  its joiner has seen it, and takes another pass when it runs again, or it is gone.
\<close>

datatype exit_state = ExitGated | ExitGone

definition exit_wake_joiner :: "u32 \<Rightarrow> 'a sched_scheme \<Rightarrow> 'a sched_scheme" where
  "exit_wake_joiner t st =
     (case find (\<lambda>jw. jw_wanted jw = t) (joinwq st) of
        None \<Rightarrow> st
      | Some jw \<Rightarrow> bmk_sched_wake (jw_thread jw) st)"

definition bmk_sched_exit :: "'a sched_scheme \<Rightarrow> 'a sched_scheme \<times> exit_state" where
  "bmk_sched_exit st =
     (let t = bmk_sched_current st
      in if bt_flags (thread st t) AND THREAD_MUSTJOIN \<noteq> 0 then
           (let st = upd_thread t (\<lambda>x. x\<lparr>bt_flags := bt_flags x OR THREAD_JOINED\<rparr>) st;
                st = exit_wake_joiner t st
            in (bmk_sched_block t st, ExitGated))
         else
           (let st = clear_runnable t (st\<lparr>threads := remove1 t (threads st)\<rparr>)
            in (st\<lparr>zombies := t # zombies st\<rparr>, ExitGone)))"

datatype join_state = JoinWaits | JoinDone

definition join_pass :: "u32 \<Rightarrow> 'a sched_scheme \<Rightarrow> 'a sched_scheme \<times> join_state" where
  "join_pass joinable st =
     (let t = bmk_sched_current st
      in if bt_flags (thread st joinable) AND THREAD_JOINED = 0 then
           (bmk_sched_block t (st\<lparr>joinwq := joinwq st @ [\<lparr>jw_thread = t, jw_wanted = joinable\<rparr>]\<rparr>), JoinWaits)
         else
           (bmk_sched_wake joinable
              (upd_thread joinable (\<lambda>x. x\<lparr>bt_flags := bt_flags x AND NOT THREAD_MUSTJOIN\<rparr>) st), JoinDone))"

definition bmk_sched_join :: "u32 \<Rightarrow> 'a sched_scheme \<Rightarrow> ('a sched_scheme \<times> join_state) outcome" where
  "bmk_sched_join joinable st =
     (if bt_flags (thread st joinable) AND THREAD_MUSTJOIN = 0
      then Halts (AssertFail ''joinable->bt_flags & THREAD_MUSTJOIN'')
      else Returns (join_pass joinable st))"

definition bmk_sched_join_resume :: "u32 \<Rightarrow> 'a sched_scheme \<Rightarrow> 'a sched_scheme \<times> join_state" where
  "bmk_sched_join_resume joinable st =
     join_pass joinable
       (st\<lparr>joinwq := remove1 \<lparr>jw_thread = bmk_sched_current st, jw_wanted = joinable\<rparr> (joinwq st)\<rparr>)"

definition bmk_sched_nanosleep :: "u64 \<Rightarrow> u64 \<Rightarrow> 'a sched_scheme \<Rightarrow> 'a sched_scheme" where
  "bmk_sched_nanosleep now nsec st =
     (let t = bmk_sched_current st
      in clear_runnable t (upd_thread t (\<lambda>x. x\<lparr>bt_wakeup_time := now + nsec\<rparr>) st))"

end
