(* ===== verification/Threadinv.thy ===== *)
theory Threadinv
  imports Threads
begin

text \<open>
  The invariant that ties the scheduler to the heap: which allocations are threads and stacks, and
  that every operation of \<^verbatim>\<open>sched.c\<close> keeps them apart and accounted for.
\<close>

section \<open>The invariant\<close>

text \<open>The threads the scheduler knows, other than the initial one, which is static.\<close>

definition heap_threads :: "symbols \<Rightarrow> 'a sched_scheme \<Rightarrow> u32 set" where
  "heap_threads sy st = set (threads st) \<union> set (zombies st) - {sym_init_thread sy}"

definition stack_area :: "symbols \<Rightarrow> allocations \<Rightarrow> 'a sched_scheme \<Rightarrow> u32 \<Rightarrow> u32 set" where
  "stack_area sy L st t =
     (if t = sym_init_thread sy then region (sym_bootstack sy) (2 ^ 16)
      else (case L (bt_stackbase (thread st t)) of None \<Rightarrow> {} | Some n \<Rightarrow> region (bt_stackbase (thread st t)) n))"

definition thread_alloc :: "allocations \<Rightarrow> bmk_thread \<Rightarrow> u32 \<Rightarrow> bool" where
  "thread_alloc L x t \<longleftrightarrow> L t = Some 60 \<and>
     (\<exists>n. L (bt_stackbase x) = Some n \<and> (bt_flags x AND THREAD_EXTSTACK = 0 \<longrightarrow> n = 2 ^ 16))"

definition sched_inv :: "symbols \<Rightarrow> allocations \<Rightarrow> 'a sched_scheme \<Rightarrow> bool" where
  "sched_inv sy L st \<longleftrightarrow> heap_ok (kheap st) L \<and>
     distinct (threads st @ zombies st) \<and> sym_init_thread sy \<notin> set (zombies st) \<and>
     (\<forall>t \<in> heap_threads sy st. thread_alloc L (thread st t) t) \<and>
     inj_on (\<lambda>t. bt_stackbase (thread st t)) (heap_threads sy st) \<and>
     (\<forall>t \<in> heap_threads sy st. bt_stackbase (thread st t) \<notin> heap_threads sy st) \<and>
     region (sym_bootstack sy) (2 ^ 16) \<inter> managed (kheap st) = {} \<and>
     region (sym_init_thread sy) 60 \<inter> managed (kheap st) = {} \<and>
     (\<forall>t \<in> set (threads st) - {current_thread st}.
        region (btcb_sp (bt_tcb (thread st t)) - 4) 4 \<subseteq> stack_area sy L st t)"

lemma sched_invD:
  assumes "sched_inv sy L st"
  shows "heap_ok (kheap st) L" "distinct (threads st)" "distinct (zombies st)"
    "set (threads st) \<inter> set (zombies st) = {}" "sym_init_thread sy \<notin> set (zombies st)"
    "t \<in> heap_threads sy st \<Longrightarrow> thread_alloc L (thread st t) t"
    "inj_on (\<lambda>t. bt_stackbase (thread st t)) (heap_threads sy st)"
    "t \<in> heap_threads sy st \<Longrightarrow> bt_stackbase (thread st t) \<notin> heap_threads sy st"
    "region (sym_bootstack sy) (2 ^ 16) \<inter> managed (kheap st) = {}"
    "region (sym_init_thread sy) 60 \<inter> managed (kheap st) = {}"
    "t \<in> set (threads st) \<Longrightarrow> t \<noteq> current_thread st \<Longrightarrow>
       region (btcb_sp (bt_tcb (thread st t)) - 4) 4 \<subseteq> stack_area sy L st t"
  using assms by (simp_all add: sched_inv_def)

text \<open>What the threads own: the allocations that are not the clients' to free or to write.\<close>

definition owned :: "symbols \<Rightarrow> 'a sched_scheme \<Rightarrow> u32 set" where
  "owned sy st = heap_threads sy st \<union> (\<lambda>t. bt_stackbase (thread st t)) ` heap_threads sy st"

lemma heap_ok_managed:
  assumes "heap_ok h L" "L p = Some n" "0 < n"
  shows "p \<in> managed h"
  using live_managed [OF assms(1,2)] assms(3) by (meson region_self subsetD)

lemma stack_area_eq:
  "t \<noteq> sym_init_thread sy \<Longrightarrow> L (bt_stackbase (thread st t)) = Some n \<Longrightarrow>
   stack_area sy L st t = region (bt_stackbase (thread st t)) n"
  by (simp add: stack_area_def)

lemma stack_area_heap:
  assumes "sched_inv sy L st" "t \<in> heap_threads sy st"
  obtains n where "L (bt_stackbase (thread st t)) = Some n" "stack_area sy L st t = region (bt_stackbase (thread st t)) n"
  using sched_invD(6) [OF assms(1,2)] assms(2) that by (auto simp: thread_alloc_def heap_threads_def stack_area_def)

lemma stack_areas_disjoint:
  assumes inv: "sched_inv sy L st" and t: "t \<in> set (threads st) \<union> set (zombies st)"
    and t': "t' \<in> set (threads st) \<union> set (zombies st)" and ne: "t \<noteq> t'"
  shows "stack_area sy L st t \<inter> stack_area sy L st t' = {}"
proof -
  have boot: "stack_area sy L st u \<inter> region (sym_bootstack sy) (2 ^ 16) = {}" if u: "u \<in> heap_threads sy st" for u
  proof -
    obtain n where n: "L (bt_stackbase (thread st u)) = Some n"
      "stack_area sy L st u = region (bt_stackbase (thread st u)) n" using stack_area_heap [OF inv u] .
    then show ?thesis using live_managed [OF sched_invD(1) [OF inv] n(1)] sched_invD(9) [OF inv] by blast
  qed
  have both: "stack_area sy L st t \<inter> stack_area sy L st t' = {}"
    if h: "t \<in> heap_threads sy st" "t' \<in> heap_threads sy st"
  proof -
    obtain n where n: "L (bt_stackbase (thread st t)) = Some n"
      "stack_area sy L st t = region (bt_stackbase (thread st t)) n" using stack_area_heap [OF inv h(1)] .
    obtain k where k: "L (bt_stackbase (thread st t')) = Some k"
      "stack_area sy L st t' = region (bt_stackbase (thread st t')) k" using stack_area_heap [OF inv h(2)] .
    have "bt_stackbase (thread st t) \<noteq> bt_stackbase (thread st t')"
      using inj_onD [OF sched_invD(7) [OF inv] _ h] ne by blast
    then show ?thesis using kmalloc.live_disjoint [OF sched_invD(1) [OF inv] n(1) k(1)] n(2) k(2) by simp
  qed
  have init: "stack_area sy L st (sym_init_thread sy) = region (sym_bootstack sy) (2 ^ 16)" by (simp add: stack_area_def)
  have "u = sym_init_thread sy \<or> u \<in> heap_threads sy st" if "u \<in> set (threads st) \<union> set (zombies st)" for u
    using that by (auto simp: heap_threads_def)
  then show ?thesis using t t' ne both boot init by (metis Int_commute)
qed

text \<open>A stack is writable: outside the managed range, or within a live allocation.\<close>

lemma stack_area_writable:
  assumes inv: "sched_inv sy L st" and x: "x \<in> stack_area sy L st t"
  shows "x \<notin> managed (kheap st) \<or> (\<exists>p n. L p = Some n \<and> x \<in> region p n)"
  using x sched_invD(9) [OF inv] by (auto simp: stack_area_def split: if_splits option.splits)

text \<open>What an operation that creates no thread has to show.\<close>

lemma sched_inv_change:
  assumes inv: "sched_inv sy L st"
    and "heap_ok (kheap st') L'" "managed (kheap st') = managed (kheap st)"
    and "distinct (threads st' @ zombies st')" "sym_init_thread sy \<notin> set (zombies st')"
    and sub: "heap_threads sy st' \<subseteq> heap_threads sy st"
    and same: "\<And>t. t \<in> heap_threads sy st' \<Longrightarrow> bt_stackbase (thread st' t) = bt_stackbase (thread st t) \<and>
      bt_flags (thread st' t) AND THREAD_EXTSTACK = bt_flags (thread st t) AND THREAD_EXTSTACK"
    and L': "\<And>t. t \<in> heap_threads sy st' \<Longrightarrow> L' t = L t \<and> L' (bt_stackbase (thread st t)) = L (bt_stackbase (thread st t))"
    and frames: "\<And>t. t \<in> set (threads st') \<Longrightarrow> t \<noteq> current_thread st' \<Longrightarrow>
      region (btcb_sp (bt_tcb (thread st' t)) - 4) 4 \<subseteq> stack_area sy L st t"
  shows "sched_inv sy L' st'"
proof -
  have area: "stack_area sy L' st' t = stack_area sy L st t" if "t \<in> set (threads st')" for t
    using same [of t] L' [of t] that by (cases "t = sym_init_thread sy") (auto simp: stack_area_def heap_threads_def split: option.splits)
  have alloc: "thread_alloc L' (thread st' t) t" if "t \<in> heap_threads sy st'" for t
    using sched_invD(6) [OF inv] sub same [OF that] L' [OF that] that by (auto simp: thread_alloc_def)
  have "inj_on (\<lambda>t. bt_stackbase (thread st' t)) (heap_threads sy st')"
    using inj_on_subset [OF sched_invD(7) [OF inv] sub] same by (auto simp: inj_on_def)
  moreover have "bt_stackbase (thread st' t) \<notin> heap_threads sy st'" if "t \<in> heap_threads sy st'" for t
    using sched_invD(8) [OF inv] sub same [OF that] that by auto
  moreover have "region (btcb_sp (bt_tcb (thread st' t)) - 4) 4 \<subseteq> stack_area sy L' st' t"
    if "t \<in> set (threads st') - {current_thread st'}" for t using that frames area by auto
  ultimately show ?thesis
    unfolding sched_inv_def using assms(2-5) alloc sched_invD(9,10) [OF inv] by simp
qed

section \<open>Operations on the fields of a thread\<close>

definition harmless :: "(bmk_thread \<Rightarrow> bmk_thread) \<Rightarrow> bool" where
  "harmless f \<longleftrightarrow> (\<forall>x. bt_stackbase (f x) = bt_stackbase x \<and> bt_tcb (f x) = bt_tcb x \<and>
     bt_flags (f x) AND THREAD_EXTSTACK = bt_flags x AND THREAD_EXTSTACK)"

lemma upd_thread_simps [simp]:
  "kheap (upd_thread t f st) = kheap st" "threads (upd_thread t f st) = threads st"
  "zombies (upd_thread t f st) = zombies st" "current_thread (upd_thread t f st) = current_thread st"
  "kcpu (upd_thread t f st) = kcpu st" "kregs (upd_thread t f st) = kregs st" "joinwq (upd_thread t f st) = joinwq st"
  "thread (upd_thread t f st) = (thread st)(t := f (thread st t))"
  by (simp_all add: upd_thread_def)

lemma sched_inv_upd:
  assumes "sched_inv sy L st" "harmless f"
  shows "sched_inv sy L (upd_thread t f st)"
  using assms
  by (intro sched_inv_change [OF assms(1)])
    (auto simp: heap_threads_def harmless_def sched_inv_def)

lemma flag_ops_keep_ext:
  "(f OR THREAD_RUNNABLE) AND THREAD_EXTSTACK = f AND THREAD_EXTSTACK"
  "(f AND NOT THREAD_RUNNABLE) AND THREAD_EXTSTACK = f AND THREAD_EXTSTACK"
  "(f OR THREAD_JOINED) AND THREAD_EXTSTACK = f AND THREAD_EXTSTACK"
  "(f AND NOT THREAD_MUSTJOIN) AND THREAD_EXTSTACK = f AND THREAD_EXTSTACK"
  "(f OR THREAD_TIMEDOUT) AND THREAD_EXTSTACK = f AND THREAD_EXTSTACK"
  by (simp_all add: thread_flags bit.conj_disj_distrib2 and.assoc)

lemma harmless_ops [simp]:
  "harmless (\<lambda>x. x\<lparr>bt_flags := bt_flags x OR THREAD_RUNNABLE\<rparr>)"
  "harmless (\<lambda>x. x\<lparr>bt_flags := bt_flags x AND NOT THREAD_RUNNABLE\<rparr>)"
  "harmless (\<lambda>x. x\<lparr>bt_flags := bt_flags x OR THREAD_JOINED\<rparr>)"
  "harmless (\<lambda>x. x\<lparr>bt_flags := bt_flags x OR THREAD_TIMEDOUT\<rparr>)"
  "harmless (\<lambda>x. x\<lparr>bt_flags := bt_flags x AND NOT THREAD_MUSTJOIN\<rparr>)"
  "harmless (\<lambda>x. x\<lparr>bt_wakeup_time := w\<rparr>)" "harmless (\<lambda>x. x\<lparr>bt_errno := e\<rparr>)"
  "harmless (\<lambda>x. x\<lparr>bt_tls := (bt_tls x)(i := v)\<rparr>)"
  by (simp_all add: harmless_def flag_ops_keep_ext)

lemma sched_inv_ops:
  assumes "sched_inv sy L st"
  shows "sched_inv sy L (bmk_sched_wake t st)" "sched_inv sy L (bmk_sched_block t st)"
    "sched_inv sy L (bmk_sched_setwakeup t w st)" "sched_inv sy L (bmk_sched_seterrno e st)"
    "sched_inv sy L (clear_runnable t st)" "sched_inv sy L (bmk_sched_nanosleep now ns st)"
    "bmk_sched_settls t k v st = Returns st' \<Longrightarrow> sched_inv sy L st'"
  using assms
  by (auto simp: bmk_sched_wake_def bmk_sched_block_def bmk_sched_setwakeup_def bmk_sched_seterrno_def
      set_runnable_def clear_runnable_def bmk_sched_nanosleep_def bmk_sched_settls_def Let_def
      intro!: sched_inv_upd split: if_splits)

lemma sched_inv_fields:
  assumes "kheap st' = kheap st" "threads st' = threads st" "zombies st' = zombies st" "thread st' = thread st"
    "current_thread st' = current_thread st"
  shows "sched_inv sy L st' \<longleftrightarrow> sched_inv sy L st"
proof -
  have "heap_threads sy st' = heap_threads sy st" "stack_area sy L st' = stack_area sy L st"
    by (simp_all only: heap_threads_def stack_area_def fun_eq_iff assms simp_thms)
  then show ?thesis using assms by (simp add: sched_inv_def)
qed

lemma sched_inv_joinwq: "sched_inv sy L (st\<lparr>joinwq := q\<rparr>) \<longleftrightarrow> sched_inv sy L st"
  by (rule sched_inv_fields) simp_all

lemma sched_inv_join:
  assumes "sched_inv sy L st"
  shows "sched_inv sy L (fst (join_pass j st))" "sched_inv sy L (fst (bmk_sched_join_resume j st))"
    "bmk_sched_join j st = Returns (st', r) \<Longrightarrow> sched_inv sy L st'"
proof -
  have j: "sched_inv sy L (fst (join_pass j st))" if "sched_inv sy L st" for st :: "'a sched_scheme"
    using that by (auto simp: join_pass_def Let_def sched_inv_joinwq intro!: sched_inv_ops(1-6) sched_inv_upd)
  then show "sched_inv sy L (fst (join_pass j st))" using assms .
  show "sched_inv sy L (fst (bmk_sched_join_resume j st))"
    unfolding bmk_sched_join_resume_def using assms by (intro j) (simp add: sched_inv_joinwq)
  show "sched_inv sy L st'" if "bmk_sched_join j st = Returns (st', r)"
    using j [OF assms] that by (auto simp: bmk_sched_join_def split: if_splits)
qed

lemma sched_inv_exit:
  assumes inv: "sched_inv sy L st" and cur: "current_thread st \<in> set (threads st)" "current_thread st \<noteq> sym_init_thread sy"
  shows "sched_inv sy L (fst (bmk_sched_exit st))"
proof (cases "bt_flags (thread st (current_thread st)) AND THREAD_MUSTJOIN = 0")
  case True
  let ?t = "current_thread st"
  have 1: "sched_inv sy L (st\<lparr>threads := remove1 ?t (threads st), zombies := ?t # zombies st\<rparr>)"
    using cur sched_invD [OF inv]
    by (intro sched_inv_change [OF inv]) (auto simp: heap_threads_def)
  have "fst (bmk_sched_exit st) = clear_runnable ?t (st\<lparr>threads := remove1 ?t (threads st), zombies := ?t # zombies st\<rparr>)"
    using True by (simp add: bmk_sched_exit_def Let_def bmk_sched_current_def clear_runnable_def upd_thread_def)
  then show ?thesis using sched_inv_ops(5) [OF 1] by simp
next
  case False
  then show ?thesis
    using inv by (auto simp: bmk_sched_exit_def Let_def bmk_sched_current_def exit_wake_joiner_def
        intro!: sched_inv_ops(1-6) sched_inv_upd split: option.split)
qed

section \<open>Switching\<close>

lemma managed_mem [simp]: "managed (h\<lparr>mem := m\<rparr>) = managed h"
  by (simp add: managed_def)

lemma switch_writes:
  assumes "bmk_cpu_sched_switch sy nxt (m, r) = (tcb, m', r')" "m' x \<noteq> m x"
  shows "x \<in> region (esp r - 16) 16 \<or> x \<in> region (btcb_sp nxt - 4) 4"
proof (rule ccontr)
  assume "\<not> ?thesis"
  then have *: "x \<notin> region (esp r - 4) 4" "x \<notin> region (esp r - 8) 4" "x \<notin> region (esp r - 12) 4"
      "x \<notin> region (esp r - 16) 4" "x \<notin> region (btcb_sp nxt - 4) 4"
    using region_below [of x "esp r" 4] region_below [of x "esp r" 8] region_below [of x "esp r" 12]
      region_below [of x "esp r" 16] by auto
  then have "m' x = m x" using assms(1) by (auto simp: switch_eq store32_outside)
  then show False using assms(2) by simp
qed

text \<open>The running thread has room on its stack for the switch.\<close>

definition stack_room :: "symbols \<Rightarrow> allocations \<Rightarrow> 'a sched_scheme \<Rightarrow> bool" where
  "stack_room sy L st \<longleftrightarrow> region (esp (kregs st) - 20) 24 \<subseteq> stack_area sy L st (current_thread st)"

lemma sched_switch_eq:
  assumes "bmk_cpu_sched_switch sy (bt_tcb (thread st nxt)) (mem (kheap st), kregs st) = (tcb, m, r)"
  shows "sched_switch sy prev nxt st = st\<lparr>current_thread := nxt, kheap := (kheap st)\<lparr>mem := m\<rparr>, kregs := r,
    thread := (thread st)(prev := (thread st prev)\<lparr>bt_tcb := tcb\<rparr>)\<rparr>"
  using assms by (cases st) (simp add: sched_switch_def set_kmem_def upd_thread_def)

lemma sched_switch_writes:
  assumes inv: "sched_inv sy L st" and room: "stack_room sy L st"
    and nxt: "nxt \<in> set (threads st)" "nxt \<noteq> current_thread st"
    and x: "mem (kheap (sched_switch sy (current_thread st) nxt st)) x \<noteq> mem (kheap st) x"
  shows "x \<in> stack_area sy L st (current_thread st) \<or> x \<in> stack_area sy L st nxt"
proof -
  obtain tcb m r where sw: "bmk_cpu_sched_switch sy (bt_tcb (thread st nxt)) (mem (kheap st), kregs st) = (tcb, m, r)"
    by (metis prod_cases3)
  have "x \<in> region (esp (kregs st) - 16) 16 \<or> x \<in> region (btcb_sp (bt_tcb (thread st nxt)) - 4) 4"
    using switch_writes [OF sw] x by (simp add: sched_switch_eq [OF sw])
  moreover have "region (esp (kregs st) - 16) 16 \<subseteq> region (esp (kregs st) - 20) 24"
    using region_offset [of 4 16 24 "esp (kregs st) - 20"] by simp
  ultimately show ?thesis using room sched_invD(11) [OF inv nxt] by (auto simp: stack_room_def)
qed

lemma sched_inv_switch:
  assumes inv: "sched_inv sy L st" and room: "stack_room sy L st"
    and nxt: "nxt \<in> set (threads st)" "nxt \<noteq> current_thread st"
  shows "sched_inv sy L (sched_switch sy (current_thread st) nxt st)"
proof -
  obtain tcb m r where sw: "bmk_cpu_sched_switch sy (bt_tcb (thread st nxt)) (mem (kheap st), kregs st) = (tcb, m, r)"
    by (metis prod_cases3)
  note eq = sched_switch_eq [OF sw, of "current_thread st"]
  have "heap_ok ((kheap st)\<lparr>mem := m\<rparr>) L"
    using sched_switch_writes [OF inv room nxt] stack_area_writable [OF inv]
    by (intro heap_ok_frame [OF sched_invD(1) [OF inv]]) (fastforce simp: eq)
  moreover have "btcb_sp tcb = esp (kregs st) - 16" using sw by (auto simp: switch_eq)
  moreover have "region (esp (kregs st) - 20) 4 \<subseteq> stack_area sy L st (current_thread st)"
    using room region_mono [of 4 24] by (fastforce simp: stack_room_def)
  ultimately show ?thesis
    using sched_invD [OF inv] unfolding eq
    by (intro sched_inv_change [OF inv]) (auto simp: heap_threads_def)
qed

section \<open>The reaper\<close>

text \<open>The allocations after the threads \<open>Z\<close> have been reaped.\<close>

definition reaped :: "'a sched_scheme \<Rightarrow> u32 set \<Rightarrow> allocations \<Rightarrow> allocations" where
  "reaped st Z L = (\<lambda>p. if p \<in> Z \<or> (\<exists>t \<in> Z. p = bt_stackbase (thread st t) \<and>
     bt_flags (thread st t) AND THREAD_EXTSTACK = 0) then None else L p)"

lemma reaped_simps:
  "reaped st {} L = L"
  "reaped st Z (reaped st {t} L) = reaped st (insert t Z) L"
  by (auto simp: reaped_def fun_eq_iff)

lemma bytes_kept_sub:
  "bytes_kept L m m' \<Longrightarrow> (\<And>p n. L' p = Some n \<Longrightarrow> L p = Some n) \<Longrightarrow> bytes_kept L' m m'"
  unfolding bytes_kept_def by blast

lemma reaped_sub: "reaped st Z L p = Some n \<Longrightarrow> L p = Some n"
  by (simp add: reaped_def split: if_splits)

lemma reap_thread_ok:
  assumes inv: "sched_inv sy L st" and t: "t \<in> set (zombies st)"
  defines "st1 \<equiv> st\<lparr>zombies := remove1 t (zombies st)\<rparr>"
  shows "\<exists>h. reap_thread t st1 = Returns (st1\<lparr>kheap := h\<rparr>) \<and> sched_inv sy (reaped st {t} L) (st1\<lparr>kheap := h\<rparr>) \<and>
    bytes_kept (reaped st {t} L) (mem (kheap st)) (mem h) \<and>
    (\<forall>x. x \<notin> managed (kheap st) \<longrightarrow> mem h x = mem (kheap st) x) \<and> managed h = managed (kheap st)"
proof -
  define sb where "sb = bt_stackbase (thread st t)"
  define ext where "ext \<longleftrightarrow> bt_flags (thread st t) AND THREAD_EXTSTACK \<noteq> 0"
  define L1 where "L1 = (if ext then L else L(sb := None))"
  have ht: "t \<in> heap_threads sy st" using t sched_invD(5) [OF inv] by (auto simp: heap_threads_def)
  then have al: "L t = Some 60" "\<exists>n. L sb = Some n" "sb \<noteq> t"
    using sched_invD(6,8) [OF inv ht] by (auto simp: thread_alloc_def sb_def)
  have L': "reaped st {t} L = L1(t := None)" by (auto simp: reaped_def L1_def sb_def ext_def fun_eq_iff)
  obtain h1 where h1: "(if ext then Returns (kheap st) else bmk_memfree (kheap st) sb) = Returns h1"
      "heap_ok h1 L1" "bytes_kept L1 (mem (kheap st)) (mem h1)" "managed h1 = managed (kheap st)"
      "\<forall>x. x \<notin> managed (kheap st) \<longrightarrow> mem h1 x = mem (kheap st) x"
  proof (cases ext)
    case True
    then show ?thesis using that [of "kheap st"] sched_invD(1) [OF inv] by (simp add: L1_def bytes_kept_def)
  next
    case False
    obtain n where "L sb = Some n" using al(2) by blast
    from kmalloc.free_live [OF sched_invD(1) [OF inv] this] False show ?thesis
      using that bmk_memfree_bounds bmk_memfree_unmanaged [OF sched_invD(1) [OF inv] \<open>L sb = Some n\<close>]
      by (auto simp: L1_def)
  qed
  have "L1 t = Some 60" using al by (simp add: L1_def)
  then obtain h where h: "bmk_memfree h1 t = Returns h" "heap_ok h (L1(t := None))"
      "bytes_kept (L1(t := None)) (mem h1) (mem h)" using kmalloc.free_live [OF h1(2)] by blast
  have m: "managed h = managed (kheap st)" using bmk_memfree_bounds [OF h(1)] h1(4) by simp
  have "reap_thread t st1 = Returns (st1\<lparr>kheap := h\<rparr>)"
    using h1(1) h(1) by (auto simp: reap_thread_def st1_def sb_def ext_def stackfree_def split: if_splits)
  moreover have "bytes_kept (L1(t := None)) (mem (kheap st)) (mem h)"
    using h1(3) h(3) by (auto simp: bytes_kept_def split: if_splits)
  moreover have "sched_inv sy (reaped st {t} L) (st1\<lparr>kheap := h\<rparr>)"
  proof (rule sched_inv_change [OF inv])
    have sub: "heap_threads sy (st1\<lparr>kheap := h\<rparr>) = heap_threads sy st - {t}"
      using sched_invD(2-5) [OF inv] t by (auto simp: heap_threads_def st1_def)
    then show "heap_threads sy (st1\<lparr>kheap := h\<rparr>) \<subseteq> heap_threads sy st" by blast
    show "reaped st {t} L u = L u \<and> reaped st {t} L (bt_stackbase (thread st u)) = L (bt_stackbase (thread st u))"
      if "u \<in> heap_threads sy (st1\<lparr>kheap := h\<rparr>)" for u
      using that sub sched_invD(8) [OF inv] inj_onD [OF sched_invD(7) [OF inv], of u t] ht by (auto simp: reaped_def)
  qed (use sched_invD [OF inv] h(2) m in \<open>auto simp: st1_def L' heap_threads_def\<close>)
  moreover have "mem h x = mem (kheap st) x" if "x \<notin> managed (kheap st)" for x
    using that h1(4,5) bmk_memfree_unmanaged [OF h1(2) \<open>L1 t = Some 60\<close> h(1)] by simp
  ultimately show ?thesis using m by (auto simp: L')
qed

lemma reap_ok:
  assumes "sched_inv sy L st" "distinct zs" "set zs \<subseteq> set (zombies st)"
  shows "\<exists>h. reap prev zs st =
      Returns (st\<lparr>kheap := h, zombies := filter (\<lambda>t. t \<in> set zs \<longrightarrow> t = prev) (zombies st)\<rparr>) \<and>
    sched_inv sy (reaped st (set zs - {prev}) L)
      (st\<lparr>kheap := h, zombies := filter (\<lambda>t. t \<in> set zs \<longrightarrow> t = prev) (zombies st)\<rparr>) \<and>
    bytes_kept (reaped st (set zs - {prev}) L) (mem (kheap st)) (mem h) \<and>
    (\<forall>x. x \<notin> managed (kheap st) \<longrightarrow> mem h x = mem (kheap st) x)"
  using assms
proof (induction zs arbitrary: st L)
  case Nil
  then show ?case by (intro exI [of _ "kheap st"]) (auto simp: reaped_simps bytes_kept_def)
next
  case (Cons t zs)
  show ?case
  proof (cases "t = prev")
    case True
    then have "(\<lambda>u. u \<in> set (t # zs) \<longrightarrow> u = prev) = (\<lambda>u. u \<in> set zs \<longrightarrow> u = prev)" by auto
    moreover have "set (t # zs) - {prev} = set zs - {prev}" using True by auto
    ultimately show ?thesis using Cons.IH [OF Cons.prems(1)] Cons.prems True by simp
  next
    case False
    let ?st1 = "st\<lparr>zombies := remove1 t (zombies st)\<rparr>"
    have tz: "t \<in> set (zombies st)" using Cons.prems(3) by simp
    obtain h1 where h1: "reap_thread t ?st1 = Returns (?st1\<lparr>kheap := h1\<rparr>)"
        "sched_inv sy (reaped st {t} L) (?st1\<lparr>kheap := h1\<rparr>)"
        "bytes_kept (reaped st {t} L) (mem (kheap st)) (mem h1)"
        "\<forall>x. x \<notin> managed (kheap st) \<longrightarrow> mem h1 x = mem (kheap st) x" "managed h1 = managed (kheap st)"
      using reap_thread_ok [OF Cons.prems(1) tz] by blast
    have dz: "distinct (zombies st)" using sched_invD(3) [OF Cons.prems(1)] .
    then have "set zs \<subseteq> set (remove1 t (zombies st))" using Cons.prems(2,3) by auto
    moreover have "reaped (?st1\<lparr>kheap := h1\<rparr>) = reaped st" by (simp add: reaped_def fun_eq_iff)
    ultimately obtain h where h:
        "reap prev zs (?st1\<lparr>kheap := h1\<rparr>) =
           Returns (st\<lparr>kheap := h, zombies := filter (\<lambda>u. u \<in> set zs \<longrightarrow> u = prev) (remove1 t (zombies st))\<rparr>)"
        "sched_inv sy (reaped st (set zs - {prev}) (reaped st {t} L))
           (st\<lparr>kheap := h, zombies := filter (\<lambda>u. u \<in> set zs \<longrightarrow> u = prev) (remove1 t (zombies st))\<rparr>)"
        "bytes_kept (reaped st (set zs - {prev}) (reaped st {t} L)) (mem h1) (mem h)"
        "\<forall>x. x \<notin> managed h1 \<longrightarrow> mem h x = mem h1 x"
      using Cons.IH [OF h1(2)] Cons.prems(2) by auto
    have f: "filter (\<lambda>u. u \<in> set zs \<longrightarrow> u = prev) (remove1 t (zombies st)) =
        filter (\<lambda>u. u \<in> set (t # zs) \<longrightarrow> u = prev) (zombies st)"
      using dz False by (auto simp: distinct_remove1_removeAll removeAll_filter_not_eq intro: filter_cong)
    have r: "reaped st (set zs - {prev}) (reaped st {t} L) = reaped st (set (t # zs) - {prev}) L"
      using False by (simp add: reaped_simps insert_Diff_if)
    have "bytes_kept (reaped st (set (t # zs) - {prev}) L) (mem (kheap st)) (mem h)"
      using bytes_kept_trans [OF bytes_kept_sub [OF h1(3)] h(3)] reaped_sub unfolding r [symmetric] by blast
    then show ?thesis using h1(1,4,5) h(1,2,4) False unfolding f r by auto
  qed
qed

text \<open>The reaper, run by a thread that is not itself a zombie.\<close>

lemma sched_reaper_ok:
  assumes inv: "sched_inv sy L st" and prev: "prev \<notin> set (zombies st)"
  shows "\<exists>h. sched_reaper prev st = Returns (st\<lparr>kheap := h, zombies := []\<rparr>) \<and>
    sched_inv sy (reaped st (set (zombies st)) L) (st\<lparr>kheap := h, zombies := []\<rparr>) \<and>
    bytes_kept (reaped st (set (zombies st)) L) (mem (kheap st)) (mem h) \<and>
    (\<forall>x. x \<notin> managed (kheap st) \<longrightarrow> mem h x = mem (kheap st) x)"
proof -
  have "filter (\<lambda>t. t \<in> set (zombies st) \<longrightarrow> t = prev) (zombies st) = []" "set (zombies st) - {prev} = set (zombies st)"
    using prev by (auto simp: filter_empty_conv)
  then show ?thesis
    using reap_ok [OF inv sched_invD(3) [OF inv] order_refl, of prev] by (simp add: sched_reaper_def)
qed

end
