(* ===== verification/Threadcreate.thy ===== *)
theory Threadcreate
  imports Threadinv
begin

text \<open>
  \<^verbatim>\<open>bmk_sched_create\<close> and the invariant: the new thread and its stack are new allocations, the
  name and the first frame are written inside them, and nothing else changes.
\<close>

section \<open>Creation\<close>

lemma top_region:
  assumes "4 \<le> j" "j \<le> unat sz" "unat sz \<le> k"
  shows "region (sb + sz - of_nat j) 4 \<subseteq> region sb k"
proof -
  have eq: "sb + sz - of_nat j = sb + of_nat (unat sz - j)" using assms by (simp add: of_nat_diff)
  have "region (sb + of_nat (unat sz - j)) 4 \<subseteq> region sb k"
    using assms unsigned_less [of sz, where 'a = nat] by (intro region_offset) auto
  then show ?thesis unfolding eq .
qed

lemma first_frame_outside:
  assumes "12 \<le> unat sz" "unat sz \<le> k" "x \<notin> region sb k"
  shows "store32 (store32 m (sb + sz - 4) f) (sb + sz - 8) d x = m x"
proof -
  have "region (sb + sz - 4) 4 \<subseteq> region sb k" "region (sb + sz - 8) 4 \<subseteq> region sb k"
    using top_region [of 4 sz k sb] top_region [of 8 sz k sb] assms by simp_all
  then have "x \<notin> region (sb + sz - 4) 4" "x \<notin> region (sb + sz - 8) 4" using assms(3) by auto
  then show ?thesis by (simp add: store32_outside)
qed

lemma create_stack_ok:
  assumes ok: "heap_ok h L" and pages: "pages_left h 32"
    and call: "create_stack h stack_base stack_size = Returns (h', flags, sb, sz)"
    and ext: "stack_base \<noteq> 0 \<Longrightarrow> L stack_base = Some n \<and> 12 \<le> unat stack_size \<and> unat stack_size \<le> n"
  shows "heap_ok h' (if stack_base = 0 then L(sb \<mapsto> 2 ^ 16) else L)" "bytes_kept L (mem h) (mem h')"
    "managed h' = managed h" "\<And>x. x \<notin> managed h \<Longrightarrow> mem h' x = mem h x"
    "if stack_base = 0 then L sb = None \<and> flags = 0 \<and> unat sz = 2 ^ 16
     else sb = stack_base \<and> flags = THREAD_EXTSTACK \<and> sz = stack_size \<and> h' = h"
proof -
  have size: "unat THREAD_STACKSIZE = 2 ^ 16" by (simp add: THREAD_STACKSIZE_def word_unat)
  have "heap_ok h' (if stack_base = 0 then L(sb \<mapsto> 2 ^ 16) else L) \<and> bytes_kept L (mem h) (mem h') \<and>
    managed h' = managed h \<and> (\<forall>x. x \<notin> managed h \<longrightarrow> mem h' x = mem h x) \<and>
    (if stack_base = 0 then L sb = None \<and> flags = 0 \<and> unat sz = 2 ^ 16
     else sb = stack_base \<and> flags = THREAD_EXTSTACK \<and> sz = stack_size \<and> h' = h)"
  proof (cases "stack_base = 0")
    case True
    then have x: "bmk_xmalloc h THREAD_STACKSIZE = Returns (h', sb)" "flags = 0" "sz = THREAD_STACKSIZE"
      using call by (auto simp: create_stack_def stackalloc_def bind_outcome_Returns split: if_splits)
    have "need_bytes THREAD_STACKSIZE 0 < 2 ^ 32" by (simp add: need_bytes_0 size)
    note xm = bmk_xmalloc_ok [OF ok x(1) pages _ this]
    then show ?thesis using x True stack_request_size [OF size] xm by (simp add: size)
  next
    case False
    then show ?thesis using call ok by (auto simp: create_stack_def bytes_kept_def)
  qed
  then show "heap_ok h' (if stack_base = 0 then L(sb \<mapsto> 2 ^ 16) else L)" "bytes_kept L (mem h) (mem h')"
    "managed h' = managed h" "\<And>x. x \<notin> managed h \<Longrightarrow> mem h' x = mem h x"
    "if stack_base = 0 then L sb = None \<and> flags = 0 \<and> unat sz = 2 ^ 16
     else sb = stack_base \<and> flags = THREAD_EXTSTACK \<and> sz = stack_size \<and> h' = h" by simp_all
qed

text \<open>The memory a new thread's caller may name it from: a short string that the creation leaves alone.\<close>

definition name_ok :: "heap \<Rightarrow> allocations \<Rightarrow> u32 \<Rightarrow> u32 \<Rightarrow> bool" where
  "name_ok h L stack_base name \<longleftrightarrow> (\<exists>xs. cstr (mem h) name xs \<and> length xs \<le> 15 \<and>
     (\<forall>x \<in> region name (Suc (length xs)). x \<notin> managed h \<or> (\<exists>p n. L p = Some n \<and> p \<noteq> stack_base \<and> x \<in> region p n)))"

text \<open>A stack the caller passes is a live allocation of its own, large enough for the first frame.\<close>

definition stack_arg_ok :: "symbols \<Rightarrow> allocations \<Rightarrow> 'a sched_scheme \<Rightarrow> u32 \<Rightarrow> u32 \<Rightarrow> bool" where
  "stack_arg_ok sy L st stack_base stack_size \<longleftrightarrow> stack_base = 0 \<or>
     stack_base \<notin> owned sy st \<and>
     (\<exists>n. L stack_base = Some n \<and> 12 \<le> unat stack_size \<and> unat stack_size \<le> n)"

text \<open>The allocations after a creation that returned \<open>t\<close>.\<close>

definition created :: "'a sched_scheme \<Rightarrow> u32 \<Rightarrow> u32 \<Rightarrow> allocations \<Rightarrow> allocations" where
  "created st' t stack_base L =
     (if stack_base = 0 then L(t \<mapsto> 60, bt_stackbase (thread st' t) \<mapsto> 2 ^ 16) else L(t \<mapsto> 60))"

lemma strncpy_name:
  assumes "cstr m name xs" "length xs \<le> 15" "t \<notin> region name (Suc (length xs))" "x \<notin> region t 16"
  shows "fst (bmk_strncpy m t name (NAME_MAXLEN - 1)) x = m x"
proof -
  have n: "unat (NAME_MAXLEN - 1) = 15" by (simp add: NAME_MAXLEN_def)
  have "length xs < unat (t - name)" using assms(3) by (simp add: region_def)
  then have "fst (bmk_strncpy m t name (NAME_MAXLEN - 1)) = write_bytes m t (xs @ replicate (16 - length xs) 0)"
    using strncpy_short [OF assms(1), of "NAME_MAXLEN - 1" t] assms(2) n by simp
  then show ?thesis using assms(2,4) by (simp add: write_bytes_outside)
qed

definition new_thread :: "symbols \<Rightarrow> u32 \<Rightarrow> u32 \<Rightarrow> u32 \<Rightarrow> bmk_thread" where
  "new_thread sy flags sb sp = zero_thread\<lparr>bt_flags := flags OR THREAD_RUNNABLE, bt_stackbase := sb,
     bt_tcb := \<lparr>btcb_sp = sp, btcb_ip = sym_bouncer sy\<rparr>, bt_wakeup_time := - 1\<rparr>"

lemma bmk_sched_create_eq:
  assumes "bmk_sched_create sy name cookie thrflags f data stack_base stack_size st = Returns (st', t)"
  obtains h1 h2 flags sb sz where
    "bmk_xmalloc (kheap st) sizeof_thread = Returns (h1, t)"
    "create_stack (h1\<lparr>mem := write_bytes (mem h1) t (replicate 60 0)\<rparr>) stack_base stack_size = Returns (h2, flags, sb, sz)"
    "st' = st\<lparr>kheap := h2\<lparr>mem := fst (bmk_strncpy (store32 (store32 (mem h2) (sb + sz - 4) f) (sb + sz - 8) data)
         t name (NAME_MAXLEN - 1))\<rparr>,
       thread := (thread st)(t := new_thread sy flags sb (sb + sz - 8)), threads := t # threads st\<rparr>"
proof -
  have set0: "fst (bmk_memset m t 0 sizeof_thread) = write_bytes m t (replicate 60 0)" for m t
    by (simp add: bmk_memset_def memset_loop_eq sizeof_thread_def)
  show thesis
    using assms that
    by (cases st) (auto simp: bmk_sched_create_def set0 bind_outcome_Returns bmk_cpu_sched_create_def stack_push_def
        upd_thread_def set_runnable_def new_thread_def zero_thread_def Let_def)
qed

lemma sched_inv_insert:
  assumes inv: "sched_inv sy L st" and ok: "heap_ok (kheap st') L'" and man: "managed (kheap st') = managed (kheap st)"
    and st': "threads st' = t # threads st" "zombies st' = zombies st" "thread st' = (thread st)(t := x)"
      "current_thread st' = current_thread st"
    and t: "L t = None" "L' t = Some 60" "t \<noteq> sym_init_thread sy"
    and sb: "bt_stackbase x \<noteq> t" "bt_stackbase x \<notin> owned sy st" "thread_alloc L' x t"
    and L': "\<And>p n. L p = Some n \<Longrightarrow> L' p = Some n"
    and frame: "region (btcb_sp (bt_tcb x) - 4) 4 \<subseteq> stack_area sy L' st' t"
  shows "sched_inv sy L' st'"
proof -
  have old: "u \<noteq> t" "bt_stackbase (thread st u) \<noteq> t" if "u \<in> heap_threads sy st" for u
    using sched_invD(6) [OF inv that] t(1) by (auto simp: thread_alloc_def)
  have ht: "heap_threads sy st' = insert t (heap_threads sy st)" using st' t(3) by (auto simp: heap_threads_def)
  have tn: "t \<notin> set (threads st)" "t \<notin> set (zombies st)" using old t(3) by (auto simp: heap_threads_def)
  have alloc: "thread_alloc L' (thread st' u) u" if "u \<in> heap_threads sy st'" for u
    using that sched_invD(6) [OF inv] old L' sb(3) unfolding ht st'(3) by (fastforce simp: thread_alloc_def)
  have sbn: "bt_stackbase (thread st u) \<noteq> bt_stackbase x" if "u \<in> heap_threads sy st" for u
    using sb(2) that by (metis UnI2 imageI owned_def)
  have inj: "inj_on (\<lambda>u. bt_stackbase (thread st' u)) (heap_threads sy st')"
    using sched_invD(7) [OF inv] old sbn sbn [symmetric] unfolding ht st'(3) by (auto simp: inj_on_def owned_def)
  have sep: "bt_stackbase (thread st' u) \<notin> heap_threads sy st'" if "u \<in> heap_threads sy st'" for u
    using that sched_invD(8) [OF inv] old sb unfolding ht st'(3) by (auto simp: owned_def)
  have area: "stack_area sy L st u \<subseteq> stack_area sy L' st' u" if "u \<in> set (threads st)" for u
    using that tn L' unfolding stack_area_def st'(3) by (auto split: option.splits)
  have fr: "region (btcb_sp (bt_tcb (thread st' u)) - 4) 4 \<subseteq> stack_area sy L' st' u"
    if "u \<in> set (threads st')" "u \<noteq> current_thread st'" for u
  proof (cases "u = t")
    case False
    then have "region (btcb_sp (bt_tcb (thread st u)) - 4) 4 \<subseteq> stack_area sy L st u"
      using that st' sched_invD(11) [OF inv] by auto
    then show ?thesis using area that False st' by force
  qed (use frame st' in auto)
  show ?thesis
    unfolding sched_inv_def using ok man alloc inj sep fr sched_invD [OF inv] tn st' by auto
qed

lemma create_inserts:
  assumes inv: "sched_inv sy L st" and ok: "heap_ok (kheap st') L'" and man: "managed (kheap st') = managed (kheap st)"
    and st': "threads st' = t # threads st" "zombies st' = zombies st"
      "thread st' = (thread st)(t := new_thread sy flags sb (sb + sz - 8))" "current_thread st' = current_thread st"
    and sb: "sb \<notin> owned sy st" and t: "L t = None" "L' t = Some 60" and L': "\<And>p n. L p = Some n \<Longrightarrow> L' p = Some n"
    and ne: "sb \<noteq> t" and flags: "flags = 0 \<or> flags = THREAD_EXTSTACK"
    and k: "L' sb = Some k" "12 \<le> unat sz" "unat sz \<le> k" "flags = 0 \<longrightarrow> k = 2 ^ 16"
  shows "sched_inv sy L' st'"
proof (rule sched_inv_insert [OF inv ok man st' t])
  have "region t 60 \<subseteq> managed (kheap st)" using live_managed [OF ok t(2)] man by simp
  moreover have "t \<in> region t 60" by simp
  ultimately show init: "t \<noteq> sym_init_thread sy" using sched_invD(10) [OF inv] by blast
  show "bt_stackbase (new_thread sy flags sb (sb + sz - 8)) \<noteq> t"
    "bt_stackbase (new_thread sy flags sb (sb + sz - 8)) \<notin> owned sy st" using ne sb by (simp_all add: new_thread_def)
  show "thread_alloc L' (new_thread sy flags sb (sb + sz - 8)) t"
    using k(1,4) t(2) flags by (auto simp: thread_alloc_def new_thread_def thread_flags)
  show "region (btcb_sp (bt_tcb (new_thread sy flags sb (sb + sz - 8))) - 4) 4 \<subseteq> stack_area sy L' st' t"
    using top_region [of 12 sz k sb] k init by (simp add: new_thread_def stack_area_def st')
qed (rule L')

text \<open>
  The creation seen from the heap: \<open>t\<close> and, unless the caller passed one, a stack are allocated, and
  nothing is written but the new allocations and the stack.
\<close>

lemma create_allocates:
  assumes ok: "heap_ok h L" and pages: "pages_left h 33"
    and h1: "bmk_xmalloc h sizeof_thread = Returns (h1, t)"
    and h2: "create_stack (h1\<lparr>mem := write_bytes (mem h1) t (replicate 60 0)\<rparr>) stack_base stack_size =
      Returns (h2, flags, sb, sz)"
    and arg: "stack_base \<noteq> 0 \<Longrightarrow> L stack_base = Some n0 \<and> 12 \<le> unat stack_size \<and> unat stack_size \<le> n0"
  defines "L2 \<equiv> (if stack_base = 0 then L(t \<mapsto> 60, sb \<mapsto> 2 ^ 16) else L(t \<mapsto> 60))"
  shows "L t = None" "heap_ok h2 L2" "managed h2 = managed h" "sb \<noteq> t"
    "\<exists>k. L2 sb = Some k \<and> 12 \<le> unat sz \<and> unat sz \<le> k \<and> (flags = 0 \<longrightarrow> k = 2 ^ 16)"
    "if stack_base = 0 then L sb = None \<and> flags = 0 else sb = stack_base \<and> flags = THREAD_EXTSTACK"
    "\<And>x. x \<notin> managed h \<or> (\<exists>p n. L p = Some n \<and> x \<in> region p n) \<Longrightarrow> mem h2 x = mem h x \<and> x \<notin> region t 60"
proof -
  have sz60: "unat sizeof_thread = 60" by (simp add: sizeof_thread_def)
  then have one: "core_pages (bucket_for (need_bytes sizeof_thread 0)) = 1"
      "core_pages (bucket_for (need_bytes sizeof_thread 0)) \<le> 33" "need_bytes sizeof_thread 0 < 2 ^ 32"
    using one_page_request_size [of sizeof_thread] by (simp_all add: need_bytes_0)
  note x1 = bmk_xmalloc_ok [OF ok h1 pages one(2,3), unfolded one(1) sz60]
  define h1' where "h1' = h1\<lparr>mem := write_bytes (mem h1) t (replicate 60 0)\<rparr>"
  have w1: "mem h1' x = mem h1 x" if "x \<notin> region t 60" for x using that by (simp add: h1'_def write_bytes_outside)
  have ok1: "heap_ok h1' (L(t \<mapsto> 60))"
    unfolding h1'_def by (rule heap_ok_overwrite [OF x1(3), of _ 60]) (auto simp: write_bytes_outside)
  have man1: "managed h1' = managed h" using x1(5) by (simp add: h1'_def)
  have pg: "pages_left h1' 32" using x1(6) by (simp add: pages_left_def h1'_def)
  have ne: "stack_base \<noteq> 0 \<Longrightarrow> stack_base \<noteq> t" using x1(2) arg by auto
  then have ext: "stack_base \<noteq> 0 \<Longrightarrow> (L(t \<mapsto> 60)) stack_base = Some n0 \<and> 12 \<le> unat stack_size \<and> unat stack_size \<le> n0"
    using arg by auto
  note x2 = create_stack_ok [OF ok1 pg h2 [folded h1'_def] ext]
  show "L t = None" using x1(2) .
  show "heap_ok h2 L2" using x2(1) by (simp add: L2_def)
  show "managed h2 = managed h" using x2(3) man1 by simp
  show "sb \<noteq> t" "if stack_base = 0 then L sb = None \<and> flags = 0 else sb = stack_base \<and> flags = THREAD_EXTSTACK"
    using x2(5) ne by (auto split: if_splits)
  then show "\<exists>k. L2 sb = Some k \<and> 12 \<le> unat sz \<and> unat sz \<le> k \<and> (flags = 0 \<longrightarrow> k = 2 ^ 16)"
    using x2(5) ext by (auto simp: L2_def thread_flags split: if_splits)
  show "mem h2 x = mem h x \<and> x \<notin> region t 60" if "x \<notin> managed h \<or> (\<exists>p n. L p = Some n \<and> x \<in> region p n)" for x
    using that
  proof
    assume un: "x \<notin> managed h"
    have "region t 60 \<subseteq> managed h" using live_managed [OF ok1, of t 60] man1 by simp
    then have "x \<notin> region t 60" using un by blast
    then show ?thesis using un w1 x1(7) [of x] x2(4) [of x] man1 by simp
  next
    assume "\<exists>p n. L p = Some n \<and> x \<in> region p n"
    then obtain p n where p: "L p = Some n" "x \<in> region p n" by blast
    then have "p \<noteq> t" "x \<notin> region t 60" using x1(2) x1(8) [OF p(1)] by auto
    then show ?thesis
      using bytes_keptD [OF x1(4) p] bytes_keptD [OF x2(2) _ p(2)] p(1) w1 by simp
  qed
qed

lemma bmk_sched_create_ok:
  assumes inv: "sched_inv sy L st" and pages: "pages_left (kheap st) 33"
    and name: "name_ok (kheap st) L stack_base name" and arg: "stack_arg_ok sy L st stack_base stack_size"
    and call: "bmk_sched_create sy name cookie thrflags f data stack_base stack_size st = Returns (st', t)"
  shows "sched_inv sy (created st' t stack_base L) st' \<and> L t = None \<and>
    (\<forall>x. mem (kheap st') x \<noteq> mem (kheap st) x \<longrightarrow>
       x \<in> managed (kheap st) \<and> (\<forall>p n. L p = Some n \<and> p \<noteq> stack_base \<longrightarrow> x \<notin> region p n))"
proof -
  obtain h1 h2 flags sb sz where h: "bmk_xmalloc (kheap st) sizeof_thread = Returns (h1, t)"
      "create_stack (h1\<lparr>mem := write_bytes (mem h1) t (replicate 60 0)\<rparr>) stack_base stack_size = Returns (h2, flags, sb, sz)"
    and st': "st' = st\<lparr>kheap := h2\<lparr>mem := fst (bmk_strncpy (store32 (store32 (mem h2) (sb + sz - 4) f) (sb + sz - 8) data)
         t name (NAME_MAXLEN - 1))\<rparr>,
       thread := (thread st)(t := new_thread sy flags sb (sb + sz - 8)), threads := t # threads st\<rparr>"
    using bmk_sched_create_eq [OF call] .
  obtain n0 where "stack_base \<noteq> 0 \<Longrightarrow> L stack_base = Some n0 \<and> 12 \<le> unat stack_size \<and> unat stack_size \<le> n0"
    using arg by (auto simp: stack_arg_ok_def)
  note c = create_allocates [OF sched_invD(1) [OF inv] pages h this]
  define L2 where "L2 = (if stack_base = 0 then L(t \<mapsto> 60, sb \<mapsto> 2 ^ 16) else L(t \<mapsto> 60))"
  note c' = c(2,5) [folded L2_def]
  obtain k where k: "L2 sb = Some k" "12 \<le> unat sz" "unat sz \<le> k" "flags = 0 \<longrightarrow> k = 2 ^ 16" using c'(2) by blast
  have L2: "L2 t = Some 60" "\<And>p n. L p = Some n \<Longrightarrow> L2 p = Some n"
    using c(1,4,6) by (auto simp: L2_def split: if_splits)
  define m3 where "m3 = store32 (store32 (mem h2) (sb + sz - 4) f) (sb + sz - 8) data"
  define m4 where "m4 = fst (bmk_strncpy m3 t name (NAME_MAXLEN - 1))"
  have w3: "m3 x = mem h2 x" if "x \<notin> region sb k" for x
    unfolding m3_def using k(2,3) that by (rule first_frame_outside)
  have safe: "m3 x = mem (kheap st) x \<and> x \<notin> region t 60"
    if x: "x \<notin> managed (kheap st) \<or> (\<exists>p n. L p = Some n \<and> p \<noteq> stack_base \<and> x \<in> region p n)" for x
  proof -
    have "x \<notin> region sb k" using x
    proof
      assume "\<exists>p n. L p = Some n \<and> p \<noteq> stack_base \<and> x \<in> region p n"
      then obtain p n where p: "L p = Some n" "p \<noteq> stack_base" "x \<in> region p n" by blast
      then have "p \<noteq> sb" using c(6) by (auto split: if_splits)
      then show ?thesis using kmalloc.live_disjoint [OF c'(1) L2(2) [OF p(1)] k(1)] p(3) by blast
    qed (use live_managed [OF c'(1) k(1)] c(3) in blast)
    then show ?thesis using w3 c(7) [of x] x by auto
  qed
  obtain xs where xs: "cstr (mem (kheap st)) name xs" "length xs \<le> 15"
      "\<And>x. x \<in> region name (Suc (length xs)) \<Longrightarrow> m3 x = mem (kheap st) x \<and> x \<notin> region t 60"
    using name safe by (auto simp: name_ok_def)
  have "cstr m3 name xs" using xs cstr_cong [of name xs m3 "mem (kheap st)"] by simp
  moreover have "t \<notin> region name (Suc (length xs))" using xs(3) [of t] by auto
  ultimately have w4: "m4 x = m3 x" if "x \<notin> region t 60" for x
    using strncpy_name [of m3 name xs t x] xs(2) that region_mono [of 16 60 t] by (auto simp: m4_def)
  have "x \<in> region t 60 \<or> x \<in> region sb k" if "m4 x \<noteq> mem h2 x" for x
    using w3 [of x] w4 [of x] that by (cases "x \<in> region t 60") auto
  then have "\<exists>p n. L2 p = Some n \<and> x \<in> region p n" if "m4 x \<noteq> mem h2 x" for x using k(1) L2(1) that by metis
  then have "heap_ok (h2\<lparr>mem := m4\<rparr>) L2" by (intro heap_ok_frame [OF c'(1)] disjI2)
  moreover have kh: "kheap st' = h2\<lparr>mem := m4\<rparr>" using st' by (simp add: m4_def m3_def)
  ultimately have ok': "heap_ok (kheap st') L2" "managed (kheap st') = managed (kheap st)" using c(3) by simp_all
  have sbo: "sb \<notin> owned sy st"
    using c(6) arg sched_invD(6) [OF inv] by (fastforce simp: owned_def thread_alloc_def stack_arg_ok_def split: if_splits)
  have fl: "flags = 0 \<or> flags = THREAD_EXTSTACK" using c(6) by (auto split: if_splits)
  have "sched_inv sy L2 st'"
    by (rule create_inserts [OF inv ok' _ _ _ _ sbo c(1) L2 c(4) fl k]) (simp_all add: st')
  moreover have "created st' t stack_base L = L2" by (simp add: created_def L2_def st' new_thread_def)
  moreover have "x \<in> managed (kheap st) \<and> (\<forall>p n. L p = Some n \<and> p \<noteq> stack_base \<longrightarrow> x \<notin> region p n)"
    if "m4 x \<noteq> mem (kheap st) x" for x
    using that safe [of x] w4 [of x] by (cases "x \<in> region t 60") auto
  ultimately show ?thesis using kh c(1) by simp
qed

end
