(* ===== verification/Intr.thy ===== *)
theory Intr
  imports Threadcreate
begin

text \<open>
  Interrupt delivery, \<^verbatim>\<open>intr.c\<close>: the low-level handler marks the line and wakes the interrupt
  thread, which runs the handlers of the marked lines. The handlers and the up-calls into the rump
  kernel are arguments.
\<close>

section \<open>State and operations\<close>

record intrhand =
  ih_fun :: u32
  ih_arg :: u32

definition sizeof_intrhand :: u32 where "sizeof_intrhand = 12"

text \<open>The static variables of \<^verbatim>\<open>intr.c\<close>; the handlers are a store, each line has the list of its handlers.\<close>

record intr = sched +
  isr_ih :: "int \<Rightarrow> u32 list"
  isr_todo :: u32
  isr_thread :: u32
  intrhands :: "u32 \<Rightarrow> intrhand"

definition bmk_isr_clock :: "'a intr_scheme \<Rightarrow> 'a intr_scheme" where
  "bmk_isr_clock st = st"

definition bmk_isr :: "nat \<Rightarrow> 'a intr_scheme \<Rightarrow> 'a intr_scheme" where
  "bmk_isr which st =
     (let st = st\<lparr>isr_todo := isr_todo st OR push_bit which 1\<rparr>
      in bmk_sched_wake (isr_thread st) st)"

text \<open>\<^verbatim>\<open>intr > sizeof(isr_todo)*8\<close> compares unsigned, \<^verbatim>\<open>intr > BMK_MAXINTR\<close> signed.\<close>

definition bmk_isr_netinit ::
  "symbols \<Rightarrow> u32 \<Rightarrow> u32 \<Rightarrow> int \<Rightarrow> 'a intr_scheme \<Rightarrow> ('a intr_scheme \<times> int) outcome" where
  "bmk_isr_netinit sy func arg intr st =
     (if intr mod 2 ^ 32 > 4 * 8 \<or> intr > BMK_MAXINTR then Returns (st, EGENERIC)
      else
        bind_outcome (bmk_xmalloc (kheap st) sizeof_intrhand) (\<lambda>(h, ih).
          if ih = 0 then Returns (st\<lparr>kheap := h\<rparr>, ENOMEM)
          else
            (case bmk_cpu_intr_init sy intr (kcpu st) of
               (c, error) \<Rightarrow>
                 if error \<noteq> 0 then
                   bind_outcome (bmk_memfree h ih) (\<lambda>h. Returns (st\<lparr>kheap := h, kcpu := c\<rparr>, error))
                 else
                   Returns (st\<lparr>kheap := h, kcpu := c,
                     intrhands := (intrhands st)(ih := \<lparr>ih_fun = func, ih_arg = arg\<rparr>),
                     isr_ih := (isr_ih st)(intr := ih # isr_ih st intr)\<rparr>, 0))))"

definition bmk_isr_init :: "symbols \<Rightarrow> 'a intr_scheme \<Rightarrow> ('a intr_scheme \<times> int) outcome" where
  "bmk_isr_init sy st =
     (let st = fold (\<lambda>i st. st\<lparr>isr_ih := (isr_ih st)(int i := [])\<rparr>) [0..<nat BMK_MAXINTR] st
      in bind_outcome (bmk_sched_create sy (sym_str_netisr sy) 0 0 (sym_isr sy) 0 0 0 st)
           (\<lambda>(st, t). let st = st\<lparr>isr_thread := t\<rparr>
                      in Returns (st, if isr_thread st = 0 then EGENERIC else 0)))"

section \<open>The interrupt thread\<close>

text \<open>
  \<open>call f arg\<close> is the effect and result of the handler function at \<open>f\<close>, \<open>hyp_schedule\<close> and
  \<open>hyp_unschedule\<close> are the up-calls of \<^verbatim>\<open>rumpuser__hyp\<close>.
\<close>

type_synonym 'st handler_fun = "u32 \<Rightarrow> u32 \<Rightarrow> 'st \<Rightarrow> 'st \<times> int"

fun isr_handlers ::
  "'a intr_scheme handler_fun \<Rightarrow> u32 list \<Rightarrow> 'a intr_scheme \<Rightarrow> int \<Rightarrow> 'a intr_scheme \<times> int" where
  "isr_handlers call [] st rv = (st, rv)"
| "isr_handlers call (ih # ihs) st rv =
     (case call (ih_fun (intrhands st ih)) (ih_arg (intrhands st ih)) st of
        (st, rv) \<Rightarrow> if rv \<noteq> 0 then (st, rv) else isr_handlers call ihs st rv)"

definition isr_line ::
  "'a intr_scheme handler_fun \<Rightarrow> ('a intr_scheme \<Rightarrow> 'a intr_scheme) \<Rightarrow> ('a intr_scheme \<Rightarrow> 'a intr_scheme) \<Rightarrow>
   u32 \<Rightarrow> nat \<Rightarrow> 'a intr_scheme \<times> int \<Rightarrow> 'a intr_scheme \<times> int" where
  "isr_line call hyp_schedule hyp_unschedule isrcopy i = (\<lambda>(st, rv).
     if \<not> bit isrcopy i then (st, rv)
     else
       (let st = hyp_schedule st
        in case isr_handlers call (isr_ih st (int i)) st rv of (st, rv) \<Rightarrow> (hyp_unschedule st, rv)))"

definition isr_ack :: "cpu \<Rightarrow> cpu" where
  "isr_ack c = outb 0x20 0x20 (outb 0xa0 0x20 c)"

definition cons_puts_literal :: "string \<Rightarrow> cons \<Rightarrow> cons" where
  "cons_puts_literal s = fold (\<lambda>c. bmk_cons_putc (of_nat (of_char c))) s"

datatype isr_state = IsrAgain | IsrBlocked

text \<open>One pass of the endless loop of \<^verbatim>\<open>isr\<close>, up to its call of \<^verbatim>\<open>bmk_sched\<close> when it blocks.\<close>

definition isr_pass ::
  "'a intr_scheme handler_fun \<Rightarrow> ('a intr_scheme \<Rightarrow> 'a intr_scheme) \<Rightarrow> ('a intr_scheme \<Rightarrow> 'a intr_scheme) \<Rightarrow>
   'a intr_scheme \<Rightarrow> ('a intr_scheme \<times> isr_state) outcome" where
  "isr_pass call hyp_schedule hyp_unschedule st =
     (let st = st\<lparr>kcpu := splhigh (kcpu st)\<rparr>
      in if isr_todo st \<noteq> 0 then
           (let isrcopy = isr_todo st;
                st = st\<lparr>isr_todo := 0\<rparr>
            in bind_outcome (spl0 (kcpu st)) (\<lambda>c.
                 (case fold (isr_line call hyp_schedule hyp_unschedule isrcopy) [0..<32] (st\<lparr>kcpu := c\<rparr>, 0) of
                    (st, rv) \<Rightarrow>
                      (let st = st\<lparr>kcpu := isr_ack (kcpu st)\<rparr>;
                           st = (if rv = 0 then st\<lparr>kcons := cons_puts_literal (''stray interrupt'' @ [CHR 0x0A]) (kcons st)\<rparr>
                                 else st)
                       in Returns (st, IsrAgain)))))
         else
           (let st = bmk_sched_block (isr_thread st) st
            in bind_outcome (spl0 (kcpu st)) (\<lambda>c. Returns (st\<lparr>kcpu := c\<rparr>, IsrBlocked))))"

section \<open>Properties\<close>

lemma intr_upd_thread [simp]:
  "isr_todo (upd_thread t f st) = isr_todo st" "isr_thread (upd_thread t f st) = isr_thread st"
  "isr_ih (upd_thread t f st) = isr_ih st" "intrhands (upd_thread t f st) = intrhands st"
  by (simp_all add: upd_thread_def)

lemma is_runnable_ops:
  "is_runnable (bmk_sched_wake t st) u \<longleftrightarrow> u = t \<or> is_runnable st u"
  "is_runnable (bmk_sched_block t st) u \<longleftrightarrow> u \<noteq> t \<and> is_runnable st u"
proof -
  have "(f OR THREAD_RUNNABLE) AND THREAD_RUNNABLE = THREAD_RUNNABLE"
    "(f AND NOT THREAD_RUNNABLE) AND THREAD_RUNNABLE = 0" for f
    by (simp_all add: bit.conj_disj_distrib2 and.assoc)
  then show "is_runnable (bmk_sched_wake t st) u \<longleftrightarrow> u = t \<or> is_runnable st u"
    "is_runnable (bmk_sched_block t st) u \<longleftrightarrow> u \<noteq> t \<and> is_runnable st u"
    by (auto simp: is_runnable_def bmk_sched_wake_def bmk_sched_block_def set_runnable_def clear_runnable_def
        THREAD_RUNNABLE_def)
qed

text \<open>The lines that are marked, in the order the interrupt thread takes them.\<close>

definition pending_lines :: "u32 \<Rightarrow> nat list" where
  "pending_lines todo = filter (bit todo) [0..<32]"

definition serve_line ::
  "'a intr_scheme handler_fun \<Rightarrow> ('a intr_scheme \<Rightarrow> 'a intr_scheme) \<Rightarrow> ('a intr_scheme \<Rightarrow> 'a intr_scheme) \<Rightarrow>
   nat \<Rightarrow> 'a intr_scheme \<times> int \<Rightarrow> 'a intr_scheme \<times> int" where
  "serve_line call up down i = (\<lambda>(st, rv).
     case isr_handlers call (isr_ih (up st) (int i)) (up st) rv of (st, rv) \<Rightarrow> (down st, rv))"

lemma fold_isr_line:
  "fold (isr_line call up down todo) ls s = fold (serve_line call up down) (filter (bit todo) ls) s"
  by (induction ls arbitrary: s) (auto simp: isr_line_def serve_line_def Let_def split: prod.split)

lemma pending_lines_set: "set (pending_lines todo) = {i. bit todo i}"
  by (auto simp: pending_lines_def dest: bit_imp_le_length)

lemma pending_lines_sorted: "sorted (pending_lines todo)" "distinct (pending_lines todo)"
  using sorted_filter [of id "[0..<32]" "bit todo"] by (simp_all add: pending_lines_def)

lemma spl0_after_splhigh:
  assumes "0 \<le> bmk_spldepth c"
  shows "\<exists>c'. spl0 (splhigh c) = Returns c' \<and> bmk_spldepth c' = bmk_spldepth c \<and> iolog c' = iolog c \<and> idt c' = idt c"
  using assms by (auto simp: spl0_def splhigh_def Let_def)

lemma isr_pass_eq:
  assumes "isr_todo st \<noteq> 0" "spl0 (splhigh (kcpu st)) = Returns c"
    and "fold (serve_line call up down) (pending_lines (isr_todo st)) (st\<lparr>isr_todo := 0, kcpu := c\<rparr>, 0) = (st1, rv)"
  shows "isr_pass call up down st = Returns (let st2 = st1\<lparr>kcpu := isr_ack (kcpu st1)\<rparr> in
    if rv = 0 then st2\<lparr>kcons := cons_puts_literal (''stray interrupt'' @ [CHR 0x0A]) (kcons st2)\<rparr> else st2, IsrAgain)"
proof -
  have eq: "st\<lparr>kcpu := c, isr_todo := 0\<rparr> = st\<lparr>isr_todo := 0, kcpu := c\<rparr>" by (cases st) simp
  show ?thesis
    using assms by (simp add: isr_pass_def Let_def fold_isr_line pending_lines_def [symmetric] eq)
qed

text \<open>
  (C20) A pass of the interrupt thread serves exactly the lines that are marked when it starts, each
  once and in increasing order, unmarks them before it does, so that a line raised during the pass
  stays marked for the next, and never sleeps while a line is marked.
\<close>

theorem isr_pass_serves_pending:
  assumes "isr_todo st \<noteq> 0" "0 \<le> bmk_spldepth (kcpu st)"
  shows "set (pending_lines (isr_todo st)) = {i. bit (isr_todo st) i} \<and> sorted (pending_lines (isr_todo st)) \<and>
    distinct (pending_lines (isr_todo st)) \<and>
    (\<exists>c st1 rv st'. bmk_spldepth c = bmk_spldepth (kcpu st) \<and>
       fold (serve_line call up down) (pending_lines (isr_todo st)) (st\<lparr>isr_todo := 0, kcpu := c\<rparr>, 0) = (st1, rv) \<and>
       isr_pass call up down st = Returns (st', IsrAgain) \<and> isr_todo st' = isr_todo st1 \<and>
       iolog (kcpu st') = iolog (kcpu st1) @ [Outb 0xa0 0x20, Outb 0x20 0x20])"
proof -
  obtain c where c: "spl0 (splhigh (kcpu st)) = Returns c" "bmk_spldepth c = bmk_spldepth (kcpu st)"
    using spl0_after_splhigh [OF assms(2)] by blast
  obtain st1 rv where f: "fold (serve_line call up down) (pending_lines (isr_todo st)) (st\<lparr>isr_todo := 0, kcpu := c\<rparr>, 0) = (st1, rv)"
    by fastforce
  have "\<exists>st'. isr_pass call up down st = Returns (st', IsrAgain) \<and> isr_todo st' = isr_todo st1 \<and>
      iolog (kcpu st') = iolog (kcpu st1) @ [Outb 0xa0 0x20, Outb 0x20 0x20]"
    using isr_pass_eq [OF assms(1) c(1) f] by (simp add: isr_ack_def Let_def)
  then show ?thesis using c f by (auto simp: pending_lines_set pending_lines_sorted)
qed

text \<open>A state to evaluate on: the sample heap, the boot processor and an empty console.\<close>

definition sample_intr :: intr where
  "sample_intr = \<lparr>kheap = sample_heap, kcpu = boot_cpu, kcons = \<lparr>cons_buf = (\<lambda>_. 0), cons_x = 0, cons_y = 0\<rparr>,
     kregs = sample_regs 0x12f000, thread = (\<lambda>_. zero_thread), zombies = [], threads = [], scheduler_hook = 0,
     current_thread = 0, joinwq = [], isr_ih = (\<lambda>_. []), isr_todo = 0, isr_thread = 0x300000,
     intrhands = (\<lambda>_. \<lparr>ih_fun = 0, ih_arg = 0\<rparr>)\<rparr>"

theorem isr_pass_serves_pending_witness:
  "\<exists>st'. isr_pass (\<lambda>f a st. (st, 1)) id id (bmk_isr 11 sample_intr) = Returns (st', IsrAgain) \<and>
     set (pending_lines (isr_todo (bmk_isr 11 sample_intr))) = {11}"
proof -
  have todo: "isr_todo (bmk_isr 11 sample_intr) = push_bit 11 1"
    by (simp add: bmk_isr_def sample_intr_def bmk_sched_wake_def set_runnable_def)
  have "bit (push_bit 11 1 :: u32) i \<longleftrightarrow> i = 11" for i by (subst bit_push_bit_iff) (auto simp: bit_1_iff)
  then have "{i. bit (push_bit 11 1 :: u32) i} = {11}" by blast
  moreover have "(push_bit 11 1 :: u32) \<noteq> 0" by simp
  moreover have "0 \<le> bmk_spldepth (kcpu (bmk_isr 11 sample_intr))"
    by (simp add: bmk_isr_def sample_intr_def bmk_sched_wake_def set_runnable_def boot_cpu_def)
  ultimately show ?thesis
    using isr_pass_serves_pending [of "bmk_isr 11 sample_intr" "\<lambda>f a st. (st, 1)" id id] by (metis todo)
qed

text \<open>
  The interrupt side as a transition system: an interrupt arrives, the interrupt thread makes a
  pass, or the kernel wakes or blocks some other thread.
\<close>

definition isr_inv :: "'a intr_scheme \<Rightarrow> bool" where
  "isr_inv st \<longleftrightarrow> (isr_todo st \<noteq> 0 \<longrightarrow> is_runnable st (isr_thread st))"

inductive isr_run ::
  "'a intr_scheme handler_fun \<Rightarrow> ('a intr_scheme \<Rightarrow> 'a intr_scheme) \<Rightarrow> ('a intr_scheme \<Rightarrow> 'a intr_scheme) \<Rightarrow>
   'a intr_scheme \<Rightarrow> 'a intr_scheme \<Rightarrow> bool" for call up down where
  isr_refl: "isr_run call up down st st"
| isr_irq: "isr_run call up down st st' \<Longrightarrow> isr_run call up down st (bmk_isr which st')"
| isr_passes: "isr_run call up down st st' \<Longrightarrow> isr_pass call up down st' = Returns (st'', r) \<Longrightarrow>
    isr_run call up down st st''"
| isr_wakes: "isr_run call up down st st' \<Longrightarrow> isr_run call up down st (bmk_sched_wake t st')"
| isr_blocks: "isr_run call up down st st' \<Longrightarrow> t \<noteq> isr_thread st' \<Longrightarrow> isr_run call up down st (bmk_sched_block t st')"

lemma isr_fields [simp]:
  "isr_todo (bmk_sched_wake t st) = isr_todo st" "isr_thread (bmk_sched_wake t st) = isr_thread st"
  "isr_todo (bmk_sched_block t st) = isr_todo st" "isr_thread (bmk_sched_block t st) = isr_thread st"
  by (simp_all add: bmk_sched_wake_def bmk_sched_block_def set_runnable_def clear_runnable_def)

lemma isr_inv_other: "isr_inv (st\<lparr>kcpu := c\<rparr>) = isr_inv st" "isr_inv (st\<lparr>kcons := k\<rparr>) = isr_inv st"
  by (simp_all add: isr_inv_def is_runnable_def)

lemma isr_inv_serve:
  assumes call: "\<And>f a st. isr_inv st \<Longrightarrow> isr_inv (fst (call f a st))"
    and up: "\<And>st. isr_inv st \<Longrightarrow> isr_inv (up st)" and down: "\<And>st. isr_inv st \<Longrightarrow> isr_inv (down st)"
    and inv: "isr_inv (fst s)"
  shows "isr_inv (fst (fold (serve_line call up down) ls s))"
proof -
  have h: "isr_inv (fst (isr_handlers call ihs st rv))" if "isr_inv st" for ihs st rv
    using that
  proof (induction ihs arbitrary: st rv)
    case (Cons ih ihs)
    then show ?case
      using call [of st "ih_fun (intrhands st ih)" "ih_arg (intrhands st ih)"] by (auto split: prod.split)
  qed simp
  have "isr_inv (fst (serve_line call up down i s))" if "isr_inv (fst s)" for i s
    using h [OF up [OF that]] down by (auto simp: serve_line_def split: prod.split) (metis fst_conv)
  with inv show ?thesis by (induction ls arbitrary: s) auto
qed

lemma isr_inv_pass:
  assumes "\<And>f a st. isr_inv st \<Longrightarrow> isr_inv (fst (call f a st))"
    and "\<And>st. isr_inv st \<Longrightarrow> isr_inv (up st)" "\<And>st. isr_inv st \<Longrightarrow> isr_inv (down st)"
    and "isr_pass call up down st = Returns (st', r)"
  shows "isr_inv st'"
proof (cases "isr_todo st = 0")
  case True
  then show ?thesis
    using assms(4) by (auto simp: isr_pass_def Let_def bind_outcome_Returns isr_inv_def)
next
  case False
  then obtain c where c: "spl0 (splhigh (kcpu st)) = Returns c"
    using assms(4) by (auto simp: isr_pass_def Let_def bind_outcome_Returns)
  obtain st1 rv where f: "fold (serve_line call up down) (pending_lines (isr_todo st)) (st\<lparr>isr_todo := 0, kcpu := c\<rparr>, 0) = (st1, rv)"
    by fastforce
  have "isr_inv (fst (fold (serve_line call up down) (pending_lines (isr_todo st)) (st\<lparr>isr_todo := 0, kcpu := c\<rparr>, 0)))"
    by (rule isr_inv_serve [OF assms(1-3)]) (simp_all add: isr_inv_def)
  then have "isr_inv st1" by (simp add: f)
  then show ?thesis using isr_pass_eq [OF False c f] assms(4) by (simp add: isr_inv_other Let_def split: if_splits)
qed



lemma isr_netinit_cases:
  assumes ok: "heap_ok (kheap st) L" and pages: "pages_left (kheap st) 1"
    and room: "4096 * (unat (current (kheap st)) + 1) \<le> unat (bmk_memsize (kheap st))"
  shows "\<exists>st' e. bmk_isr_netinit sy func arg intr st = Returns (st', e) \<and>
    (if intr = 10 \<or> intr = 11 then
       e = 0 \<and> (\<exists>ih. isr_ih st' = (isr_ih st)(intr := ih # isr_ih st intr) \<and> L ih = None \<and>
         intrhands st' ih = \<lparr>ih_fun = func, ih_arg = arg\<rparr> \<and> heap_ok (kheap st') (L(ih \<mapsto> 12))) \<and>
       gate_serves (if intr = 10 then sym_isr_10 sy else sym_isr_11 sy) (idt (kcpu st') (32 + nat intr))
     else e = EGENERIC \<and> isr_ih st' = isr_ih st \<and> heap_ok (kheap st') L \<and> kcpu st' = kcpu st)"
proof (cases "intr mod 2 ^ 32 > 4 * 8 \<or> intr > BMK_MAXINTR")
  case True
  then have "intr \<noteq> 10" "intr \<noteq> 11" by (auto simp: BMK_MAXINTR_def)
  then show ?thesis using True ok by (simp add: bmk_isr_netinit_def)
next
  case False
  have n: "unat sizeof_intrhand = 12" by (simp add: sizeof_intrhand_def)
  then have one: "core_pages (bucket_for (need_bytes sizeof_intrhand 0)) \<le> 1" "need_bytes sizeof_intrhand 0 < 2 ^ 32"
    "need_bytes sizeof_intrhand 0 \<le> 2 ^ 31"
    using one_page_request_size [of sizeof_intrhand] by (simp_all add: need_bytes_0)
  obtain h ih where x: "bmk_xmalloc (kheap st) sizeof_intrhand = Returns (h, ih)"
    using bmk_xmalloc_returns [OF ok pages one(1,3) room] by blast
  note xm = bmk_xmalloc_ok [OF ok x pages one(1,2), unfolded n]
  obtain h' where h': "bmk_memfree h ih = Returns h'" "heap_ok h' ((L(ih \<mapsto> 12))(ih := None))"
    using kmalloc.free_live [OF xm(3), of ih 12] by auto
  have "(L(ih \<mapsto> 12))(ih := None) = L" using xm(2) by auto
  then show ?thesis
    using False x xm(1,2,3) h'
    by (auto simp: bmk_isr_netinit_def bmk_cpu_intr_init_def fillgate_serves errno_defs)
qed

text \<open>
  \<^verbatim>\<open>bmk_isr_netinit\<close> on every branch. Lines 10 and 11: with memory available the handler is
  put in front of the line's handlers and the line's gate is installed. Any other line is refused
  with \<^verbatim>\<open>EGENERIC\<close>, the allocations being those before the call.
\<close>

theorem bmk_isr_netinit_result:
  assumes ok: "heap_ok (kheap st) L" and pages: "pages_left (kheap st) 1"
    and room: "4096 * (unat (current (kheap st)) + 1) \<le> unat (bmk_memsize (kheap st))"
  shows "\<exists>st' e. bmk_isr_netinit sy func arg intr st = Returns (st', e) \<and>
    (if intr = 10 \<or> intr = 11 then
       e = 0 \<and> (\<exists>ih. isr_ih st' = (isr_ih st)(intr := ih # isr_ih st intr) \<and> L ih = None \<and>
         intrhands st' ih = \<lparr>ih_fun = func, ih_arg = arg\<rparr> \<and> heap_ok (kheap st') (L(ih \<mapsto> 12))) \<and>
       gate_serves (if intr = 10 then sym_isr_10 sy else sym_isr_11 sy) (idt (kcpu st') (32 + nat intr))
     else e = EGENERIC \<and> isr_ih st' = isr_ih st \<and> heap_ok (kheap st') L \<and> kcpu st' = kcpu st)"
  using assms by (rule isr_netinit_cases)

theorem bmk_isr_netinit_result_witness:
  "\<exists>st' e. bmk_isr_netinit sample_symbols 5 6 10 sample_intr = Returns (st', e) \<and> e = 0 \<and>
     gate_serves 0x100120 (idt (kcpu st') 42)"
proof -
  have "heap_ok (kheap sample_intr) Map.empty" "pages_left (kheap sample_intr) 1"
    "4096 * (unat (current (kheap sample_intr)) + 1) \<le> unat (bmk_memsize (kheap sample_intr))"
    using heap_start_ok [OF sample_heap_start]
    by (simp_all add: sample_intr_def pages_left_def sample_heap_def)
  from bmk_isr_netinit_result [OF this, where intr = 10 and sy = sample_symbols] show ?thesis
    by (fastforce simp: sample_symbols_def)
qed

end
