(* ===== verification/Sched.thy ===== *)
theory Sched
  imports Intr
begin

text \<open>
  The scheduler proper, \<^verbatim>\<open>bmk_sched\<close> of \<^verbatim>\<open>sched.c\<close>, and the system of threads as a transition
  system: memory safety of the threads and stacks, isolation of suspended threads, round-robin
  order and progress.
\<close>

section \<open>Choosing the next thread\<close>

text \<open>
  One pass over the thread queue at clock reading \<open>tm\<close>: a sleeper whose time has come is woken and
  marked, and the first runnable thread goes to the end of the queue. (\<^verbatim>\<open>wakeup\<close> is computed but
  never used.) Times are signed.
\<close>

definition sched_wake_due :: "u64 \<Rightarrow> u32 \<Rightarrow> 'a sched_scheme \<Rightarrow> 'a sched_scheme" where
  "sched_wake_due tm t st =
     (if \<not> is_runnable st t \<and> 0 <=s bt_wakeup_time (thread st t) \<and> bt_wakeup_time (thread st t) <=s tm then
        bmk_sched_wake t (upd_thread t (\<lambda>x. x\<lparr>bt_flags := bt_flags x OR THREAD_TIMEDOUT\<rparr>) st)
      else st)"

fun sched_scan :: "u64 \<Rightarrow> u32 list \<Rightarrow> 'a sched_scheme \<Rightarrow> 'a sched_scheme \<times> u32 option" where
  "sched_scan tm [] st = (st, None)"
| "sched_scan tm (t # ts) st =
     (let st = sched_wake_due tm t st
      in if is_runnable st t then (st\<lparr>threads := remove1 t (threads st) @ [t]\<rparr>, Some t)
         else sched_scan tm ts st)"

text \<open>
  The loop around it. What the world does is an argument: for each round the clock reading and the
  interrupts that end the halt should the round find nothing to run. \<open>None\<close> is a scheduler that
  is still idle after the given rounds. The result also has the rounds that are left.
\<close>

type_synonym round = "u64 \<times> nat list"

definition sched_halt :: "nat list \<Rightarrow> 'a intr_scheme \<Rightarrow> 'a intr_scheme" where
  "sched_halt irqs st =
     (let st = st\<lparr>kcpu := nanohlt_begin (kcpu st)\<rparr>;
          st = fold bmk_isr irqs st
      in st\<lparr>kcpu := nanohlt_end (kcpu st)\<rparr>)"

fun sched_pick :: "round list \<Rightarrow> 'a intr_scheme \<Rightarrow> ('a intr_scheme \<times> u32 \<times> round list) option" where
  "sched_pick [] st = None"
| "sched_pick ((tm, irqs) # world) st =
     (case sched_scan tm (threads st) st of
        (st, Some next) \<Rightarrow> Some (st, next, world)
      | (st, None) \<Rightarrow> sched_pick world (sched_halt irqs st))"

text \<open>
  \<^verbatim>\<open>bmk_sched\<close> up to the point where the thread is switched out, and the rest, run when it is
  switched to again. A thread that picks itself goes straight on.
\<close>

definition bmk_sched_away :: "symbols \<Rightarrow> round list \<Rightarrow> 'a intr_scheme \<Rightarrow> 'a intr_scheme option" where
  "bmk_sched_away sy world st =
     (let prev = bmk_sched_current st
      in map_option (\<lambda>(st, next, _). if prev \<noteq> next then sched_switch sy prev next st else st) (sched_pick world st))"

definition bmk_sched_resume :: "u32 \<Rightarrow> 'a sched_scheme \<Rightarrow> 'a sched_scheme outcome" where
  "bmk_sched_resume prev st = sched_reaper prev st"

section \<open>The pick\<close>

definition due :: "u64 \<Rightarrow> 'a sched_scheme \<Rightarrow> u32 \<Rightarrow> bool" where
  "due tm st t \<longleftrightarrow> is_runnable st t \<or> 0 <=s bt_wakeup_time (thread st t) \<and> bt_wakeup_time (thread st t) <=s tm"

definition start_thread :: "u64 \<Rightarrow> u32 \<Rightarrow> 'a sched_scheme \<Rightarrow> 'a sched_scheme" where
  "start_thread tm t st = (sched_wake_due tm t st)\<lparr>threads := remove1 t (threads st) @ [t]\<rparr>"

lemma wake_due_simps [simp]:
  "threads (sched_wake_due tm t st) = threads st" "zombies (sched_wake_due tm t st) = zombies st"
  "current_thread (sched_wake_due tm t st) = current_thread st" "kheap (sched_wake_due tm t st) = kheap st"
  "kregs (sched_wake_due tm t st) = kregs st" "kcpu (sched_wake_due tm t st) = kcpu st"
  by (simp_all add: sched_wake_due_def bmk_sched_wake_def set_runnable_def)

lemma wake_due_runnable: "is_runnable (sched_wake_due tm t st) t \<longleftrightarrow> due tm st t"
  by (auto simp: sched_wake_due_def due_def is_runnable_ops)

text \<open>A pass picks the first thread that is runnable or due, and touches no other.\<close>

lemma sched_scan_eq:
  "sched_scan tm ts st = (case find (due tm st) ts of None \<Rightarrow> (st, None) | Some t \<Rightarrow> (start_thread tm t st, Some t))"
proof (induction ts)
  case (Cons t ts)
  show ?case
  proof (cases "due tm st t")
    case False
    then have "sched_wake_due tm t st = st" by (auto simp: sched_wake_due_def due_def)
    then show ?thesis using False Cons wake_due_runnable [of tm t st] by (simp add: Let_def)
  qed (simp add: Let_def wake_due_runnable start_thread_def)
qed simp

text \<open>What a halt and the interrupts in it can change: the interrupt thread becomes runnable.\<close>

lemma bmk_isr_simps [simp]:
  "threads (bmk_isr i st) = threads st" "zombies (bmk_isr i st) = zombies st"
  "current_thread (bmk_isr i st) = current_thread st" "kheap (bmk_isr i st) = kheap st"
  "kregs (bmk_isr i st) = kregs st" "isr_thread (bmk_isr i st) = isr_thread st"
  "thread (bmk_isr i st) = thread (bmk_sched_wake (isr_thread st) st)"
  by (simp_all add: bmk_isr_def Let_def bmk_sched_wake_def set_runnable_def)

lemma is_runnable_isr: "is_runnable (bmk_isr i st) t \<longleftrightarrow> t = isr_thread st \<or> is_runnable st t"
  by (simp add: bmk_isr_def Let_def is_runnable_ops) (simp add: is_runnable_def)

lemma wake_other: "u \<noteq> t \<Longrightarrow> thread (bmk_sched_wake t st) u = thread st u"
  by (simp add: bmk_sched_wake_def set_runnable_def)

lemma fold_isr_simps [simp]:
  "threads (fold bmk_isr irqs st) = threads st" "zombies (fold bmk_isr irqs st) = zombies st"
  "current_thread (fold bmk_isr irqs st) = current_thread st" "kheap (fold bmk_isr irqs st) = kheap st"
  "kregs (fold bmk_isr irqs st) = kregs st" "isr_thread (fold bmk_isr irqs st) = isr_thread st"
  by (induction irqs arbitrary: st) simp_all

lemma fold_isr_other: "t \<noteq> isr_thread st \<Longrightarrow> thread (fold bmk_isr irqs st) t = thread st t"
  by (induction irqs arbitrary: st) (simp_all add: wake_other)

lemma fold_isr_runnable: "is_runnable st t \<Longrightarrow> is_runnable (fold bmk_isr irqs st) t"
  by (induction irqs arbitrary: st) (simp_all add: is_runnable_isr)

lemma sched_halt_simps [simp]:
  "threads (sched_halt irqs st) = threads st" "zombies (sched_halt irqs st) = zombies st"
  "current_thread (sched_halt irqs st) = current_thread st" "kheap (sched_halt irqs st) = kheap st"
  "kregs (sched_halt irqs st) = kregs st" "isr_thread (sched_halt irqs st) = isr_thread st"
  "t \<noteq> isr_thread st \<Longrightarrow> thread (sched_halt irqs st) t = thread st t"
  by (simp_all add: sched_halt_def Let_def fold_isr_other)

lemma sched_halt_runnable: "is_runnable st t \<Longrightarrow> is_runnable (sched_halt irqs st) t"
  using fold_isr_runnable [of "st\<lparr>kcpu := nanohlt_begin (kcpu st)\<rparr>" t irqs]
  by (simp add: sched_halt_def Let_def is_runnable_def)

lemma sched_halt_due: "due tm st t \<Longrightarrow> due tm (sched_halt irqs st) t"
proof (cases "t = isr_thread st \<and> irqs \<noteq> []")
  case True
  then obtain i js where irqs: "irqs = i # js" by (cases irqs) auto
  have "is_runnable (bmk_isr i (st\<lparr>kcpu := nanohlt_begin (kcpu st)\<rparr>)) t" using True by (simp add: is_runnable_isr)
  then have "is_runnable (fold bmk_isr irqs (st\<lparr>kcpu := nanohlt_begin (kcpu st)\<rparr>)) t"
    unfolding irqs by (simp only: fold_simps) (rule fold_isr_runnable)
  then show ?thesis by (simp add: due_def sched_halt_def Let_def is_runnable_def)
next
  case False
  assume d: "due tm st t"
  have "thread (sched_halt irqs st) t = thread st t" using False by (auto simp: sched_halt_def Let_def fold_isr_other)
  then show ?thesis using d by (simp add: due_def is_runnable_def)
qed

text \<open>The pick as one round after some idle ones.\<close>

definition idled :: "'a intr_scheme \<Rightarrow> 'a intr_scheme \<Rightarrow> bool" where
  "idled st st' \<longleftrightarrow> threads st' = threads st \<and> zombies st' = zombies st \<and> kheap st' = kheap st \<and> kregs st' = kregs st \<and>
     current_thread st' = current_thread st \<and> isr_thread st' = isr_thread st \<and>
     (\<forall>u. u \<noteq> isr_thread st \<longrightarrow> thread st' u = thread st u) \<and> (\<forall>u tm. due tm st u \<longrightarrow> due tm st' u) \<and>
     (\<forall>u. is_runnable st u \<longrightarrow> is_runnable st' u) \<and>
     (\<forall>u. bt_stackbase (thread st' u) = bt_stackbase (thread st u) \<and> bt_tcb (thread st' u) = bt_tcb (thread st u) \<and>
        bt_flags (thread st' u) AND THREAD_MUSTJOIN = bt_flags (thread st u) AND THREAD_MUSTJOIN) \<and>
     (\<forall>sy L. sched_inv sy L st \<longrightarrow> sched_inv sy L st')"

lemma idled_refl: "idled st st"
  by (simp add: idled_def)

lemma idled_trans: "idled st st' \<Longrightarrow> idled st' st'' \<Longrightarrow> idled st st''"
  by (simp add: idled_def)

lemma sched_inv_kcpu: "sched_inv sy L (st\<lparr>kcpu := c\<rparr>) \<longleftrightarrow> sched_inv sy L st"
  by (rule sched_inv_fields) simp_all

lemma sched_inv_isr: "sched_inv sy L st \<Longrightarrow> sched_inv sy L (bmk_isr i st)"
proof -
  assume "sched_inv sy L st"
  then have "sched_inv sy L (bmk_sched_wake (isr_thread st) st)" by (rule sched_inv_ops(1))
  then show ?thesis by (subst sched_inv_fields [where st = "bmk_sched_wake (isr_thread st) st"])
      (simp_all add: bmk_sched_wake_def set_runnable_def)
qed

lemma sched_inv_halt: "sched_inv sy L st \<Longrightarrow> sched_inv sy L (sched_halt irqs st)"
proof -
  have "sched_inv sy L st \<Longrightarrow> sched_inv sy L (fold bmk_isr irqs st)" for st :: "'a intr_scheme"
    by (induction irqs arbitrary: st) (simp_all add: sched_inv_isr)
  then show "sched_inv sy L st \<Longrightarrow> sched_inv sy L (sched_halt irqs st)"
    by (simp add: sched_halt_def Let_def sched_inv_kcpu)
qed

lemma wake_keeps:
  "bt_stackbase (thread (bmk_sched_wake t st) u) = bt_stackbase (thread st u)"
  "bt_tcb (thread (bmk_sched_wake t st) u) = bt_tcb (thread st u)"
  "bt_flags (thread (bmk_sched_wake t st) u) AND THREAD_MUSTJOIN = bt_flags (thread st u) AND THREAD_MUSTJOIN"
  by (simp_all add: bmk_sched_wake_def set_runnable_def thread_flags bit.conj_disj_distrib2)

lemma sched_halt_keeps:
  "bt_stackbase (thread (sched_halt irqs st) u) = bt_stackbase (thread st u)"
  "bt_tcb (thread (sched_halt irqs st) u) = bt_tcb (thread st u)"
  "bt_flags (thread (sched_halt irqs st) u) AND THREAD_MUSTJOIN = bt_flags (thread st u) AND THREAD_MUSTJOIN"
proof -
  have "bt_stackbase (thread (fold bmk_isr irqs st) u) = bt_stackbase (thread st u) \<and>
    bt_tcb (thread (fold bmk_isr irqs st) u) = bt_tcb (thread st u) \<and>
    bt_flags (thread (fold bmk_isr irqs st) u) AND THREAD_MUSTJOIN = bt_flags (thread st u) AND THREAD_MUSTJOIN" for st :: "'a intr_scheme"
    by (induction irqs arbitrary: st) (simp_all add: wake_keeps)
  then show "bt_stackbase (thread (sched_halt irqs st) u) = bt_stackbase (thread st u)"
    "bt_tcb (thread (sched_halt irqs st) u) = bt_tcb (thread st u)"
    "bt_flags (thread (sched_halt irqs st) u) AND THREAD_MUSTJOIN = bt_flags (thread st u) AND THREAD_MUSTJOIN" by (simp_all add: sched_halt_def Let_def)
qed

lemma idled_halt: "idled st (sched_halt irqs st)"
  by (simp add: idled_def sched_halt_due sched_halt_runnable sched_halt_keeps sched_inv_halt)

lemma sched_pick_Some:
  assumes "sched_pick world st = Some (st', t, rest)"
  shows "\<exists>st1 tm. idled st st1 \<and> find (due tm st1) (threads st) = Some t \<and> st' = start_thread tm t st1 \<and>
    tm \<in> fst ` set world"
  using assms
proof (induction world arbitrary: st)
  case (Cons r world)
  obtain tm irqs where r: "r = (tm, irqs)" by fastforce
  show ?case
  proof (cases "find (due tm st) (threads st)")
    case None
    then have "sched_pick world (sched_halt irqs st) = Some (st', t, rest)" using Cons.prems by (simp add: r sched_scan_eq)
    from Cons.IH [OF this] obtain st1 tm1 where p: "idled (sched_halt irqs st) st1" "st' = start_thread tm1 t st1"
        "find (due tm1 st1) (threads st) = Some t" "tm1 \<in> fst ` set world" by auto
    have "tm1 \<in> fst ` set (r # world)" using p(4) by simp
    then show ?thesis using idled_trans [OF idled_halt p(1)] p(2,3) by blast
  next
    case (Some u)
    then show ?thesis using Cons.prems idled_refl by (auto simp: r sched_scan_eq)
  qed
qed simp

text \<open>And it returns as soon as a round finds a thread.\<close>

lemma sched_pick_returns:
  assumes "t \<in> set (threads st)" "due tm st t" "tm \<in> fst ` set world"
  shows "sched_pick world st \<noteq> None"
  using assms
proof (induction world arbitrary: st)
  case (Cons r world)
  obtain tm' irqs where r: "r = (tm', irqs)" by fastforce
  show ?case
  proof (cases "find (due tm' st) (threads st)")
    case None
    then have "tm' \<noteq> tm" using Cons.prems by (auto simp: find_None_iff)
    then show ?thesis
      using Cons.IH [of "sched_halt irqs st"] Cons.prems None sched_halt_due [OF Cons.prems(2)] by (auto simp: r sched_scan_eq)
  qed (simp add: r sched_scan_eq)
qed simp

section \<open>Properties of the pick\<close>

lemma start_thread_simps [simp]:
  "threads (start_thread tm t st) = remove1 t (threads st) @ [t]" "zombies (start_thread tm t st) = zombies st"
  "current_thread (start_thread tm t st) = current_thread st" "kheap (start_thread tm t st) = kheap st"
  "kregs (start_thread tm t st) = kregs st" "isr_thread (start_thread tm t (st' :: 'a intr_scheme)) = isr_thread st'"
  "thread (start_thread tm t st) = thread (sched_wake_due tm t st)"
  by (simp_all add: start_thread_def) (simp add: sched_wake_due_def)

lemma start_thread_other: "u \<noteq> t \<Longrightarrow> thread (start_thread tm t st) u = thread st u"
  by (simp add: sched_wake_due_def bmk_sched_wake_def set_runnable_def)

lemma start_thread_runnable: "due tm st t \<Longrightarrow> is_runnable (start_thread tm t st) t"
  using wake_due_runnable [of tm t st] by (simp add: is_runnable_def)

lemma find_split:
  assumes "find P xs = Some x"
  obtains as bs where "xs = as @ x # bs" "P x" "\<forall>a \<in> set as. \<not> P a" "x \<notin> set as"
proof -
  obtain i where i: "i < length xs" "P (xs ! i)" "x = xs ! i" "\<forall>j < i. \<not> P (xs ! j)"
    using assms by (auto simp: find_Some_iff)
  have "\<forall>a \<in> set (take i xs). \<not> P a" using i by (auto simp: in_set_conv_nth)
  then show thesis using that [of "take i xs" "drop (Suc i) xs"] i id_take_nth_drop [OF i(1)] by auto
qed

text \<open>
  (C17) What \<^verbatim>\<open>bmk_sched\<close> picks: the thread is on the queue and runnable, it moves to the end of the
  queue, the threads that were queued before it are not runnable and keep their places, and no
  other thread (but the interrupt thread, when an interrupt arrived) is touched.
\<close>

theorem sched_pick_first_runnable:
  assumes "sched_pick world st = Some (st', t, rest)"
  shows "\<exists>as bs. threads st = as @ t # bs \<and> threads st' = as @ bs @ [t] \<and> is_runnable st' t \<and>
    (\<forall>a \<in> set as. \<not> is_runnable st' a) \<and> (\<forall>u. u \<noteq> t \<and> u \<noteq> isr_thread st \<longrightarrow> thread st' u = thread st u)"
proof -
  obtain st1 tm where p: "idled st st1" "find (due tm st1) (threads st) = Some t" "st' = start_thread tm t st1"
    using sched_pick_Some [OF assms] by blast
  obtain as bs where s: "threads st = as @ t # bs" "due tm st1 t" "\<forall>a \<in> set as. \<not> due tm st1 a" "t \<notin> set as"
    using find_split [OF p(2)] .
  have "\<not> is_runnable st' a" if "a \<in> set as" for a
  proof -
    have "a \<noteq> t" "\<not> is_runnable st1 a" using that s by (auto simp: due_def)
    then show ?thesis using start_thread_other [of a t tm st1] by (simp add: p(3) is_runnable_def)
  qed
  then show ?thesis
    using p s start_thread_runnable [OF s(2)] start_thread_other [of _ t tm st1]
    by (intro exI [of _ as] exI [of _ bs]) (auto simp: idled_def remove1_append)
qed

text \<open>
  \<^verbatim>\<open>bmk_sched\<close> returns from its idle loop: if some queued thread is runnable, or is asleep
  until a time the clock reaches in one of the given rounds, the loop ends within these rounds,
  whatever interrupts come in between.
\<close>

theorem sched_pick_progress:
  assumes "t \<in> set (threads st)" "(tm, irqs) \<in> set world"
    and "is_runnable st t \<or> 0 <=s bt_wakeup_time (thread st t) \<and> bt_wakeup_time (thread st t) <=s tm"
  shows "\<exists>st' next rest. sched_pick world st = Some (st', next, rest)"
proof -
  have "tm \<in> fst ` set world" using assms(2) by force
  then show ?thesis using sched_pick_returns [of t st tm world] assms(1,3) by (auto simp: due_def)
qed

text \<open>
  (C18) A sleeper is not woken early: when the thread that called \<^verbatim>\<open>bmk_sched_nanosleep\<close> at time
  \<open>now\<close> is picked and nothing else made it runnable, the clock has reached \<open>now + nsec\<close>, and the
  thread is marked as timed out. (The interrupt thread may be woken by an interrupt.)
\<close>

theorem nanosleep_not_early:
  assumes "sched_pick world (bmk_sched_nanosleep now nsec st) = Some (st', current_thread st, rest)"
    and "current_thread st \<noteq> isr_thread st"
  shows "\<exists>(tm, irqs) \<in> set world. now + nsec <=s tm \<and> 0 <=s now + nsec \<and>
    bt_flags (thread st' (current_thread st)) AND THREAD_TIMEDOUT \<noteq> 0 \<and>
    bt_wakeup_time (thread st' (current_thread st)) = - 1"
proof -
  let ?t = "current_thread st" and ?st = "bmk_sched_nanosleep now nsec st"
  obtain st1 tm where p: "idled ?st st1" "find (due tm st1) (threads ?st) = Some ?t" "st' = start_thread tm ?t st1"
      "tm \<in> fst ` set world" using sched_pick_Some [OF assms(1)] by blast
  have ns: "isr_thread ?st = isr_thread st" "bt_wakeup_time (thread ?st ?t) = now + nsec" "\<not> is_runnable ?st ?t"
    by (simp_all add: bmk_sched_nanosleep_def Let_def bmk_sched_current_def clear_runnable_def is_runnable_def and.assoc)
  have same: "thread st1 ?t = thread ?st ?t" using p(1) assms(2) ns(1) by (simp add: idled_def)
  have "due tm st1 ?t" using p(2) by (auto elim: find_split)
  then have w: "0 <=s now + nsec" "now + nsec <=s tm" "\<not> is_runnable st1 ?t"
    using same ns by (auto simp: due_def is_runnable_def)
  then have "bt_flags (thread st' ?t) AND THREAD_TIMEDOUT \<noteq> 0 \<and> bt_wakeup_time (thread st' ?t) = - 1"
    using ns(2) same
    by (simp add: p(3) sched_wake_due_def bmk_sched_wake_def set_runnable_def bit.conj_disj_distrib2 thread_flags)
  then show ?thesis using w p(4) by force
qed

text \<open>The place of a thread in the queue.\<close>

definition place :: "'a sched_scheme \<Rightarrow> u32 \<Rightarrow> nat" where
  "place st t = length (takeWhile (\<lambda>u. u \<noteq> t) (threads st))"

lemma pick_advances:
  assumes "sched_pick world st = Some (st', u, rest)" "t \<in> set (threads st)" "is_runnable st t" "u \<noteq> t"
  shows "t \<in> set (threads st') \<and> place st t = Suc (place st' t)"
proof -
  obtain st1 tm where p: "idled st st1" "find (due tm st1) (threads st) = Some u" "st' = start_thread tm u st1"
    using sched_pick_Some [OF assms(1)] by blast
  obtain as bs where s: "threads st = as @ u # bs" "\<forall>a \<in> set as. \<not> due tm st1 a" "u \<notin> set as"
    using find_split [OF p(2)] by metis
  have "due tm st1 t" using assms(3) p(1) by (auto simp: idled_def due_def)
  then have t: "t \<notin> set as" "t \<in> set bs" using s assms(2,4) by auto
  have "threads st' = as @ bs @ [u]" using p s by (simp add: idled_def remove1_append)
  moreover have "takeWhile (\<lambda>x. x \<noteq> t) (as @ xs) = as @ takeWhile (\<lambda>x. x \<noteq> t) xs" for xs
    using t(1) by (intro takeWhile_append2) auto
  moreover have "takeWhile (\<lambda>x. x \<noteq> t) (bs @ [u]) = takeWhile (\<lambda>x. x \<noteq> t) bs"
    using t(2) by (rule takeWhile_append1) simp
  ultimately show ?thesis using s(1) t assms(4) by (simp add: place_def)
qed

text \<open>
  (C10) Round robin: in a sequence of picks between which no thread is created or exits, a thread
  that stays runnable is picked after at most as many picks as there are threads before it in the
  queue. (A new thread is put in front of the queue, so creations push it back.)
\<close>

theorem no_starvation:
  assumes pick: "\<And>n. \<exists>world rest. sched_pick world (s n) = Some (s' n, u n, rest)"
    and queue: "\<And>n. threads (s (Suc n)) = threads (s' n)" and run: "\<And>n. is_runnable (s n) t"
    and t: "t \<in> set (threads (s 0))"
  shows "\<exists>k \<le> place (s 0) t. u k = t"
proof (rule ccontr)
  assume no: "\<not> ?thesis"
  have "t \<in> set (threads (s n)) \<and> place (s n) t + n = place (s 0) t" if "n \<le> Suc (place (s 0) t)" for n
    using that
  proof (induction n)
    case (Suc n)
    obtain world rest where "sched_pick world (s n) = Some (s' n, u n, rest)" using pick by blast
    moreover have "u n \<noteq> t" using no Suc.prems by auto
    ultimately have "t \<in> set (threads (s' n))" "place (s n) t = Suc (place (s' n) t)"
      using pick_advances [of world "s n" "s' n" "u n" rest t] run Suc by auto
    then show ?case using Suc queue [of n] by (simp add: place_def)
  qed (use t in simp)
  from this [of "Suc (place (s 0) t)"] show False by simp
qed

section \<open>The switch and the invariant\<close>

lemma sched_inv_start:
  assumes inv: "sched_inv sy L st" and t: "t \<in> set (threads st)"
  shows "sched_inv sy L (start_thread tm t st)"
proof -
  have i1: "sched_inv sy L (sched_wake_due tm t st)"
    using inv by (auto simp: sched_wake_due_def intro!: sched_inv_ops(1) sched_inv_upd)
  let ?st = "(sched_wake_due tm t st)\<lparr>threads := remove1 t (threads st) @ [t]\<rparr>"
  have s: "set (threads ?st) = set (threads st)" using t sched_invD(2) [OF inv] by auto
  show ?thesis
    unfolding start_thread_def
  proof (rule sched_inv_change [OF i1])
    show "region (btcb_sp (bt_tcb (thread ?st u)) - 4) 4 \<subseteq> stack_area sy L (sched_wake_due tm t st) u"
      if "u \<in> set (threads ?st)" "u \<noteq> current_thread ?st" for u
      using sched_invD(11) [OF i1, of u] that(2) that(1) [unfolded s] by simp
    show "heap_threads sy ?st \<subseteq> heap_threads sy (sched_wake_due tm t st)" using s by (simp add: heap_threads_def)
  qed (use sched_invD(1-5) [OF inv] t in auto)
qed

lemma start_keeps:
  "bt_stackbase (thread (start_thread tm t st) u) = bt_stackbase (thread st u)"
  "bt_tcb (thread (start_thread tm t st) u) = bt_tcb (thread st u)"
  "bt_flags (thread (start_thread tm t st) u) AND THREAD_MUSTJOIN = bt_flags (thread st u) AND THREAD_MUSTJOIN"
  by (simp_all add: sched_wake_due_def wake_keeps) (simp add: thread_flags bit.conj_disj_distrib2)

lemma stack_area_cong:
  "bt_stackbase (thread st' t) = bt_stackbase (thread st t) \<Longrightarrow> stack_area sy L st' t = stack_area sy L st t"
  by (simp add: stack_area_def split: option.split)

text \<open>
  A call of \<^verbatim>\<open>bmk_sched\<close> by a thread with room on its stack: the invariant is kept, the new current
  thread is a queued one, and nothing of a thread that neither loses nor gains the processor
  changes, its stack included.
\<close>

lemma bmk_sched_away_ok:
  assumes inv: "sched_inv sy L st" and room: "stack_room sy L st" and call: "bmk_sched_away sy world st = Some st'"
  shows "sched_inv sy L st' \<and> current_thread st' \<in> set (threads st') \<and> set (threads st') = set (threads st) \<and>
    zombies st' = zombies st \<and>
    (\<forall>u. bt_stackbase (thread st' u) = bt_stackbase (thread st u) \<and>
       bt_flags (thread st' u) AND THREAD_MUSTJOIN = bt_flags (thread st u) AND THREAD_MUSTJOIN) \<and>
    (\<forall>u. u \<noteq> current_thread st \<longrightarrow> bt_tcb (thread st' u) = bt_tcb (thread st u)) \<and>
    (\<forall>x. mem (kheap st') x \<noteq> mem (kheap st) x \<longrightarrow>
       x \<in> stack_area sy L st (current_thread st) \<or> x \<in> stack_area sy L st (current_thread st'))"
proof -
  obtain st2 nxt rest where pick: "sched_pick world st = Some (st2, nxt, rest)"
    and st': "st' = (if current_thread st \<noteq> nxt then sched_switch sy (current_thread st) nxt st2 else st2)"
    using call by (auto simp: bmk_sched_away_def bmk_sched_current_def Let_def)
  obtain st1 tm where p: "idled st st1" "find (due tm st1) (threads st) = Some nxt" "st2 = start_thread tm nxt st1"
    using sched_pick_Some [OF pick] by blast
  have nxt: "nxt \<in> set (threads st)" using p(2) by (auto simp: find_Some_iff)
  have inv2: "sched_inv sy L st2"
    unfolding p(3) using p(1) inv nxt by (intro sched_inv_start) (auto simp: idled_def)
  have same: "set (threads st2) = set (threads st)" "zombies st2 = zombies st" "current_thread st2 = current_thread st"
      "kheap st2 = kheap st" "kregs st2 = kregs st"
      "\<And>u. bt_stackbase (thread st2 u) = bt_stackbase (thread st u)" "\<And>u. bt_tcb (thread st2 u) = bt_tcb (thread st u)"
      "\<And>u. bt_flags (thread st2 u) AND THREAD_MUSTJOIN = bt_flags (thread st u) AND THREAD_MUSTJOIN"
    using p(1) nxt set_remove1_eq [OF sched_invD(2) [OF inv]] by (auto simp: p(3) idled_def start_keeps simp del: start_thread_simps(7))
  have area: "stack_area sy L st2 u = stack_area sy L st u" for u using same(6) by (rule stack_area_cong)
  show ?thesis
  proof (cases "current_thread st = nxt")
    case True
    then show ?thesis using inv2 same nxt by (simp add: st')
  next
    case False
    have room2: "stack_room sy L st2" using room same area by (simp add: stack_room_def)
    have n2: "nxt \<in> set (threads st2)" "nxt \<noteq> current_thread st2" using nxt False same by auto
    obtain tcb m r where sw: "bmk_cpu_sched_switch sy (bt_tcb (thread st2 nxt)) (mem (kheap st2), kregs st2) = (tcb, m, r)"
      by (metis prod_cases3)
    note eq = sched_switch_eq [OF sw, of "current_thread st2"]
    have st'': "st' = sched_switch sy (current_thread st2) nxt st2" using st' False same by simp
    then have cur: "current_thread st' = nxt" "threads st' = threads st2" "zombies st' = zombies st2"
        "\<And>u. bt_stackbase (thread st' u) = bt_stackbase (thread st2 u)" "\<And>u. bt_flags (thread st' u) = bt_flags (thread st2 u)"
        "\<And>u. u \<noteq> current_thread st2 \<Longrightarrow> bt_tcb (thread st' u) = bt_tcb (thread st2 u)" by (simp_all add: eq)
    show ?thesis
      using sched_inv_switch [OF inv2 room2 n2] sched_switch_writes [OF inv2 room2 n2] cur same area nxt
      unfolding st'' [symmetric] by auto
  qed
qed

text \<open>Three threads to evaluate on: 8 blocked, 16 asleep until time 100, 24 runnable.\<close>

definition sample_threads :: intr where
  "sample_threads = sample_intr\<lparr>threads := [8, 16, 24], current_thread := 8,
     thread := (\<lambda>_. zero_thread\<lparr>bt_wakeup_time := - 1\<rparr>)
       (16 := zero_thread\<lparr>bt_wakeup_time := 100\<rparr>, 24 := zero_thread\<lparr>bt_wakeup_time := - 1, bt_flags := THREAD_RUNNABLE\<rparr>)\<rparr>"

lemmas sample_threads_defs = sample_threads_def sample_intr_def zero_thread_def is_runnable_def thread_flags word_sle_eq

lemma sample_picks: "\<exists>st' rest. sched_pick [(50, [])] sample_threads = Some (st', 24, rest)"
  by (simp add: sched_scan_eq due_def sample_threads_defs)

theorem sched_pick_first_runnable_witness:
  "\<exists>st' rest as bs. sched_pick [(50, [])] sample_threads = Some (st', 24, rest) \<and> threads sample_threads = as @ 24 # bs \<and> threads st' = as @ bs @ [24] \<and> is_runnable st' 24"
proof -
  obtain st' rest where p: "sched_pick [(50, [])] sample_threads = Some (st', 24, rest)" using sample_picks by blast
  from sched_pick_first_runnable [OF p] p show ?thesis by blast
qed

theorem sched_pick_progress_witness:
  "\<exists>st' next rest. sched_pick [(50, []), (200, [])] (bmk_sched_block 24 sample_threads) = Some (st', next, rest)"
  by (rule sched_pick_progress [of 16 _ 200 "[]"])
    (simp_all add: bmk_sched_block_def clear_runnable_def sample_threads_defs)

theorem nanosleep_not_early_witness:
  "\<exists>st' rest. sched_pick [(50, []), (200, [])] (bmk_sched_nanosleep 60 20 (sample_threads\<lparr>threads := [8]\<rparr>)) = Some (st', 8, rest) \<and>
     bt_flags (thread st' 8) AND THREAD_TIMEDOUT \<noteq> 0"
proof -
  have "\<exists>st' rest. sched_pick [(50, []), (200, [])] (bmk_sched_nanosleep 60 20 (sample_threads\<lparr>threads := [8]\<rparr>)) = Some (st', 8, rest)"
    by (simp add: sched_scan_eq due_def sched_halt_def bmk_sched_nanosleep_def bmk_sched_current_def clear_runnable_def
        Let_def sample_threads_defs upd_thread_def)
  then obtain st' rest where p: "sched_pick [(50, []), (200, [])]
      (bmk_sched_nanosleep 60 20 (sample_threads\<lparr>threads := [8]\<rparr>)) = Some (st', 8, rest)" by blast
  have c: "current_thread (sample_threads\<lparr>threads := [8]\<rparr>) = 8" "isr_thread (sample_threads\<lparr>threads := [8]\<rparr>) \<noteq> 8"
    by (simp_all add: sample_threads_defs)
  have "bt_flags (thread st' 8) AND THREAD_TIMEDOUT \<noteq> 0"
    using nanosleep_not_early [of "[(50, []), (200, [])]" 60 20 "sample_threads\<lparr>threads := [8]\<rparr>" st' rest] p c by auto
  with p show ?thesis by blast
qed

theorem no_starvation_witness:
  "\<exists>s s' u. (\<forall>n :: nat. threads (s n :: intr) = (if even n then [24, 32] else [32, 24])) \<and>
     (\<forall>n. \<exists>world rest. sched_pick world (s n) = Some (s' n, u n, rest)) \<and> (\<exists>k \<le> place (s 0) 32. u k = 32)"
proof -
  define st where "st = sample_threads\<lparr>thread := (\<lambda>_. zero_thread\<lparr>bt_flags := THREAD_RUNNABLE\<rparr>)\<rparr>"
  define s where "s n = st\<lparr>threads := if even (n :: nat) then [24, 32] else [32, 24]\<rparr>" for n
  define u where "u n = (if even (n :: nat) then 24 else 32 :: u32)" for n
  have r: "is_runnable (st\<lparr>threads := q\<rparr>) t" for q t by (simp add: st_def is_runnable_def thread_flags)
  then have run: "is_runnable (s n) t" for n t by (simp add: s_def)
  have "due 0 (st\<lparr>threads := q\<rparr>) t" "sched_wake_due 0 t (st\<lparr>threads := q\<rparr>) = st\<lparr>threads := q\<rparr>" for t q
    using r by (simp_all add: due_def sched_wake_due_def)
  then have "sched_pick [(0, [])] (s n) = Some (s (Suc n), u n, [])" for n
    by (cases "even n") (simp_all add: s_def u_def sched_scan_eq start_thread_def)
  then have pick: "\<And>n. \<exists>world rest. sched_pick world (s n) = Some (s (Suc n), u n, rest)" by blast
  have "\<exists>k \<le> place (s 0) 32. u k = 32"
    by (rule no_starvation [OF pick _ run]) (simp_all add: s_def)
  then show ?thesis using pick by (intro exI [of _ s] exI [of _ "\<lambda>n. s (Suc n)"] exI [of _ u]) (simp add: s_def)
qed

end
