(* ===== verification/System.thy ===== *)
theory System
  imports Sched
begin

text \<open>
  The running system: threads that compute, allocate, create, sleep, block, wake, join and exit,
  interrupts, and the scheduler that switches between them, as one transition system over the
  kernel state and the live allocations.
\<close>

section \<open>The transition system\<close>

text \<open>
  A step of the running thread. What the code requires of its callers are the guards: a thread does
  not free or write what belongs to the scheduler, it has room on its stack when it calls
  \<^verbatim>\<open>bmk_sched\<close>, thread names are short, and the initial thread does not exit. A thread that has left
  \<^verbatim>\<open>threads\<close> in \<^verbatim>\<open>bmk_sched_exit\<close> only calls \<^verbatim>\<open>bmk_sched\<close>.
\<close>

definition writable :: "symbols \<Rightarrow> allocations \<Rightarrow> 'a sched_scheme \<Rightarrow> u32 \<Rightarrow> bool" where
  "writable sy L st x \<longleftrightarrow> x \<in> stack_area sy L st (current_thread st) \<or>
     (\<exists>p n. p \<notin> owned sy st \<and> L p = Some n \<and> x \<in> region p n)"

inductive thread_step :: "symbols \<Rightarrow> intr \<times> allocations \<Rightarrow> intr \<times> allocations \<Rightarrow> bool" for sy where
  t_create: "thread_step sy (st, L) (st', created st' t stack_base L)"
    if "pages_left (kheap st) 33" "name_ok (kheap st) L stack_base name" "stack_arg_ok sy L st stack_base stack_size"
      "bmk_sched_create sy name cookie thrflags f data stack_base stack_size st = Returns (st', t)"
| t_exit: "thread_step sy (st, L) (fst (bmk_sched_exit st), L)" if "current_thread st \<noteq> sym_init_thread sy"
| t_reap: "thread_step sy (st, L) (st', reaped st (set (zombies st)) L)"
    if "bmk_sched_resume (current_thread st) st = Returns st'"
| t_wake: "thread_step sy (st, L) (bmk_sched_wake t st, L)"
| t_block: "thread_step sy (st, L) (bmk_sched_block t st, L)"
| t_setwakeup: "thread_step sy (st, L) (bmk_sched_setwakeup t w st, L)"
| t_nanosleep: "thread_step sy (st, L) (bmk_sched_nanosleep now nsec st, L)"
| t_seterrno: "thread_step sy (st, L) (bmk_sched_seterrno e st, L)"
| t_settls: "thread_step sy (st, L) (st', L)" if "bmk_sched_settls t which v st = Returns st'"
| t_join: "thread_step sy (st, L) (st', L)" if "bmk_sched_join t st = Returns (st', r)"
| t_join_resume: "thread_step sy (st, L) (fst (bmk_sched_join_resume t st), L)"
| t_compute: "thread_step sy (st, L) (st\<lparr>kregs := r, kheap := (kheap st)\<lparr>mem := m\<rparr>\<rparr>, L)"
    if "\<And>x. m x \<noteq> mem (kheap st) x \<Longrightarrow> writable sy L st x"
| t_alloc: "thread_step sy (st, L) (st\<lparr>kheap := h\<rparr>, if p = 0 then L else L(p \<mapsto> unat n))"
    if "request_fits (kheap st) n al" "bmk_memalloc (kheap st) n al = (h, p)"
| t_release: "thread_step sy (st, L) (st\<lparr>kheap := h\<rparr>, L(p := None))"
    if "p \<notin> owned sy st" "L p = Some n" "bmk_memfree (kheap st) p = Returns h"

inductive sys_step :: "symbols \<Rightarrow> intr \<times> allocations \<Rightarrow> intr \<times> allocations \<Rightarrow> bool" for sy where
  sys_thread: "sys_step sy (st, L) s'"
    if "current_thread st \<in> set (threads st)" "thread_step sy (st, L) s'"
| sys_sched: "sys_step sy (st, L) (st', L)"
    if "stack_room sy L st" "bmk_sched_away sy world st = Some st'"
| sys_irq: "sys_step sy (st, L) (bmk_isr i st, L)"

inductive sys_reach :: "symbols \<Rightarrow> intr \<times> allocations \<Rightarrow> intr \<times> allocations \<Rightarrow> bool" for sy where
  sys_here: "sys_reach sy s s"
| sys_more: "sys_reach sy s s''" if "sys_reach sy s s'" "sys_step sy s' s''"

inductive_cases sys_stepE: "sys_step sy (st, L) (st', L')"
inductive_cases thread_stepE: "thread_step sy (st, L) (st', L')"

text \<open>The state \<^verbatim>\<open>bmk_sched_init\<close> leaves: one thread, running, and an untouched heap.\<close>

definition sys_start :: "symbols \<Rightarrow> intr \<Rightarrow> bool" where
  "sys_start sy st \<longleftrightarrow> heap_start (kheap st) \<and> threads st = [sym_init_thread sy] \<and> zombies st = [] \<and>
     current_thread st = sym_init_thread sy \<and>
     bt_flags (thread st (sym_init_thread sy)) AND THREAD_MUSTJOIN = 0 \<and>
     region (sym_bootstack sy) (2 ^ 16) \<inter> managed (kheap st) = {} \<and>
     region (sym_init_thread sy) 60 \<inter> managed (kheap st) = {}"

section \<open>The invariant is kept\<close>

lemma writable_frame:
  assumes "sched_inv sy L st" "writable sy L st x"
  shows "x \<notin> managed (kheap st) \<or> (\<exists>p n. L p = Some n \<and> x \<in> region p n)"
  using assms stack_area_writable [OF assms(1), of x "current_thread st"] by (auto simp: writable_def)

lemma sched_inv_kregs: "sched_inv sy L (st\<lparr>kregs := r\<rparr>) \<longleftrightarrow> sched_inv sy L st"
  by (rule sched_inv_fields) simp_all

lemma owned_live:
  assumes "sched_inv sy L st" "t \<in> heap_threads sy st"
  shows "t \<in> owned sy st" "bt_stackbase (thread st t) \<in> owned sy st" "\<exists>n. L t = Some n" "\<exists>n. L (bt_stackbase (thread st t)) = Some n"
  using sched_invD(6) [OF assms] assms(2) by (auto simp: owned_def thread_alloc_def)

lemma owned_alloc:
  assumes "sched_inv sy L st" "p \<in> owned sy st"
  shows "\<exists>n. L p = Some n"
  using assms(2) owned_live(3,4) [OF assms(1)] unfolding owned_def by blast

text \<open>Steps on the heap alone.\<close>

lemma sched_inv_heap:
  assumes inv: "sched_inv sy L st" and ok: "heap_ok h L'" and man: "managed h = managed (kheap st)"
    and L': "\<And>p. p \<in> owned sy st \<Longrightarrow> L' p = L p"
  shows "sched_inv sy L' (st\<lparr>kheap := h\<rparr>)"
proof (rule sched_inv_change [OF inv])
  show "L' t = L t \<and> L' (bt_stackbase (thread st t)) = L (bt_stackbase (thread st t))"
    if "t \<in> heap_threads sy (st\<lparr>kheap := h\<rparr>)" for t
    using that owned_live(1,2) [OF inv, of t] L' by (auto simp: heap_threads_def)
qed (use sched_invD(1-5) [OF inv] sched_invD(11) [OF inv] ok man in \<open>auto simp: heap_threads_def\<close>)

lemma sched_inv_compute:
  assumes inv: "sched_inv sy L st" and w: "\<And>x. m x \<noteq> mem (kheap st) x \<Longrightarrow> writable sy L st x"
  shows "sched_inv sy L (st\<lparr>kregs := r, kheap := (kheap st)\<lparr>mem := m\<rparr>\<rparr>)"
proof -
  have "heap_ok ((kheap st)\<lparr>mem := m\<rparr>) L"
    using writable_frame [OF inv] w by (intro heap_ok_frame [OF sched_invD(1) [OF inv]]) blast
  then have "sched_inv sy L (st\<lparr>kheap := (kheap st)\<lparr>mem := m\<rparr>\<rparr>)" by (intro sched_inv_heap [OF inv]) simp_all
  then show ?thesis
    using sched_inv_kregs [where st = "st\<lparr>kheap := (kheap st)\<lparr>mem := m\<rparr>\<rparr>" and r = r] by (cases st) simp
qed

lemma sched_inv_alloc:
  assumes inv: "sched_inv sy L st" and fits: "request_fits (kheap st) n al" and call: "bmk_memalloc (kheap st) n al = (h, p)"
  shows "sched_inv sy (if p = 0 then L else L(p \<mapsto> unat n)) (st\<lparr>kheap := h\<rparr>)"
proof (rule sched_inv_heap [OF inv])
  note al = heap_ok_alloc [OF sched_invD(1) [OF inv] fits call]
  have nb: "need_bytes n al < 2 ^ 32" using fits by (simp add: request_fits_def)
  show "managed h = managed (kheap st)"
    using bmk_memalloc_bounds(1,2) [OF sched_invD(1) [OF inv] nb] call by (simp add: managed_def)
  show "heap_ok h (if p = 0 then L else L(p \<mapsto> unat n))" using al by (auto split: if_splits)
  show "(if p = 0 then L else L(p \<mapsto> unat n)) q = L q" if "q \<in> owned sy st" for q
    using al owned_alloc [OF inv that] by (auto split: if_splits)
qed

lemma sched_inv_release:
  assumes inv: "sched_inv sy L st" and p: "p \<notin> owned sy st" "L p = Some n" and call: "bmk_memfree (kheap st) p = Returns h"
  shows "sched_inv sy (L(p := None)) (st\<lparr>kheap := h\<rparr>)"
  using kmalloc.free_live [OF sched_invD(1) [OF inv] p(2)] call bmk_memfree_bounds [OF call] p(1)
  by (intro sched_inv_heap [OF inv]) auto

lemma thread_step_inv:
  assumes "thread_step sy (st, L) (st', L')" and inv: "sched_inv sy L st" and cur: "current_thread st \<in> set (threads st)"
  shows "sched_inv sy L' st'"
  using assms(1)
proof cases
  case t_create
  then show ?thesis using bmk_sched_create_ok [OF inv] by blast
next
  case t_exit
  then show ?thesis using sched_inv_exit [OF inv cur] by simp
next
  case t_reap
  have "current_thread st \<notin> set (zombies st)" using cur sched_invD(4) [OF inv] by blast
  from sched_reaper_ok [OF inv this] t_reap show ?thesis by (auto simp: bmk_sched_resume_def)
next
  case t_compute
  then show ?thesis using sched_inv_compute [OF inv] by blast
next
  case t_settls
  then show ?thesis using sched_inv_ops(7) [OF inv] by blast
next
  case t_join
  then show ?thesis using sched_inv_join(3) [OF inv] by blast
qed (use inv sched_inv_ops(1-6) [OF inv] sched_inv_join(2) [OF inv] sched_inv_alloc [OF inv] sched_inv_release [OF inv] in auto)

text \<open>The flag \<^verbatim>\<open>THREAD_MUSTJOIN\<close> is never set.\<close>

definition nojoin :: "'a sched_scheme \<Rightarrow> bool" where
  "nojoin st \<longleftrightarrow> (\<forall>t \<in> set (threads st) \<union> set (zombies st). bt_flags (thread st t) AND THREAD_MUSTJOIN = 0)"

definition keeps_nojoin :: "(bmk_thread \<Rightarrow> bmk_thread) \<Rightarrow> bool" where
  "keeps_nojoin f \<longleftrightarrow> (\<forall>x. bt_flags x AND THREAD_MUSTJOIN = 0 \<longrightarrow> bt_flags (f x) AND THREAD_MUSTJOIN = 0)"

lemma keeps_nojoin_ops [simp]:
  "keeps_nojoin (\<lambda>x. x\<lparr>bt_flags := bt_flags x OR THREAD_RUNNABLE\<rparr>)"
  "keeps_nojoin (\<lambda>x. x\<lparr>bt_flags := bt_flags x AND NOT THREAD_RUNNABLE\<rparr>)"
  "keeps_nojoin (\<lambda>x. x\<lparr>bt_flags := bt_flags x AND NOT THREAD_MUSTJOIN\<rparr>)"
  "keeps_nojoin (\<lambda>x. x\<lparr>bt_wakeup_time := w\<rparr>)" "keeps_nojoin (\<lambda>x. x\<lparr>bt_errno := e\<rparr>)"
  "keeps_nojoin (\<lambda>x. x\<lparr>bt_tls := (bt_tls x)(i := v)\<rparr>)"
proof -
  have "(f AND NOT THREAD_RUNNABLE) AND THREAD_MUSTJOIN = f AND THREAD_MUSTJOIN" for f
    by (simp add: thread_flags and.assoc)
  then show "keeps_nojoin (\<lambda>x. x\<lparr>bt_flags := bt_flags x AND NOT THREAD_RUNNABLE\<rparr>)" by (simp add: keeps_nojoin_def)
qed (simp_all add: keeps_nojoin_def and.assoc thread_flags bit.conj_disj_distrib2)

lemma nojoin_upd: "nojoin st \<Longrightarrow> keeps_nojoin f \<Longrightarrow> nojoin (upd_thread t f st)"
  by (auto simp: nojoin_def keeps_nojoin_def)

lemma nojoin_ops:
  assumes "nojoin st"
  shows "nojoin (bmk_sched_wake t st)" "nojoin (bmk_sched_block t st)" "nojoin (bmk_sched_setwakeup t w st)"
    "nojoin (bmk_sched_seterrno e st)" "nojoin (clear_runnable t st)" "nojoin (bmk_sched_nanosleep now ns st)"
    "bmk_sched_settls t k v st = Returns st' \<Longrightarrow> nojoin st'"
  using assms
  by (auto simp: bmk_sched_wake_def bmk_sched_block_def bmk_sched_setwakeup_def bmk_sched_seterrno_def
      set_runnable_def clear_runnable_def bmk_sched_nanosleep_def bmk_sched_settls_def Let_def
      intro!: nojoin_upd split: if_splits)

lemma nojoin_joinwq: "nojoin (st\<lparr>joinwq := q\<rparr>) \<longleftrightarrow> nojoin st"
  by (simp add: nojoin_def)

lemma nojoin_join:
  assumes "nojoin st"
  shows "nojoin (fst (bmk_sched_join_resume j st))" "bmk_sched_join j st = Returns (st', r) \<Longrightarrow> nojoin st'"
proof -
  have j: "nojoin (fst (join_pass j st))" if "nojoin st" for st :: "'a sched_scheme"
    using that by (auto simp: join_pass_def Let_def nojoin_joinwq intro!: nojoin_ops(1-6) nojoin_upd)
  show "nojoin (fst (bmk_sched_join_resume j st))"
    unfolding bmk_sched_join_resume_def using assms by (intro j) (simp add: nojoin_joinwq)
  show "nojoin st'" if "bmk_sched_join j st = Returns (st', r)"
    using j [OF assms] that by (auto simp: bmk_sched_join_def split: if_splits)
qed

lemma created_thread:
  assumes "bmk_sched_create sy name cookie thrflags f data stack_base stack_size st = Returns (st', t)"
  shows "threads st' = t # threads st" "zombies st' = zombies st" "current_thread st' = current_thread st"
    "\<And>u. u \<noteq> t \<Longrightarrow> thread st' u = thread st u" "bt_flags (thread st' t) AND THREAD_MUSTJOIN = 0"
    "is_runnable st' t"
proof -
  obtain h1 h2 flags sb sz where c:
      "create_stack (h1\<lparr>mem := write_bytes (mem h1) t (replicate 60 0)\<rparr>) stack_base stack_size = Returns (h2, flags, sb, sz)"
    and st': "st' = st\<lparr>kheap := h2\<lparr>mem := fst (bmk_strncpy (store32 (store32 (mem h2) (sb + sz - 4) f) (sb + sz - 8) data)
         t name (NAME_MAXLEN - 1))\<rparr>,
       thread := (thread st)(t := new_thread sy flags sb (sb + sz - 8)), threads := t # threads st\<rparr>"
    using bmk_sched_create_eq [OF assms] .
  have "flags = 0 \<or> flags = THREAD_EXTSTACK" using c by (auto simp: create_stack_def bind_outcome_Returns split: if_splits)
  then show "threads st' = t # threads st" "zombies st' = zombies st" "current_thread st' = current_thread st"
    "\<And>u. u \<noteq> t \<Longrightarrow> thread st' u = thread st u" "bt_flags (thread st' t) AND THREAD_MUSTJOIN = 0" "is_runnable st' t"
    by (auto simp: st' new_thread_def thread_flags is_runnable_def)
qed

lemma nojoin_create:
  assumes "bmk_sched_create sy name cookie thrflags f data stack_base stack_size st = Returns (st', t)" "nojoin st"
  shows "nojoin st'"
  unfolding nojoin_def
proof
  fix u assume "u \<in> set (threads st') \<union> set (zombies st')"
  then show "bt_flags (thread st' u) AND THREAD_MUSTJOIN = 0"
    using created_thread [OF assms(1)] assms(2) by (cases "u = t") (auto simp: nojoin_def)
qed

lemma reaper_keeps:
  assumes "sched_inv sy L st" "current_thread st \<in> set (threads st)" "bmk_sched_resume (current_thread st) st = Returns st'"
  obtains h where "st' = st\<lparr>kheap := h, zombies := []\<rparr>" "sched_inv sy (reaped st (set (zombies st)) L) st'"
    "bytes_kept (reaped st (set (zombies st)) L) (mem (kheap st)) (mem h)"
    "\<forall>x. x \<notin> managed (kheap st) \<longrightarrow> mem h x = mem (kheap st) x"
proof -
  have "current_thread st \<notin> set (zombies st)" using assms(2) sched_invD(4) [OF assms(1)] by blast
  from sched_reaper_ok [OF assms(1) this] show thesis using assms(3) that by (auto simp: bmk_sched_resume_def)
qed

definition sys_inv :: "symbols \<Rightarrow> intr \<times> allocations \<Rightarrow> bool" where
  "sys_inv sy = (\<lambda>(st, L). sched_inv sy L st \<and> current_thread st \<in> set (threads st) \<union> set (zombies st) \<and> nojoin st)"

lemma thread_step_current:
  assumes "thread_step sy (st, L) (st', L')" and inv: "sched_inv sy L st" "nojoin st"
    and cur: "current_thread st \<in> set (threads st)"
  shows "current_thread st' = current_thread st \<and> current_thread st' \<in> set (threads st') \<union> set (zombies st') \<and> nojoin st'"
  using assms(1)
proof cases
  case t_create
  then show ?thesis using created_thread(1-3) [OF t_create(5)] nojoin_create [OF t_create(5) inv(2)] cur by simp
next
  case t_exit
  have "bt_flags (thread st (current_thread st)) AND THREAD_MUSTJOIN = 0" using cur inv(2) by (auto simp: nojoin_def)
  then have "st' = clear_runnable (current_thread st)
      (st\<lparr>threads := remove1 (current_thread st) (threads st), zombies := current_thread st # zombies st\<rparr>)"
    using t_exit by (simp add: bmk_sched_exit_def Let_def bmk_sched_current_def clear_runnable_def upd_thread_def)
  moreover have "nojoin (st\<lparr>threads := remove1 (current_thread st) (threads st), zombies := current_thread st # zombies st\<rparr>)"
    using inv(2) cur set_remove1_subset [of "current_thread st" "threads st"] by (fastforce simp: nojoin_def)
  ultimately show ?thesis using nojoin_ops(5) by (simp add: clear_runnable_def)
next
  case t_reap
  obtain h where "st' = st\<lparr>kheap := h, zombies := []\<rparr>" using reaper_keeps [OF inv(1) cur t_reap(2)] .
  then show ?thesis using cur inv(2) by (simp add: nojoin_def)
next
  case t_settls
  then show ?thesis using nojoin_ops(7) [OF inv(2)] cur by (auto simp: bmk_sched_settls_def split: if_splits)
next
  case t_join
  then show ?thesis using nojoin_join(2) [OF inv(2)] t_join cur
    by (auto simp: bmk_sched_join_def join_pass_def Let_def bmk_sched_wake_def bmk_sched_block_def set_runnable_def
        clear_runnable_def split: if_splits)
next
  case t_join_resume
  then show ?thesis using nojoin_join(1) [OF inv(2)] cur
    by (auto simp: bmk_sched_join_resume_def join_pass_def Let_def bmk_sched_wake_def bmk_sched_block_def set_runnable_def
        clear_runnable_def)
qed (use nojoin_ops(1-6) [OF inv(2)] inv(2) cur in
  \<open>auto simp: nojoin_def bmk_sched_wake_def bmk_sched_block_def bmk_sched_setwakeup_def bmk_sched_seterrno_def
     bmk_sched_nanosleep_def Let_def set_runnable_def clear_runnable_def\<close>)

section \<open>Isolation of suspended threads\<close>

text \<open>The stack and the saved context of \<open>t\<close> are the same before and after.\<close>

definition suspended_kept :: "symbols \<Rightarrow> u32 \<Rightarrow> intr \<times> allocations \<Rightarrow> intr \<times> allocations \<Rightarrow> bool" where
  "suspended_kept sy t = (\<lambda>(st, L) (st', L'). stack_area sy L' st' t = stack_area sy L st t \<and>
     bt_tcb (thread st' t) = bt_tcb (thread st t) \<and>
     (\<forall>x \<in> stack_area sy L st t. mem (kheap st') x = mem (kheap st) x))"

lemma stack_bytes_kept:
  assumes inv: "sched_inv sy L st" and t: "t \<in> set (threads st)"
    and kept: "bytes_kept L1 (mem (kheap st)) m'" and L1: "t \<noteq> sym_init_thread sy \<Longrightarrow>
      L1 (bt_stackbase (thread st t)) = L (bt_stackbase (thread st t))"
    and un: "\<And>x. x \<notin> managed (kheap st) \<Longrightarrow> m' x = mem (kheap st) x" and x: "x \<in> stack_area sy L st t"
  shows "m' x = mem (kheap st) x"
proof (cases "t = sym_init_thread sy")
  case True
  then have "x \<notin> managed (kheap st)" using x sched_invD(9) [OF inv] by (auto simp: stack_area_def)
  then show ?thesis by (rule un)
next
  case False
  then have "t \<in> heap_threads sy st" using t by (simp add: heap_threads_def)
  then obtain n where n: "L (bt_stackbase (thread st t)) = Some n"
      "stack_area sy L st t = region (bt_stackbase (thread st t)) n" using stack_area_heap [OF inv] by metis
  then show ?thesis using bytes_keptD [OF kept] L1 [OF False] x by simp
qed

lemma suspended_keptI:
  assumes inv: "sched_inv sy L st" and t: "t \<in> set (threads st)"
    and th: "bt_stackbase (thread st' t) = bt_stackbase (thread st t)" "bt_tcb (thread st' t) = bt_tcb (thread st t)"
    and L': "t \<noteq> sym_init_thread sy \<Longrightarrow> L' (bt_stackbase (thread st t)) = L (bt_stackbase (thread st t))"
    and bytes: "\<And>x. x \<in> stack_area sy L st t \<Longrightarrow> mem (kheap st') x = mem (kheap st) x"
  shows "suspended_kept sy t (st, L) (st', L')"
  using assms by (auto simp: suspended_kept_def stack_area_def split: option.splits)

lemma writable_apart:
  assumes inv: "sched_inv sy L st" and t: "t \<in> set (threads st)" "t \<noteq> current_thread st"
    and cur: "current_thread st \<in> set (threads st)" and w: "writable sy L st x"
  shows "x \<notin> stack_area sy L st t"
proof
  assume x: "x \<in> stack_area sy L st t"
  from w show False unfolding writable_def
  proof
    assume "x \<in> stack_area sy L st (current_thread st)"
    then show False using x stack_areas_disjoint [OF inv, of t "current_thread st"] t cur by blast
  next
    assume "\<exists>p n. p \<notin> owned sy st \<and> L p = Some n \<and> x \<in> region p n"
    then obtain p n where p: "p \<notin> owned sy st" "L p = Some n" "x \<in> region p n" by blast
    show False
    proof (cases "t = sym_init_thread sy")
      case True
      then show False
        using x p sched_invD(9) [OF inv] live_managed [OF sched_invD(1) [OF inv] p(2)] by (auto simp: stack_area_def)
    next
      case False
      then have ht: "t \<in> heap_threads sy st" using t by (simp add: heap_threads_def)
      then obtain k where k: "L (bt_stackbase (thread st t)) = Some k"
          "stack_area sy L st t = region (bt_stackbase (thread st t)) k" using stack_area_heap [OF inv] by metis
      moreover have "p \<noteq> bt_stackbase (thread st t)" using p(1) owned_live(2) [OF inv ht] by auto
      ultimately show False using kmalloc.live_disjoint [OF sched_invD(1) [OF inv] p(2) k(1)] p(3) x by auto
    qed
  qed
qed

lemma suspended_create:
  assumes inv: "sched_inv sy L st" and t: "t \<in> set (threads st)"
    and g: "pages_left (kheap st) 33" "name_ok (kheap st) L stack_base name" "stack_arg_ok sy L st stack_base stack_size"
    and call: "bmk_sched_create sy name cookie thrflags f data stack_base stack_size st = Returns (st', u)"
  shows "suspended_kept sy t (st, L) (st', created st' u stack_base L)"
proof -
  note c = bmk_sched_create_ok [OF inv g call] and cr = created_thread [OF call]
  have inv': "sched_inv sy (created st' u stack_base L) st'" using c by blast
  have ne: "t \<noteq> u" using sched_invD(2) [OF inv'] cr(1) t by auto
  have base: "L (bt_stackbase (thread st t)) \<noteq> None \<and> bt_stackbase (thread st t) \<noteq> u \<and>
      bt_stackbase (thread st t) \<noteq> bt_stackbase (thread st' u) \<and> bt_stackbase (thread st t) \<noteq> stack_base"
    if "t \<noteq> sym_init_thread sy"
  proof -
    have ht: "t \<in> heap_threads sy st" "t \<in> heap_threads sy st'" using that t cr(1) by (auto simp: heap_threads_def)
    obtain n where n: "L (bt_stackbase (thread st t)) = Some n" using owned_live(4) [OF inv ht(1)] by blast
    have "u \<noteq> sym_init_thread sy"
    proof -
      have "\<exists>k > 0. created st' u stack_base L u = Some k" by (auto simp: created_def)
      then have "u \<in> managed (kheap st')" using heap_ok_managed [OF sched_invD(1) [OF inv']] by blast
      moreover have "sym_init_thread sy \<in> region (sym_init_thread sy) 60" by simp
      ultimately show ?thesis using sched_invD(10) [OF inv'] by blast
    qed
    then have "u \<in> heap_threads sy st'" using cr(1) by (simp add: heap_threads_def)
    then have "bt_stackbase (thread st t) \<noteq> bt_stackbase (thread st' u)"
      using inj_onD [OF sched_invD(7) [OF inv'] _ ht(2)] ne cr(4) [OF ne] by metis
    moreover have "bt_stackbase (thread st t) \<noteq> stack_base"
      using g(3) owned_live(2) [OF inv ht(1)] live_region_bounds(2) [OF sched_invD(1) [OF inv] n]
      by (auto simp: stack_arg_ok_def)
    ultimately show ?thesis using n c by auto
  qed
  show ?thesis
  proof (rule suspended_keptI [OF inv t])
    fix x assume x: "x \<in> stack_area sy L st t"
    show "mem (kheap st') x = mem (kheap st) x"
    proof (rule ccontr)
      assume "mem (kheap st') x \<noteq> mem (kheap st) x"
      then have w: "x \<in> managed (kheap st)" "\<And>p n. L p = Some n \<Longrightarrow> p \<noteq> stack_base \<Longrightarrow> x \<notin> region p n" using c by blast+
      then have "t \<noteq> sym_init_thread sy" using x sched_invD(9) [OF inv] by (auto simp: stack_area_def)
      then show False using base w(2) x by (auto simp: stack_area_def split: option.splits)
    qed
  qed (use base cr(4) [OF ne] in \<open>auto simp: created_def\<close>)
qed

lemma reaped_stack:
  assumes inv: "sched_inv sy L st" and t: "t \<in> set (threads st)" "t \<noteq> sym_init_thread sy"
  shows "reaped st (set (zombies st)) L (bt_stackbase (thread st t)) = L (bt_stackbase (thread st t))"
proof -
  have ht: "t \<in> heap_threads sy st" using t by (simp add: heap_threads_def)
  have z: "z \<in> heap_threads sy st" "z \<noteq> t" if "z \<in> set (zombies st)" for z
    using that t sched_invD(4,5) [OF inv] by (auto simp: heap_threads_def)
  then have "bt_stackbase (thread st t) \<notin> set (zombies st)" using sched_invD(8) [OF inv ht] by blast
  moreover have "bt_stackbase (thread st t) \<noteq> bt_stackbase (thread st z)" if "z \<in> set (zombies st)" for z
    using inj_onD [OF sched_invD(7) [OF inv] _ ht z(1) [OF that]] z(2) [OF that] by blast
  ultimately show ?thesis by (auto simp: reaped_def)
qed

lemma thread_step_suspended:
  assumes "thread_step sy (st, L) (st', L')" and inv: "sched_inv sy L st" and cur: "current_thread st \<in> set (threads st)"
    and t: "t \<in> set (threads st)" "t \<noteq> current_thread st"
  shows "suspended_kept sy t (st, L) (st', L')"
proof -
  note I = suspended_keptI [OF inv t(1)]
  have h: "\<And>f u st. harmless f \<Longrightarrow> bt_stackbase (thread (upd_thread u f (st :: intr)) t) = bt_stackbase (thread st t) \<and>
      bt_tcb (thread (upd_thread u f st) t) = bt_tcb (thread st t)" by (simp add: harmless_def)
  have own: "t \<noteq> sym_init_thread sy \<Longrightarrow> bt_stackbase (thread st t) \<in> owned sy st"
    using t owned_live(2) [OF inv] by (auto simp: heap_threads_def)
  note ops = bmk_sched_wake_def bmk_sched_block_def bmk_sched_setwakeup_def bmk_sched_seterrno_def bmk_sched_nanosleep_def
    set_runnable_def clear_runnable_def Let_def
  from assms(1) show ?thesis
  proof cases
    case t_create
    then show ?thesis using suspended_create [OF inv t(1)] by blast
  next
    case t_exit
    then show ?thesis
      by (intro I) (auto simp: bmk_sched_exit_def exit_wake_joiner_def ops split: option.splits)
  next
    case t_reap
    obtain h where h: "st' = st\<lparr>kheap := h, zombies := []\<rparr>" "bytes_kept L' (mem (kheap st)) (mem h)"
        "\<forall>x. x \<notin> managed (kheap st) \<longrightarrow> mem h x = mem (kheap st) x"
      using reaper_keeps [OF inv cur t_reap(2)] t_reap(1) by metis
    have L': "L' (bt_stackbase (thread st t)) = L (bt_stackbase (thread st t))" if "t \<noteq> sym_init_thread sy"
      using reaped_stack [OF inv t(1) that] t_reap(1) by simp
    show ?thesis using h L' by (intro I) (auto intro: stack_bytes_kept [OF inv t(1) h(2)])
  next
    case t_settls
    then show ?thesis by (intro I) (auto simp: bmk_sched_settls_def split: if_splits)
  next
    case t_join
    then show ?thesis by (intro I) (auto simp: bmk_sched_join_def join_pass_def ops split: if_splits)
  next
    case t_join_resume
    then show ?thesis by (intro I) (auto simp: bmk_sched_join_resume_def join_pass_def ops)
  next
    case t_compute
    then show ?thesis using writable_apart [OF inv t cur] by (intro I) auto
  next
    case (t_alloc n al h p)
    note a = heap_ok_alloc [OF sched_invD(1) [OF inv] t_alloc(3,4)] bmk_memalloc_unmanaged [OF sched_invD(1) [OF inv] t_alloc(3)]
    have "L' (bt_stackbase (thread st t)) = L (bt_stackbase (thread st t))" if "t \<noteq> sym_init_thread sy"
      using owned_alloc [OF inv own [OF that]] a(1) t_alloc(2) by (auto split: if_splits)
    then show ?thesis
      using t_alloc a by (intro I) (auto intro: stack_bytes_kept [OF inv t(1), of L])
  next
    case (t_release p n h)
    have k: "bytes_kept (L(p := None)) (mem (kheap st)) (mem h)"
      using kmalloc.free_live [OF sched_invD(1) [OF inv] t_release(4)] t_release(5) by auto
    show ?thesis
      using t_release own bmk_memfree_unmanaged [OF sched_invD(1) [OF inv] t_release(4,5)]
      by (intro I) (auto intro: stack_bytes_kept [OF inv t(1) k])
  qed (auto intro!: I simp: ops)
qed

lemma sys_step_inv:
  assumes step: "sys_step sy (st, L) (st', L')" and inv: "sys_inv sy (st, L)"
  shows "sys_inv sy (st', L')"
  using step
proof cases
  case sys_thread
  then show ?thesis
    using inv thread_step_inv [OF sys_thread(2)] thread_step_current [OF sys_thread(2)] by (auto simp: sys_inv_def)
next
  case (sys_sched world)
  then show ?thesis using inv bmk_sched_away_ok [of sy L st world st'] by (auto simp: sys_inv_def nojoin_def)
next
  case (sys_irq i)
  then show ?thesis
    using inv sched_inv_isr [of sy L st i] nojoin_ops(1) [of st "isr_thread st"]
    by (simp add: sys_inv_def nojoin_def) (simp add: bmk_sched_wake_def set_runnable_def)
qed

lemma thread_step_queue:
  assumes "thread_step sy (st, L) (st', L')" "sched_inv sy L st" "current_thread st \<in> set (threads st)"
    and t: "t \<in> set (threads st)" "t \<noteq> current_thread st"
  shows "t \<in> set (threads st')"
proof -
  note ops = bmk_sched_wake_def bmk_sched_block_def bmk_sched_setwakeup_def bmk_sched_seterrno_def bmk_sched_nanosleep_def
    set_runnable_def clear_runnable_def Let_def
  from assms(1) show ?thesis
  proof cases
    case t_create
    then show ?thesis using created_thread(1) [OF t_create(5)] t(1) by simp
  next
    case t_reap
    obtain h where "st' = st\<lparr>kheap := h, zombies := []\<rparr>" using reaper_keeps [OF assms(2,3) t_reap(2)] .
    then show ?thesis using t(1) by simp
  next
    case t_exit
    then show ?thesis
      using t by (auto simp: bmk_sched_exit_def bmk_sched_current_def exit_wake_joiner_def ops split: option.splits)
  qed (use t(1) in \<open>auto simp: bmk_sched_settls_def bmk_sched_join_def bmk_sched_join_resume_def join_pass_def ops split: if_splits\<close>)
qed

lemma sys_step_suspended:
  assumes "sys_step sy (st, L) (st', L')" "sys_inv sy (st, L)"
    and t: "t \<in> set (threads st)" "t \<noteq> current_thread st" "t \<noteq> current_thread st'"
  shows "suspended_kept sy t (st, L) (st', L') \<and> t \<in> set (threads st')"
proof -
  have inv: "sched_inv sy L st" "current_thread st \<in> set (threads st) \<union> set (zombies st)"
    using assms(2) by (simp_all add: sys_inv_def)
  from assms(1) show ?thesis
  proof cases
    case sys_thread
    then show ?thesis
      using thread_step_suspended [OF sys_thread(2) inv(1) _ t(1,2)] thread_step_queue [OF sys_thread(2) inv(1) _ t(1,2)] by simp
  next
    case (sys_sched world)
    note a = bmk_sched_away_ok [OF inv(1) sys_sched(2,3)]
    have "x \<notin> stack_area sy L st (current_thread st)" "x \<notin> stack_area sy L st (current_thread st')"
      if "x \<in> stack_area sy L st t" for x
      using that stack_areas_disjoint [OF inv(1), of t] inv(2) t a by blast+
    then show ?thesis using a sys_sched(1) t by (intro conjI suspended_keptI [OF inv(1) t(1)]) auto
  next
    case (sys_irq i)
    then show ?thesis using t by (intro conjI suspended_keptI [OF inv(1) t(1)]) (auto simp: wake_keeps)
  qed
qed

lemma sys_reach_inv:
  assumes "sys_reach sy s s'" "sys_inv sy s"
  shows "sys_inv sy s'"
  using assms
proof (induction rule: sys_reach.induct)
  case (sys_more s s' s'')
  then show ?case using sys_step_inv [of sy "fst s'" "snd s'" "fst s''" "snd s''"] by simp
qed simp

lemma sys_start_inv: "sys_start sy st \<Longrightarrow> sys_inv sy (st, Map.empty)"
  using heap_start_ok [of "kheap st"]
  by (auto simp: sys_start_def sys_inv_def sched_inv_def heap_threads_def nojoin_def)

section \<open>Properties of the system\<close>

text \<open>
  (C2) Memory safety of the scheduler. In every reachable state each thread but the initial one is
  a live allocation of its own, its stack is a live allocation of the right size, no two threads
  (queued or zombie) have overlapping stacks, and when a thread runs the reaper at the end of
  \<^verbatim>\<open>bmk_sched\<close>, all zombies are freed without tripping the allocator, and the stack of the thread
  that runs it is not among what is freed.
\<close>

theorem sched_reachable_safe:
  assumes "sys_start sy st0" "sys_reach sy (st0, Map.empty) (st, L)"
  shows "(\<forall>t \<in> set (threads st) \<union> set (zombies st). t \<noteq> sym_init_thread sy \<longrightarrow>
      L t = Some 60 \<and> (\<exists>n. L (bt_stackbase (thread st t)) = Some n \<and>
        (bt_flags (thread st t) AND THREAD_EXTSTACK = 0 \<longrightarrow> n = 65536))) \<and>
    (\<forall>t \<in> set (threads st) \<union> set (zombies st). \<forall>u \<in> set (threads st) \<union> set (zombies st). t \<noteq> u \<longrightarrow>
      stack_area sy L st t \<inter> stack_area sy L st u = {}) \<and>
    (current_thread st \<in> set (threads st) \<longrightarrow>
      (\<exists>st'. bmk_sched_resume (current_thread st) st = Returns st' \<and> zombies st' = [] \<and>
        stack_area sy (reaped st (set (zombies st)) L) st' (current_thread st) = stack_area sy L st (current_thread st)))"
proof -
  have inv: "sched_inv sy L st"
    using sys_reach_inv [OF assms(2) sys_start_inv [OF assms(1)]] by (simp add: sys_inv_def)
  have alloc: "thread_alloc L (thread st t) t" if "t \<in> set (threads st) \<union> set (zombies st)" "t \<noteq> sym_init_thread sy" for t
    using that sched_invD(6) [OF inv] by (simp add: heap_threads_def)
  have "\<exists>st'. bmk_sched_resume (current_thread st) st = Returns st' \<and> zombies st' = [] \<and>
      stack_area sy (reaped st (set (zombies st)) L) st' (current_thread st) = stack_area sy L st (current_thread st)"
    if cur: "current_thread st \<in> set (threads st)"
  proof -
    have "current_thread st \<notin> set (zombies st)" using cur sched_invD(4) [OF inv] by blast
    from sched_reaper_ok [OF inv this] obtain h where
      h: "bmk_sched_resume (current_thread st) st = Returns (st\<lparr>kheap := h, zombies := []\<rparr>)"
      by (auto simp: bmk_sched_resume_def)
    moreover have "stack_area sy (reaped st (set (zombies st)) L) (st\<lparr>kheap := h, zombies := []\<rparr>) (current_thread st) =
        stack_area sy L st (current_thread st)"
      using reaped_stack [OF inv cur] by (simp add: stack_area_def split: option.split)
    ultimately show ?thesis by auto
  qed
  then show ?thesis
    using alloc stack_areas_disjoint [OF inv] unfolding thread_alloc_def by simp
qed

text \<open>
  (C3) Suspended threads are isolated: a step of the system that neither takes the processor from
  a queued thread nor gives it to that thread changes no byte of its stack and nothing of its
  saved context, whatever the running thread creates, frees, writes or switches to.
\<close>

theorem suspended_isolated:
  assumes "sys_start sy st0" "sys_reach sy (st0, Map.empty) (st, L)" "sys_step sy (st, L) (st', L')"
    and "t \<in> set (threads st)" "t \<noteq> current_thread st" "t \<noteq> current_thread st'"
  shows "stack_area sy L' st' t = stack_area sy L st t \<and> bt_tcb (thread st' t) = bt_tcb (thread st t) \<and>
    (\<forall>x \<in> stack_area sy L st t. mem (kheap st') x = mem (kheap st) x)"
proof -
  have inv: "sys_inv sy (st, L)" using sys_reach_inv [OF assms(2) sys_start_inv [OF assms(1)]] .
  have "suspended_kept sy t (st, L) (st', L')"
    using sys_step_suspended [OF assms(3) inv assms(4-6)] by blast
  then show ?thesis by (simp add: suspended_kept_def)
qed

text \<open>
  (C28) \<^verbatim>\<open>bmk_sched_join\<close> cannot be used: \<^verbatim>\<open>bmk_sched_create\<close> ignores its flags argument, so no
  thread is ever marked as joinable, and joining any thread of a reachable state fails the
  assertion.
\<close>

theorem bmk_sched_join_always_asserts:
  assumes "sys_start sy st0" "sys_reach sy (st0, Map.empty) (st, L)" "t \<in> set (threads st) \<union> set (zombies st)"
  shows "bmk_sched_join t st = Halts (AssertFail ''joinable->bt_flags & THREAD_MUSTJOIN'')"
proof -
  have "nojoin st" using sys_reach_inv [OF assms(2) sys_start_inv [OF assms(1)]] by (simp add: sys_inv_def)
  then show ?thesis using assms(3) by (simp add: nojoin_def bmk_sched_join_def)
qed

section \<open>Threads resume where they left\<close>

lemma away_switches:
  assumes "bmk_sched_away sy world st = Some st'" "current_thread st' \<noteq> current_thread st"
  obtains tcb m r where
    "bmk_cpu_sched_switch sy (bt_tcb (thread st (current_thread st'))) (mem (kheap st), kregs st) = (tcb, m, r)"
    "mem (kheap st') = m" "kregs st' = r" "bt_tcb (thread st' (current_thread st)) = tcb"
proof -
  obtain st2 nxt rest where pick: "sched_pick world st = Some (st2, nxt, rest)"
    and st': "st' = (if current_thread st \<noteq> nxt then sched_switch sy (current_thread st) nxt st2 else st2)"
    using assms(1) by (auto simp: bmk_sched_away_def bmk_sched_current_def Let_def)
  obtain st1 tm where p: "idled st st1" "st2 = start_thread tm nxt st1" using sched_pick_Some [OF pick] by blast
  have same: "current_thread st2 = current_thread st" "kheap st2 = kheap st" "kregs st2 = kregs st"
      "bt_tcb (thread st2 u) = bt_tcb (thread st u)" for u
    using p(1) by (simp_all add: p(2) idled_def start_keeps del: start_thread_simps(7))
  obtain tcb m r where sw: "bmk_cpu_sched_switch sy (bt_tcb (thread st2 nxt)) (mem (kheap st2), kregs st2) = (tcb, m, r)"
    by (metis prod_cases3)
  have ne: "current_thread st \<noteq> nxt" using assms(2) st' same(1) by (auto split: if_splits)
  note eq = sched_switch_eq [OF sw, of "current_thread st"]
  show thesis using that [of tcb m r] sw st' ne same by (simp add: eq)
qed

text \<open>Executions during which a thread does not run.\<close>

inductive sys_without :: "symbols \<Rightarrow> u32 \<Rightarrow> intr \<times> allocations \<Rightarrow> intr \<times> allocations \<Rightarrow> bool" for sy t where
  without_here: "sys_without sy t s s" if "current_thread (fst s) \<noteq> t"
| without_more: "sys_without sy t s s''" if "sys_without sy t s s'" "sys_step sy s' s''" "current_thread (fst s'') \<noteq> t"

lemma sys_without_kept:
  assumes "sys_without sy t s s'" "sys_inv sy s" "t \<in> set (threads (fst s))"
  shows "sys_inv sy s' \<and> t \<in> set (threads (fst s')) \<and> current_thread (fst s') \<noteq> t \<and> suspended_kept sy t s s'"
  using assms
proof (induction rule: sys_without.induct)
  case (without_here s)
  then show ?case by (auto simp: suspended_kept_def split: prod.split)
next
  case (without_more s s' s'')
  have i: "sys_inv sy s''" using sys_step_inv [of sy "fst s'" "snd s'" "fst s''" "snd s''"] without_more by simp
  have "suspended_kept sy t s' s'' \<and> t \<in> set (threads (fst s''))"
    using sys_step_suspended [of sy "fst s'" "snd s'" "fst s''" "snd s''" t] without_more by auto
  then show ?case using without_more i by (auto simp: suspended_kept_def split: prod.splits)
qed

lemma sys_without_start: "sys_without sy t s s' \<Longrightarrow> current_thread (fst s) \<noteq> t"
  by (induction rule: sys_without.induct) auto

text \<open>The frame a switch leaves, and what another switch finds of it.\<close>

lemma away_saves:
  assumes inv: "sched_inv sy L st" and room: "stack_room sy L st" and cur: "current_thread st \<in> set (threads st)"
    and away: "bmk_sched_away sy world st = Some st'" "current_thread st' \<noteq> current_thread st"
  shows "bt_tcb (thread st' (current_thread st)) = \<lparr>btcb_sp = esp (kregs st) - 16, btcb_ip = sym_switch_return sy\<rparr>"
    "region (esp (kregs st) - 16) 20 \<subseteq> stack_area sy L st (current_thread st)"
    "switch_frame (mem (kheap st')) (esp (kregs st) - 16) =
       [edi (kregs st), esi (kregs st), ebx (kregs st), ebp (kregs st), load32 (mem (kheap st)) (esp (kregs st))]"
proof -
  note a = bmk_sched_away_ok [OF inv room away(1)]
  obtain tcb m r where sw: "bmk_cpu_sched_switch sy (bt_tcb (thread st (current_thread st'))) (mem (kheap st), kregs st) = (tcb, m, r)"
    and st': "mem (kheap st') = m" "bt_tcb (thread st' (current_thread st)) = tcb"
    using away_switches [OF away] by metis
  show "bt_tcb (thread st' (current_thread st)) = \<lparr>btcb_sp = esp (kregs st) - 16, btcb_ip = sym_switch_return sy\<rparr>"
    using sw st' by (auto simp: switch_eq)
  show sub: "region (esp (kregs st) - 16) 20 \<subseteq> stack_area sy L st (current_thread st)"
    using room region_offset [of 4 20 24 "esp (kregs st) - 20"] by (auto simp: stack_room_def)
  have nxt: "current_thread st' \<in> set (threads st)" using a by auto
  have "region (btcb_sp (bt_tcb (thread st (current_thread st'))) - 4) 4 \<inter> region (esp (kregs st) - 16) 20 = {}"
    using sched_invD(11) [OF inv nxt away(2)] sub stack_areas_disjoint [OF inv _ _ away(2)] nxt cur by blast
  from switch_saves [OF this sw] st'(1) show "switch_frame (mem (kheap st')) (esp (kregs st) - 16) =
      [edi (kregs st), esi (kregs st), ebx (kregs st), ebp (kregs st), load32 (mem (kheap st)) (esp (kregs st))]" by simp
qed

lemma away_restores:
  assumes inv: "sys_inv sy (st, L)" and room: "stack_room sy L st"
    and away: "bmk_sched_away sy world st = Some st'" "current_thread st' = t" "t \<noteq> current_thread st"
    and tcb: "bt_tcb (thread st t) = \<lparr>btcb_sp = sp, btcb_ip = ip\<rparr>" and sub: "region sp 20 \<subseteq> stack_area sy L st t"
  shows "esp (kregs st') = sp" "eip (kregs st') = ip" "switch_frame (mem (kheap st')) sp = switch_frame (mem (kheap st)) sp"
proof -
  have sinv: "sched_inv sy L st" and cur: "current_thread st \<in> set (threads st) \<union> set (zombies st)"
    using inv by (simp_all add: sys_inv_def)
  note a = bmk_sched_away_ok [OF sinv room away(1)]
  obtain tcb' m r where sw: "bmk_cpu_sched_switch sy (bt_tcb (thread st t)) (mem (kheap st), kregs st) = (tcb', m, r)"
    and st': "mem (kheap st') = m" "kregs st' = r"
    using away_switches [OF away(1)] away(2,3) by metis
  have "kregs st' = (kregs st)\<lparr>esp := sp, eip := ip\<rparr>" using sw st' tcb by (simp add: switch_eq)
  then show "esp (kregs st') = sp" "eip (kregs st') = ip" by simp_all
  have "region (esp (kregs st) - 16) 16 \<subseteq> stack_area sy L st (current_thread st)"
    using room region_offset [of 4 16 24 "esp (kregs st) - 20"] by (auto simp: stack_room_def)
  moreover have "t \<in> set (threads st)" using a away(2) by auto
  ultimately have "region (esp (kregs st) - 16) 16 \<inter> region sp 20 = {}"
    using sub stack_areas_disjoint [OF sinv, of t "current_thread st"] cur away(3) by blast
  then show "switch_frame (mem (kheap st')) sp = switch_frame (mem (kheap st)) sp"
    using switch_keeps [OF sw] tcb st'(1) by simp
qed

text \<open>
  (C6) A thread that calls \<^verbatim>\<open>bmk_sched\<close> and loses the processor continues, whenever it is switched
  to again, behind its call: with the stack pointer, the return address and the callee-saved
  registers it had, whatever the other threads and the interrupts did in between.
\<close>

theorem thread_resumes_intact:
  assumes start: "sys_start sy st0" and reach: "sys_reach sy (st0, Map.empty) (st, L)"
    and cur: "current_thread st = t" "t \<in> set (threads st)" and room: "stack_room sy L st"
    and away: "bmk_sched_away sy world st = Some st1" and others: "sys_without sy t (st1, L) (st2, L2)"
    and room2: "stack_room sy L2 st2" and again: "bmk_sched_away sy world2 st2 = Some st3" "current_thread st3 = t"
  shows "eip (kregs st3) = sym_switch_return sy \<and>
    (\<exists>r. switch_return (mem (kheap st3), kregs st3) = (mem (kheap st3), r) \<and>
       eip r = load32 (mem (kheap st)) (esp (kregs st)) \<and> esp r = esp (kregs st) + 4 \<and> ebp r = ebp (kregs st) \<and>
       ebx r = ebx (kregs st) \<and> esi r = esi (kregs st) \<and> edi r = edi (kregs st))"
proof -
  have inv: "sys_inv sy (st, L)" using sys_reach_inv [OF reach sys_start_inv [OF start]] .
  then have sinv: "sched_inv sy L st" by (simp add: sys_inv_def)
  have inv1: "sys_inv sy (st1, L)" using sys_step_inv [OF sys_sched [OF room away] inv] .
  note a = bmk_sched_away_ok [OF sinv room away]
  have t1: "t \<in> set (threads st1)" "current_thread st1 \<noteq> t" using a cur sys_without_start [OF others] by auto
  note w = sys_without_kept [OF others inv1, simplified, OF t1(1)]
  define sp where "sp = esp (kregs st) - 16"
  note s1 = away_saves [OF sinv room _ away, unfolded cur(1), OF cur(2) t1(2), folded sp_def]
  have area: "stack_area sy L st1 t = stack_area sy L st t" using a by (intro stack_area_cong) blast
  have k: "stack_area sy L2 st2 t = stack_area sy L st t" "bt_tcb (thread st2 t) = \<lparr>btcb_sp = sp, btcb_ip = sym_switch_return sy\<rparr>"
      "\<And>x. x \<in> stack_area sy L st t \<Longrightarrow> mem (kheap st2) x = mem (kheap st1) x"
    using w s1(1) area by (auto simp: suspended_kept_def)
  have inv2: "sys_inv sy (st2, L2)" "t \<noteq> current_thread st2" using w by auto
  note s3 = away_restores [OF inv2(1) room2 again inv2(2) k(2)]
  have sub: "region sp 20 \<subseteq> stack_area sy L2 st2 t" using s1(2) k(1) by simp
  have "switch_frame (mem (kheap st2)) sp = switch_frame (mem (kheap st1)) sp"
    using k(3) s1(2) by (intro switch_frame_cong) blast
  then have "switch_frame (mem (kheap st3)) sp =
      [edi (kregs st), esi (kregs st), ebx (kregs st), ebp (kregs st), load32 (mem (kheap st)) (esp (kregs st))]"
    using s3(3) [OF sub] s1(3) by simp
  from switch_return_frame [OF this s3(1) [OF sub]] s3(2) [OF sub] show ?thesis by (simp add: sp_def)
qed

section \<open>A concrete execution\<close>

lemma bmk_sched_create_returns:
  assumes ok: "heap_ok (kheap st) L" and pages: "pages_left (kheap st) 33"
    and room: "4096 * (unat (current (kheap st)) + 33) \<le> unat (bmk_memsize (kheap st))"
  shows "\<exists>st' t. bmk_sched_create sy name cookie thrflags f data 0 0 st = Returns (st', t)"
proof -
  have n: "unat sizeof_thread = 60" "unat THREAD_STACKSIZE = 2 ^ 16" by (simp_all add: sizeof_thread_def THREAD_STACKSIZE_def)
  then have c: "core_pages (bucket_for (need_bytes sizeof_thread 0)) = 1" "need_bytes sizeof_thread 0 \<le> 2 ^ 31"
    "core_pages (bucket_for (need_bytes THREAD_STACKSIZE 0)) = 32" "need_bytes THREAD_STACKSIZE 0 \<le> 2 ^ 31"
    using one_page_request_size [of sizeof_thread] stack_request_size [of THREAD_STACKSIZE] by (simp_all add: need_bytes_0)
  obtain h1 t where h1: "bmk_xmalloc (kheap st) sizeof_thread = Returns (h1, t)"
    using bmk_xmalloc_returns [OF ok pages _ c(2) room] c(1) by auto
  have nb: "need_bytes sizeof_thread 0 < 2 ^ 32" using c(2) by simp
  note x1 = bmk_xmalloc_ok [OF ok h1 pages _ nb, unfolded c(1) n]
  have call: "bmk_memalloc (kheap st) sizeof_thread 0 = (h1, t)"
    using h1 by (auto simp: bmk_xmalloc_def split: prod.splits if_splits)
  note b = bmk_memalloc_bounds [OF ok nb, unfolded call fst_conv c(1)]
  define h1' where "h1' = h1\<lparr>mem := write_bytes (mem h1) t (replicate 60 0)\<rparr>"
  have "heap_ok h1' (L(t \<mapsto> 60))"
    unfolding h1'_def using x1(3) by (intro heap_ok_overwrite [of _ _ t 60]) (auto simp: write_bytes_outside)
  moreover have "pages_left h1' 32" using x1(6) by (simp add: pages_left_def h1'_def)
  moreover have "4096 * (unat (current h1') + 32) \<le> unat (bmk_memsize h1')" using room b by (simp add: h1'_def)
  ultimately obtain h2 sb where "bmk_xmalloc h1' THREAD_STACKSIZE = Returns (h2, sb)"
    using bmk_xmalloc_returns [OF _ _ _ c(4), of h1' "L(t \<mapsto> 60)" 32] c(3) by auto
  then show ?thesis
    using h1 unfolding h1'_def
    by (auto simp: bmk_sched_create_def create_stack_def stackalloc_def bmk_memset_def memset_loop_eq n Let_def split: prod.split)
qed

definition sample_sys :: intr where
  "sample_sys = sample_intr\<lparr>threads := [0x111000], current_thread := 0x111000,
     thread := (\<lambda>_. zero_thread\<lparr>bt_flags := THREAD_RUNNABLE\<rparr>)\<rparr>"

lemma sample_managed: "managed (kheap sample_sys) = {x. 0x200000 \<le> unat x \<and> unat x < 0x1200000}"
  by (simp add: managed_def sample_sys_def sample_intr_def sample_heap_def)

lemma sample_sys_start: "sys_start sample_symbols sample_sys"
proof -
  have "region 0x120000 (2 ^ 16) \<inter> managed (kheap sample_sys) = {}" "region 0x111000 60 \<inter> managed (kheap sample_sys) = {}"
    by (auto simp: sample_managed region_nowrap)
  then show ?thesis
    using sample_heap_start
    by (simp add: sys_start_def) (simp add: sample_sys_def sample_intr_def sample_symbols_def zero_thread_def thread_flags)
qed

text \<open>The initial thread creates a thread.\<close>

lemma sample_created:
  obtains st t where "sys_step sample_symbols (sample_sys, Map.empty) (st, created st t 0 Map.empty)"
    "threads st = [t, 0x111000]" "current_thread st = 0x111000" "is_runnable st t" "is_runnable st 0x111000"
    "kregs st = kregs sample_sys" "t \<noteq> 0x111000" "zombies st = []"
    "btcb_sp (bt_tcb (thread st t)) = bt_stackbase (thread st t) + 0xfff8"
proof -
  have ok: "sys_inv sample_symbols (sample_sys, Map.empty)" using sys_start_inv [OF sample_sys_start] .
  then have inv: "sched_inv sample_symbols Map.empty sample_sys" by (simp add: sys_inv_def)
  have kh: "kheap sample_sys = sample_heap" by (simp add: sample_sys_def sample_intr_def)
  obtain st t where call: "bmk_sched_create sample_symbols 0x101010 0 0 0x5000 77 0 0 sample_sys = Returns (st, t)"
    using bmk_sched_create_returns [OF sched_invD(1) [OF inv]] by (fastforce simp: kh pages_left_def sample_heap_def)
  have name: "name_ok (kheap sample_sys) Map.empty 0 0x101010"
  proof -
    have "mem (kheap sample_sys) 0x101010 = 0" by (simp add: kh sample_heap_def)
    then show ?thesis unfolding name_ok_def by (intro exI [of _ "[]"]) (simp add: region_Suc sample_managed)
  qed
  have step: "sys_step sample_symbols (sample_sys, Map.empty) (st, created st t 0 Map.empty)"
    using name call
    by (intro sys_thread t_create) (auto simp: sample_sys_def sample_intr_def pages_left_def sample_heap_def stack_arg_ok_def)
  note c = created_thread [OF call]
  have th: "threads st = [t, 0x111000]" "zombies st = []" "current_thread st = 0x111000"
    using c(1-3) by (simp_all add: sample_sys_def sample_intr_def)
  have "sched_inv sample_symbols (created st t 0 Map.empty) st" using sys_step_inv [OF step ok] by (simp add: sys_inv_def)
  then have ne: "t \<noteq> 0x111000" using sched_invD(2) th by force
  then have "is_runnable st 0x111000" using c(4) [of "0x111000"] by (simp add: is_runnable_def sample_sys_def thread_flags)
  moreover have "kregs st = kregs sample_sys \<and> btcb_sp (bt_tcb (thread st t)) = bt_stackbase (thread st t) + 0xfff8"
    using call by (elim bmk_sched_create_eq)
      (auto simp: create_stack_def bind_outcome_Returns new_thread_def THREAD_STACKSIZE_def split: if_splits)
  ultimately show thesis using that step th ne c(6) by blast
qed

theorem sched_reachable_safe_witness:
  "\<exists>st t. sys_reach sample_symbols (sample_sys, Map.empty) (st, created st t 0 Map.empty) \<and>
     threads st = [t, 0x111000] \<and> created st t 0 Map.empty t = Some 60"
proof -
  obtain st t where step: "sys_step sample_symbols (sample_sys, Map.empty) (st, created st t 0 Map.empty)"
    and th: "threads st = [t, 0x111000]" "t \<noteq> 0x111000" using sample_created by metis
  note reach = sys_more [OF sys_here step]
  have "t \<noteq> sym_init_thread sample_symbols" using th(2) by (simp add: sample_symbols_def)
  then have "created st t 0 Map.empty t = Some 60"
    using sched_reachable_safe [OF sample_sys_start reach] th(1) by simp
  then show ?thesis using reach th(1) by blast
qed

theorem suspended_isolated_witness:
  "\<exists>st L t. sys_reach sample_symbols (sample_sys, Map.empty) (st, L) \<and> t \<in> set (threads st) \<and>
     stack_area sample_symbols L (bmk_sched_wake 8 st) t = stack_area sample_symbols L st t"
proof -
  obtain st t where step: "sys_step sample_symbols (sample_sys, Map.empty) (st, created st t 0 Map.empty)"
    and th: "threads st = [t, 0x111000]" "t \<noteq> 0x111000" "current_thread st = 0x111000" using sample_created by metis
  note reach = sys_more [OF sys_here step]
  have "sys_step sample_symbols (st, created st t 0 Map.empty) (bmk_sched_wake 8 st, created st t 0 Map.empty)"
    using th by (intro sys_thread t_wake) simp
  moreover have "current_thread (bmk_sched_wake 8 st) = 0x111000" using th by (simp add: bmk_sched_wake_def set_runnable_def)
  ultimately have "stack_area sample_symbols (created st t 0 Map.empty) (bmk_sched_wake 8 st) t =
      stack_area sample_symbols (created st t 0 Map.empty) st t"
    using suspended_isolated [OF sample_sys_start reach, of "bmk_sched_wake 8 st" _ t] th by simp
  moreover have "t \<in> set (threads st)" using th by simp
  ultimately show ?thesis using reach by blast
qed

theorem bmk_sched_join_always_asserts_witness:
  "\<exists>st t. threads st = [t, 0x111000] \<and>
     bmk_sched_join t (st :: intr) = Halts (AssertFail ''joinable->bt_flags & THREAD_MUSTJOIN'')"
proof -
  obtain st t where step: "sys_step sample_symbols (sample_sys, Map.empty) (st, created st t 0 Map.empty)"
    and th: "threads st = [t, 0x111000]" using sample_created by metis
  from bmk_sched_join_always_asserts [OF sample_sys_start sys_more [OF sys_here step], of t] th show ?thesis by auto
qed

lemma away_first:
  assumes "threads st = [t, u]" "is_runnable st t" "t \<noteq> u" "current_thread st = u"
  shows "\<exists>st1. bmk_sched_away sy [(0, [])] st = Some st1 \<and> current_thread st1 = t \<and> threads st1 = [u, t] \<and>
    kregs st1 = (kregs st)\<lparr>esp := btcb_sp (bt_tcb (thread st t)), eip := btcb_ip (bt_tcb (thread st t))\<rparr> \<and>
    (\<forall>v. is_runnable st v \<longrightarrow> is_runnable st1 v)"
proof -
  have w: "sched_wake_due 0 t st = st" using assms(2) by (simp add: sched_wake_due_def)
  have d: "due 0 st t" using assms(2) by (simp add: due_def)
  have "sched_pick [(0, [])] st = Some (st\<lparr>threads := [u, t]\<rparr>, t, [])"
    using assms d w by (simp add: sched_scan_eq start_thread_def)
  then have "bmk_sched_away sy [(0, [])] st = Some (sched_switch sy u t (st\<lparr>threads := [u, t]\<rparr>))"
    using assms by (simp add: bmk_sched_away_def bmk_sched_current_def)
  then show ?thesis by (simp add: sched_switch_def switch_eq set_kmem_def Let_def is_runnable_def)
qed

theorem thread_resumes_intact_witness:
  "\<exists>st st1 st3 r. bmk_sched_away sample_symbols [(0, [])] st = Some st1 \<and> current_thread st1 \<noteq> 0x111000 \<and>
     bmk_sched_away sample_symbols [(0, [])] st1 = Some st3 \<and> current_thread st3 = 0x111000 \<and>
     switch_return (mem (kheap st3), kregs st3) = (mem (kheap (st3 :: intr)), r) \<and> esp r = 0x12f004 \<and> ebp r = 4"
proof -
  obtain st t where step: "sys_step sample_symbols (sample_sys, Map.empty) (st, created st t 0 Map.empty)"
    and th: "threads st = [t, 0x111000]" "current_thread st = 0x111000" "is_runnable st t" "is_runnable st 0x111000"
      "kregs st = kregs sample_sys" "t \<noteq> 0x111000"
      "btcb_sp (bt_tcb (thread st t)) = bt_stackbase (thread st t) + 0xfff8" using sample_created by metis
  let ?L = "created st t 0 Map.empty"
  have regs: "kregs st = sample_regs 0x12f000" using th(5) by (simp add: sample_sys_def sample_intr_def)
  obtain st1 where a: "bmk_sched_away sample_symbols [(0, [])] st = Some st1" "current_thread st1 = t"
      "threads st1 = [0x111000, t]" "esp (kregs st1) = bt_stackbase (thread st t) + 0xfff8" "is_runnable st1 0x111000"
    using away_first [OF th(1,3,6,2), of sample_symbols] th by auto
  obtain st3 where b: "bmk_sched_away sample_symbols [(0, [])] st1 = Some st3" "current_thread st3 = 0x111000"
    using away_first [OF a(3,5) _ a(2), of sample_symbols] th(6) by auto
  have "region (0x120000 + of_nat 0xefec) 24 \<subseteq> region 0x120000 (2 ^ 16)" by (rule region_offset) simp_all
  then have room: "stack_room sample_symbols ?L st"
    by (simp add: stack_room_def stack_area_def th(2) regs sample_regs_def sample_symbols_def)
  have inv: "sched_inv sample_symbols ?L st"
    using sys_step_inv [OF step sys_start_inv [OF sample_sys_start]] by (simp add: sys_inv_def)
  have "region (bt_stackbase (thread st t) + of_nat 0xffe4) 24 \<subseteq> region (bt_stackbase (thread st t)) (2 ^ 16)"
    by (rule region_offset) simp_all
  moreover have "bt_stackbase (thread st1 t) = bt_stackbase (thread st t)"
    using bmk_sched_away_ok [OF inv room a(1)] by blast
  ultimately have room1: "stack_room sample_symbols ?L st1" using th(6) a(2,4)
    by (simp add: stack_room_def stack_area_def created_def sample_symbols_def add.commute)
  have out: "sys_without sample_symbols 0x111000 (st1, ?L) (st1, ?L)" using a(2) th(6) by (intro without_here) simp
  have in_q: "0x111000 \<in> set (threads st)" using th(1) by simp
  show ?thesis
    using thread_resumes_intact [OF sample_sys_start sys_more [OF sys_here step] th(2) in_q room a(1) out room1 b] a b th(6) regs
    by (auto simp: sample_regs_def)
qed


end
