(* ===== verification/Fiber.thy ===== *)
theory Fiber
  imports System
begin

text \<open>
  The synchronisation primitives of \<^verbatim>\<open>rumpfiber.c\<close>: wait queues, mutexes, reader/writer locks and
  condition variables, on top of the scheduler. The objects are stores indexed by their address.
  A \<^verbatim>\<open>struct waiter\<close> is on the stack of the thread that waits, which waits in one place at a time:
  it is indexed by that thread, and the wait queues are lists of threads.
\<close>

section \<open>State\<close>

text \<open>The constants of \<^verbatim>\<open>rump/rumpuser.h\<close>, which belongs to the rump kernel.\<close>

record rumpuser_h =
  RUMPUSER_VERSION :: int
  RUMPUSER_MTX_SPIN :: u32
  RUMPUSER_MTX_KMUTEX :: u32
  RUMPUSER_RW_READER :: int
  RUMPUSER_RW_WRITER :: int
  RUMPUSER_LWP_CREATE :: int
  RUMPUSER_LWP_DESTROY :: int
  RUMPUSER_LWP_SET :: int
  RUMPUSER_LWP_CLEAR :: int

definition BMK_TLS_RUMPLWP :: u32 where "BMK_TLS_RUMPLWP = 0"
definition BMK_TLS_USERLWP :: u32 where "BMK_TLS_USERLWP = 1"

text \<open>The up-calls of the rump kernel that the code uses, as function pointers.\<close>

record rumpuser_hyperup =
  hyp_schedule :: u32
  hyp_unschedule :: u32
  hyp_lwproc_newlwp :: u32
  hyp_backend_unschedule :: u32
  hyp_backend_schedule :: u32

record waiter =
  who :: u32
  onlist :: bool

record rumpuser_mtx =
  mtx_waiters :: "u32 list"
  mtx_v :: int
  mtx_flags :: u32
  mtx_o :: u32

record rumpuser_rw =
  rw_rwait :: "u32 list"
  rw_wwait :: "u32 list"
  rw_v :: int
  rw_o :: u32

record rumpuser_cv =
  cv_waiters :: "u32 list"
  cv_nwaiters :: int

definition sizeof_mtx :: u32 where "sizeof_mtx = 20"
definition sizeof_rw :: u32 where "sizeof_rw = 24"
definition sizeof_cv :: u32 where "sizeof_cv = 12"

record fiber = intr +
  rumpuser__hyp :: rumpuser_hyperup
  waiters :: "u32 \<Rightarrow> waiter"
  mtx :: "u32 \<Rightarrow> rumpuser_mtx"
  rw :: "u32 \<Rightarrow> rumpuser_rw"
  cv :: "u32 \<Rightarrow> rumpuser_cv"

definition upd_mtx :: "u32 \<Rightarrow> (rumpuser_mtx \<Rightarrow> rumpuser_mtx) \<Rightarrow> fiber \<Rightarrow> fiber" where
  "upd_mtx m f st = st\<lparr>mtx := (mtx st)(m := f (mtx st m))\<rparr>"

definition upd_rw :: "u32 \<Rightarrow> (rumpuser_rw \<Rightarrow> rumpuser_rw) \<Rightarrow> fiber \<Rightarrow> fiber" where
  "upd_rw r f st = st\<lparr>rw := (rw st)(r := f (rw st r))\<rparr>"

definition upd_cv :: "u32 \<Rightarrow> (rumpuser_cv \<Rightarrow> rumpuser_cv) \<Rightarrow> fiber \<Rightarrow> fiber" where
  "upd_cv c f st = st\<lparr>cv := (cv st)(c := f (cv st c))\<rparr>"

text \<open>A \<^verbatim>\<open>struct waithead *\<close> points into one of the objects.\<close>

datatype waithead = MtxWaiters u32 | RwRwait u32 | RwWwait u32 | CvWaiters u32

fun waitq :: "waithead \<Rightarrow> fiber \<Rightarrow> u32 list" where
  "waitq (MtxWaiters m) st = mtx_waiters (mtx st m)"
| "waitq (RwRwait r) st = rw_rwait (rw st r)"
| "waitq (RwWwait r) st = rw_wwait (rw st r)"
| "waitq (CvWaiters c) st = cv_waiters (cv st c)"

fun set_waitq :: "waithead \<Rightarrow> u32 list \<Rightarrow> fiber \<Rightarrow> fiber" where
  "set_waitq (MtxWaiters m) ws = upd_mtx m (\<lambda>x. x\<lparr>mtx_waiters := ws\<rparr>)"
| "set_waitq (RwRwait r) ws = upd_rw r (\<lambda>x. x\<lparr>rw_rwait := ws\<rparr>)"
| "set_waitq (RwWwait r) ws = upd_rw r (\<lambda>x. x\<lparr>rw_wwait := ws\<rparr>)"
| "set_waitq (CvWaiters c) ws = upd_cv c (\<lambda>x. x\<lparr>cv_waiters := ws\<rparr>)"

section \<open>Wait queues\<close>

text \<open>
  \<^verbatim>\<open>wait\<close> up to its call of \<^verbatim>\<open>bmk_sched\<close>, and from there; \<open>now\<close> is what \<^verbatim>\<open>bmk_clock_now\<close> returns.
\<close>

definition wait_begin :: "waithead \<Rightarrow> u64 \<Rightarrow> u64 \<Rightarrow> fiber \<Rightarrow> fiber" where
  "wait_begin wh now nsec st =
     (let w = bmk_sched_current st;
          st = set_waitq wh (waitq wh st @ [w]) st;
          st = st\<lparr>waiters := (waiters st)(w := \<lparr>who = w, onlist = True\<rparr>)\<rparr>;
          st = bmk_sched_block w st
      in if nsec \<noteq> 0 then bmk_sched_setwakeup w (now + nsec) st else st)"

definition wait_end :: "waithead \<Rightarrow> fiber \<Rightarrow> fiber \<times> int" where
  "wait_end wh st =
     (let w = bmk_sched_current st
      in if onlist (waiters st w) then (set_waitq wh (remove1 w (waitq wh st)) st, ETIMEDOUT)
         else (st, 0))"

definition wakeup_one :: "waithead \<Rightarrow> fiber \<Rightarrow> fiber" where
  "wakeup_one wh st =
     (case waitq wh st of
        [] \<Rightarrow> st
      | w # ws \<Rightarrow>
          (let st = set_waitq wh ws st;
               st = st\<lparr>waiters := (waiters st)(w := (waiters st w)\<lparr>onlist := False\<rparr>)\<rparr>
           in bmk_sched_wake (who (waiters st w)) st))"

lemma fiber_upd_thread [simp]:
  "mtx (upd_thread t f st) = mtx st" "rw (upd_thread t f st) = rw st" "cv (upd_thread t f st) = cv st"
  "waiters (upd_thread t f st) = waiters st"
  by (simp_all add: upd_thread_def)

lemma waitq_upd_thread [simp]: "waitq wh (upd_thread t f st) = waitq wh st"
  by (cases wh) simp_all

lemma waitq_wake [simp]: "waitq wh (bmk_sched_wake t st) = waitq wh st"
  by (simp add: bmk_sched_wake_def set_runnable_def)

lemma waitq_set_waitq: "waitq wh' (set_waitq wh ws st) = (if wh' = wh then ws else waitq wh' st)"
  by (cases wh; cases wh') (simp_all add: upd_mtx_def upd_rw_def upd_cv_def)

lemma waitq_waiters [simp]: "waitq wh (st\<lparr>waiters := w\<rparr>) = waitq wh st"
  by (cases wh) simp_all

lemma waitq_wakeup_one: "waitq wh' (wakeup_one wh st) = (if wh' = wh then tl (waitq wh st) else waitq wh' st)"
  by (auto simp: wakeup_one_def Let_def waitq_set_waitq split: list.split)

function wakeup_all :: "waithead \<Rightarrow> fiber \<Rightarrow> fiber" where
  "wakeup_all wh st = (if waitq wh st = [] then st else wakeup_all wh (wakeup_one wh st))"
  by pat_completeness auto
termination
  by (relation "measure (\<lambda>(wh, st). length (waitq wh st))") (auto simp: waitq_wakeup_one)

declare wakeup_all.simps [simp del]

section \<open>Threads\<close>

definition rumpuser_init :: "rumpuser_h \<Rightarrow> int \<Rightarrow> rumpuser_hyperup \<Rightarrow> fiber \<Rightarrow> fiber \<times> int" where
  "rumpuser_init rc version hyp st =
     (if version \<noteq> RUMPUSER_VERSION rc then (st, EINVAL) else (st\<lparr>rumpuser__hyp := hyp\<rparr>, 0))"

definition rumpuser_thread_create ::
  "symbols \<Rightarrow> u32 \<Rightarrow> u32 \<Rightarrow> u32 \<Rightarrow> u32 \<Rightarrow> int \<Rightarrow> int \<Rightarrow> fiber \<Rightarrow> (fiber \<times> u32 \<times> int) outcome" where
  "rumpuser_thread_create sy f arg thrname joinable pri cpuidx st =
     bind_outcome (bmk_sched_create sy thrname 0 joinable f arg 0 0 st) (\<lambda>(st, thr).
       if thr = 0 then Returns (st, 0, EINVAL) else Returns (st, thr, 0))"

definition rumpuser_thread_exit :: "fiber \<Rightarrow> fiber \<times> exit_state" where
  "rumpuser_thread_exit st = bmk_sched_exit st"

definition rumpuser_thread_join :: "u32 \<Rightarrow> fiber \<Rightarrow> (fiber \<times> join_state) outcome" where
  "rumpuser_thread_join p st = bmk_sched_join p st"

definition rumpuser_curlwp :: "fiber \<Rightarrow> u32 outcome" where
  "rumpuser_curlwp st = bmk_sched_gettls st (bmk_sched_current st) BMK_TLS_RUMPLWP"

definition rumpuser_curlwpop :: "rumpuser_h \<Rightarrow> int \<Rightarrow> u32 \<Rightarrow> fiber \<Rightarrow> fiber outcome" where
  "rumpuser_curlwpop rc op l st =
     (if op = RUMPUSER_LWP_CREATE rc \<or> op = RUMPUSER_LWP_DESTROY rc then Returns st
      else if op = RUMPUSER_LWP_SET rc then
        bind_outcome (rumpuser_curlwp st) (\<lambda>c.
          if c = 0 then bmk_sched_settls (bmk_sched_current st) BMK_TLS_RUMPLWP l st
          else Halts (AssertFail ''rumpuser_curlwp() == NULL''))
      else if op = RUMPUSER_LWP_CLEAR rc then
        bind_outcome (rumpuser_curlwp st) (\<lambda>c.
          if c = l then bmk_sched_settls (bmk_sched_current st) BMK_TLS_RUMPLWP 0 st
          else Halts (AssertFail ''rumpuser_curlwp() == l''))
      else Returns st)"

section \<open>Suspended operations\<close>

text \<open>
  An operation gives up control where it calls \<^verbatim>\<open>bmk_sched\<close> in \<^verbatim>\<open>wait\<close> and where it calls the rump
  kernel through \<^verbatim>\<open>rumpkern_unsched\<close> and \<^verbatim>\<open>rumpkern_sched\<close>. A suspended operation is the place of
  that call with the local variables that are used afterwards.
\<close>

datatype cv_op = CvWait | CvWaitNowrap | CvTimedwait

datatype suspended =
    MutexUnsched u32
  | MutexWait u32 int
  | MutexSched u32 int
  | RwUnsched int u32
  | RwWait int u32 int
  | RwSched int u32 int
  | CvUnsched cv_op u32 u32 u64
  | CvWaiting cv_op u32 u32 int
  | CvSchedFirst cv_op u32 u32 int int
  | CvSchedLast cv_op u32 u32 int int

datatype request = BmkSched | HypUnschedule u32 | HypSchedule int u32

definition rumpkern_unsched :: "u32 \<Rightarrow> request" where
  "rumpkern_unsched interlock = HypUnschedule interlock"

definition rumpkern_sched :: "int \<Rightarrow> u32 \<Rightarrow> request" where
  "rumpkern_sched nlocks interlock = HypSchedule nlocks interlock"

text \<open>What a suspended operation is waiting for.\<close>

fun awaits :: "suspended \<Rightarrow> request" where
  "awaits (MutexUnsched m) = rumpkern_unsched 0"
| "awaits (MutexWait m nlocks) = BmkSched"
| "awaits (MutexSched m nlocks) = rumpkern_sched nlocks 0"
| "awaits (RwUnsched lk r) = rumpkern_unsched 0"
| "awaits (RwWait lk r nlocks) = BmkSched"
| "awaits (RwSched lk r nlocks) = rumpkern_sched nlocks 0"
| "awaits (CvUnsched k c m nsec) = rumpkern_unsched m"
| "awaits (CvWaiting k c m nlocks) = BmkSched"
| "awaits (CvSchedFirst k c m nlocks rv) = rumpkern_sched nlocks m"
| "awaits (CvSchedLast k c m nlocks rv) = rumpkern_sched nlocks m"

datatype progress = Done int | Suspended suspended

section \<open>Mutexes\<close>

definition rumpuser_mutex_init :: "u32 \<Rightarrow> fiber \<Rightarrow> (fiber \<times> u32) outcome" where
  "rumpuser_mutex_init flags st =
     bind_outcome (bmk_xmalloc (kheap st) sizeof_mtx) (\<lambda>(h, m).
       Returns (upd_mtx m (\<lambda>_. \<lparr>mtx_waiters = [], mtx_v = 0, mtx_flags = flags, mtx_o = 0\<rparr>)
         (st\<lparr>kheap := h\<lparr>mem := fst (bmk_memset (mem h) m 0 sizeof_mtx)\<rparr>\<rparr>), m))"

definition rumpuser_mutex_tryenter :: "u32 \<Rightarrow> fiber \<Rightarrow> (fiber \<times> int) outcome" where
  "rumpuser_mutex_tryenter m st =
     bind_outcome (bmk_sched_gettls st (bmk_sched_current st) BMK_TLS_RUMPLWP) (\<lambda>l.
       if mtx_v (mtx st m) \<noteq> 0 \<and> mtx_o (mtx st m) \<noteq> l then Returns (st, EBUSY)
       else Returns (upd_mtx m (\<lambda>x. x\<lparr>mtx_v := mtx_v x + 1, mtx_o := l\<rparr>) st, 0))"

text \<open>The loop of \<^verbatim>\<open>rumpuser_mutex_enter\<close>, up to the next place where it gives up control.\<close>

definition mutex_enter_loop :: "u32 \<Rightarrow> int \<Rightarrow> fiber \<Rightarrow> (fiber \<times> progress) outcome" where
  "mutex_enter_loop m nlocks st =
     bind_outcome (rumpuser_mutex_tryenter m st) (\<lambda>(st, rv).
       if rv \<noteq> 0 then Returns (wait_begin (MtxWaiters m) 0 0 st, Suspended (MutexWait m nlocks))
       else Returns (st, Suspended (MutexSched m nlocks)))"

definition rumpuser_mutex_enter :: "u32 \<Rightarrow> fiber \<Rightarrow> (fiber \<times> progress) outcome" where
  "rumpuser_mutex_enter m st =
     bind_outcome (rumpuser_mutex_tryenter m st) (\<lambda>(st, rv).
       if rv \<noteq> 0 then Returns (st, Suspended (MutexUnsched m)) else Returns (st, Done 0))"

definition rumpuser_mutex_enter_nowrap :: "u32 \<Rightarrow> fiber \<Rightarrow> fiber outcome" where
  "rumpuser_mutex_enter_nowrap m st =
     bind_outcome (rumpuser_mutex_tryenter m st) (\<lambda>(st, rv).
       if rv \<noteq> 0 then Halts (Panic ''spin mutex error'') else Returns st)"

definition rumpuser_mutex_exit :: "u32 \<Rightarrow> fiber \<Rightarrow> fiber outcome" where
  "rumpuser_mutex_exit m st =
     (if mtx_v (mtx st m) > 0 then
        (let st = upd_mtx m (\<lambda>x. x\<lparr>mtx_v := mtx_v x - 1\<rparr>) st
         in if mtx_v (mtx st m) = 0 then
              Returns (wakeup_one (MtxWaiters m) (upd_mtx m (\<lambda>x. x\<lparr>mtx_o := 0\<rparr>) st))
            else Returns st)
      else Halts (AssertFail ''mtx->v > 0''))"

definition rumpuser_mutex_destroy :: "u32 \<Rightarrow> fiber \<Rightarrow> fiber outcome" where
  "rumpuser_mutex_destroy m st =
     (if mtx_waiters (mtx st m) = [] \<and> mtx_o (mtx st m) = 0 then
        bind_outcome (bmk_memfree (kheap st) m) (\<lambda>h. Returns (st\<lparr>kheap := h\<rparr>))
      else Halts (AssertFail ''TAILQ_EMPTY(&mtx->waiters) && mtx->o == NULL''))"

definition rumpuser_mutex_owner :: "u32 \<Rightarrow> fiber \<Rightarrow> u32" where
  "rumpuser_mutex_owner m st = mtx_o (mtx st m)"

section \<open>Reader/writer locks\<close>

definition rumpuser_rw_init :: "fiber \<Rightarrow> (fiber \<times> u32) outcome" where
  "rumpuser_rw_init st =
     bind_outcome (bmk_xmalloc (kheap st) sizeof_rw) (\<lambda>(h, r).
       Returns (upd_rw r (\<lambda>_. \<lparr>rw_rwait = [], rw_wwait = [], rw_v = 0, rw_o = 0\<rparr>)
         (st\<lparr>kheap := h\<lparr>mem := fst (bmk_memset (mem h) r 0 sizeof_rw)\<rparr>\<rparr>), r))"

definition rumpuser_rw_tryenter :: "rumpuser_h \<Rightarrow> int \<Rightarrow> u32 \<Rightarrow> fiber \<Rightarrow> (fiber \<times> int) outcome" where
  "rumpuser_rw_tryenter rc lk r st =
     (if lk = RUMPUSER_RW_WRITER rc then
        if rw_o (rw st r) = 0 then
          bind_outcome (rumpuser_curlwp st) (\<lambda>l. Returns (upd_rw r (\<lambda>x. x\<lparr>rw_o := l\<rparr>) st, 0))
        else Returns (st, EBUSY)
      else if lk = RUMPUSER_RW_READER rc then
        if rw_o (rw st r) = 0 \<and> rw_wwait (rw st r) = [] then
          Returns (upd_rw r (\<lambda>x. x\<lparr>rw_v := rw_v x + 1\<rparr>) st, 0)
        else Returns (st, EBUSY)
      else Returns (st, EINVAL))"

definition rw_waithead :: "rumpuser_h \<Rightarrow> int \<Rightarrow> u32 \<Rightarrow> waithead option" where
  "rw_waithead rc lk r =
     (if lk = RUMPUSER_RW_WRITER rc then Some (RwWwait r)
      else if lk = RUMPUSER_RW_READER rc then Some (RwRwait r) else None)"

text \<open>With any other \<^verbatim>\<open>lk\<close> the loop waits on a queue at the null pointer.\<close>

definition rw_enter_loop :: "rumpuser_h \<Rightarrow> int \<Rightarrow> u32 \<Rightarrow> int \<Rightarrow> fiber \<Rightarrow> (fiber \<times> progress) outcome" where
  "rw_enter_loop rc lk r nlocks st =
     bind_outcome (rumpuser_rw_tryenter rc lk r st) (\<lambda>(st, rv).
       if rv \<noteq> 0 then
         (case rw_waithead rc lk r of
            None \<Rightarrow> Halts WildStore
          | Some w \<Rightarrow> Returns (wait_begin w 0 0 st, Suspended (RwWait lk r nlocks)))
       else Returns (st, Suspended (RwSched lk r nlocks)))"

definition rumpuser_rw_enter :: "rumpuser_h \<Rightarrow> int \<Rightarrow> u32 \<Rightarrow> fiber \<Rightarrow> (fiber \<times> progress) outcome" where
  "rumpuser_rw_enter rc lk r st =
     bind_outcome (rumpuser_rw_tryenter rc lk r st) (\<lambda>(st, rv).
       if rv \<noteq> 0 then Returns (st, Suspended (RwUnsched lk r)) else Returns (st, Done 0))"

definition rumpuser_rw_exit :: "u32 \<Rightarrow> fiber \<Rightarrow> fiber" where
  "rumpuser_rw_exit r st =
     (let st = (if rw_o (rw st r) \<noteq> 0 then upd_rw r (\<lambda>x. x\<lparr>rw_o := 0\<rparr>) st
                else upd_rw r (\<lambda>x. x\<lparr>rw_v := rw_v x - 1\<rparr>) st)
      in if rw_wwait (rw st r) \<noteq> [] then
           if rw_o (rw st r) = 0 then wakeup_one (RwWwait r) st else st
         else if rw_rwait (rw st r) \<noteq> [] \<and> rw_o (rw st r) = 0 then wakeup_all (RwRwait r) st
         else st)"

definition rumpuser_rw_destroy :: "u32 \<Rightarrow> fiber \<Rightarrow> fiber outcome" where
  "rumpuser_rw_destroy r st = bind_outcome (bmk_memfree (kheap st) r) (\<lambda>h. Returns (st\<lparr>kheap := h\<rparr>))"

text \<open>The result is what is stored through \<^verbatim>\<open>rvp\<close>, if anything is.\<close>

definition rumpuser_rw_held :: "rumpuser_h \<Rightarrow> int \<Rightarrow> u32 \<Rightarrow> fiber \<Rightarrow> int option outcome" where
  "rumpuser_rw_held rc lk r st =
     (if lk = RUMPUSER_RW_WRITER rc then
        bind_outcome (rumpuser_curlwp st) (\<lambda>l. Returns (Some (of_bool (rw_o (rw st r) = l))))
      else if lk = RUMPUSER_RW_READER rc then Returns (Some (of_bool (rw_v (rw st r) > 0)))
      else Returns None)"

definition rumpuser_rw_downgrade :: "u32 \<Rightarrow> fiber \<Rightarrow> fiber outcome" where
  "rumpuser_rw_downgrade r st =
     bind_outcome (rumpuser_curlwp st) (\<lambda>l.
       if rw_o (rw st r) = l then Returns (upd_rw r (\<lambda>x. x\<lparr>rw_v := - 1\<rparr>) st)
       else Halts (AssertFail ''rw->o == rumpuser_curlwp()''))"

definition rumpuser_rw_tryupgrade :: "u32 \<Rightarrow> fiber \<Rightarrow> (fiber \<times> int) outcome" where
  "rumpuser_rw_tryupgrade r st =
     (if rw_v (rw st r) = - 1 then
        bind_outcome (rumpuser_curlwp st) (\<lambda>l.
          Returns (upd_rw r (\<lambda>x. x\<lparr>rw_v := 1, rw_o := l\<rparr>) st, 0))
      else Returns (st, EBUSY))"

section \<open>Condition variables\<close>

definition rumpuser_cv_init :: "fiber \<Rightarrow> (fiber \<times> u32) outcome" where
  "rumpuser_cv_init st =
     bind_outcome (bmk_xmalloc (kheap st) sizeof_cv) (\<lambda>(h, c).
       Returns (upd_cv c (\<lambda>_. \<lparr>cv_waiters = [], cv_nwaiters = 0\<rparr>)
         (st\<lparr>kheap := h\<lparr>mem := fst (bmk_memset (mem h) c 0 sizeof_cv)\<rparr>\<rparr>), c))"

definition rumpuser_cv_destroy :: "u32 \<Rightarrow> fiber \<Rightarrow> fiber outcome" where
  "rumpuser_cv_destroy c st =
     (if cv_nwaiters (cv st c) = 0 then
        bind_outcome (bmk_memfree (kheap st) c) (\<lambda>h. Returns (st\<lparr>kheap := h\<rparr>))
      else Halts (AssertFail ''cv->nwaiters == 0''))"

definition add_nwaiters :: "u32 \<Rightarrow> int \<Rightarrow> fiber \<Rightarrow> fiber" where
  "add_nwaiters c n = upd_cv c (\<lambda>x. x\<lparr>cv_nwaiters := cv_nwaiters x + n\<rparr>)"

text \<open>\<^verbatim>\<open>cv_unsched\<close> after its up-call, and the wait that follows it in both of its callers.\<close>

definition cv_unsched_rest :: "cv_op \<Rightarrow> u32 \<Rightarrow> u32 \<Rightarrow> u64 \<Rightarrow> u64 \<Rightarrow> int \<Rightarrow> fiber \<Rightarrow> (fiber \<times> progress) outcome" where
  "cv_unsched_rest k c m nsec now nlocks st =
     bind_outcome (rumpuser_mutex_exit m st) (\<lambda>st.
       Returns (wait_begin (CvWaiters c) now nsec st, Suspended (CvWaiting k c m nlocks)))"

definition cv_result :: "cv_op \<Rightarrow> int \<Rightarrow> int" where
  "cv_result k rv = (if k = CvTimedwait then rv else 0)"

definition cv_resched :: "rumpuser_h \<Rightarrow> cv_op \<Rightarrow> u32 \<Rightarrow> u32 \<Rightarrow> int \<Rightarrow> int \<Rightarrow> fiber \<Rightarrow> (fiber \<times> progress) outcome" where
  "cv_resched rc k c m nlocks rv st =
     (let both = RUMPUSER_MTX_KMUTEX rc OR RUMPUSER_MTX_SPIN rc
      in if mtx_flags (mtx st m) AND both = both then Returns (st, Suspended (CvSchedFirst k c m nlocks rv))
         else
           bind_outcome (rumpuser_mutex_enter_nowrap m st) (\<lambda>st.
             Returns (st, Suspended (CvSchedLast k c m nlocks rv))))"

definition rumpuser_cv_wait :: "u32 \<Rightarrow> u32 \<Rightarrow> fiber \<Rightarrow> fiber \<times> progress" where
  "rumpuser_cv_wait c m st = (add_nwaiters c 1 st, Suspended (CvUnsched CvWait c m 0))"

definition rumpuser_cv_wait_nowrap :: "u32 \<Rightarrow> u32 \<Rightarrow> fiber \<Rightarrow> (fiber \<times> progress) outcome" where
  "rumpuser_cv_wait_nowrap c m st =
     (let st = add_nwaiters c 1 st
      in bind_outcome (rumpuser_mutex_exit m st) (\<lambda>st.
           Returns (wait_begin (CvWaiters c) 0 0 st, Suspended (CvWaiting CvWaitNowrap c m 0))))"

definition rumpuser_cv_timedwait :: "u32 \<Rightarrow> u32 \<Rightarrow> u64 \<Rightarrow> u64 \<Rightarrow> fiber \<Rightarrow> fiber \<times> progress" where
  "rumpuser_cv_timedwait c m sec nsec st =
     (add_nwaiters c 1 st, Suspended (CvUnsched CvTimedwait c m (sec * 1000 * 1000 * 1000 + nsec)))"

definition rumpuser_cv_signal :: "u32 \<Rightarrow> fiber \<Rightarrow> fiber" where
  "rumpuser_cv_signal c = wakeup_one (CvWaiters c)"

definition rumpuser_cv_broadcast :: "u32 \<Rightarrow> fiber \<Rightarrow> fiber" where
  "rumpuser_cv_broadcast c = wakeup_all (CvWaiters c)"

definition rumpuser_cv_has_waiters :: "u32 \<Rightarrow> fiber \<Rightarrow> int" where
  "rumpuser_cv_has_waiters c st = of_bool (cv_nwaiters (cv st c) \<noteq> 0)"

section \<open>Continuing a suspended operation\<close>

text \<open>
  \<open>nlocks\<close> is what \<^verbatim>\<open>hyp_backend_unschedule\<close> stored, \<open>now\<close> is the time \<^verbatim>\<open>bmk_clock_now\<close> returns.
\<close>

fun continue :: "rumpuser_h \<Rightarrow> int \<Rightarrow> u64 \<Rightarrow> suspended \<Rightarrow> fiber \<Rightarrow> (fiber \<times> progress) outcome" where
  "continue rc n now (MutexUnsched m) st = mutex_enter_loop m n st"
| "continue rc n now (MutexWait m nlocks) st = mutex_enter_loop m nlocks (fst (wait_end (MtxWaiters m) st))"
| "continue rc n now (MutexSched m nlocks) st = Returns (st, Done 0)"
| "continue rc n now (RwUnsched lk r) st = rw_enter_loop rc lk r n st"
| "continue rc n now (RwWait lk r nlocks) st =
     (case rw_waithead rc lk r of
        None \<Rightarrow> Halts WildStore
      | Some w \<Rightarrow> rw_enter_loop rc lk r nlocks (fst (wait_end w st)))"
| "continue rc n now (RwSched lk r nlocks) st = Returns (st, Done 0)"
| "continue rc n now (CvUnsched k c m nsec) st = cv_unsched_rest k c m nsec now n st"
| "continue rc n now (CvWaiting k c m nlocks) st =
     (case wait_end (CvWaiters c) st of
        (st, rv) \<Rightarrow>
          if k = CvWaitNowrap then
            bind_outcome (rumpuser_mutex_enter_nowrap m st) (\<lambda>st. Returns (add_nwaiters c (- 1) st, Done 0))
          else cv_resched rc k c m nlocks rv st)"
| "continue rc n now (CvSchedFirst k c m nlocks rv) st =
     bind_outcome (rumpuser_mutex_enter_nowrap m st) (\<lambda>st. Returns (add_nwaiters c (- 1) st, Done (cv_result k rv)))"
| "continue rc n now (CvSchedLast k c m nlocks rv) st = Returns (add_nwaiters c (- 1) st, Done (cv_result k rv))"

end
