(* ===== verification/Fiberinv.thy ===== *)
theory Fiberinv
  imports Fiber
begin

text \<open>
  Threads that use the primitives of \<^verbatim>\<open>rumpfiber.c\<close> concurrently: a transition system over the
  kernel state and the suspended operations of each thread, and what its states satisfy.
\<close>

section \<open>The transition system\<close>

text \<open>
  The suspended operations of a thread, innermost first: in an up-call the rump kernel may use the
  primitives again.
\<close>

type_synonym calls = "u32 \<Rightarrow> suspended list"

definition blocked :: "calls \<Rightarrow> u32 \<Rightarrow> bool" where
  "blocked C t \<longleftrightarrow> C t \<noteq> [] \<and> awaits (hd (C t)) = BmkSched"

fun push :: "progress \<Rightarrow> suspended list \<Rightarrow> suspended list" where
  "push (Done rv) ps = ps"
| "push (Suspended s) ps = s # ps"

definition lwp :: "fiber \<Rightarrow> u32 \<Rightarrow> u32" where
  "lwp st t = bt_tls (thread st t) 0"

text \<open>The objects a suspended operation works on.\<close>

fun mentions :: "suspended \<Rightarrow> u32 set" where
  "mentions (MutexUnsched m) = {m}"
| "mentions (MutexWait m nlocks) = {m}"
| "mentions (MutexSched m nlocks) = {m}"
| "mentions (RwUnsched lk r) = {r}"
| "mentions (RwWait lk r nlocks) = {r}"
| "mentions (RwSched lk r nlocks) = {r}"
| "mentions (CvUnsched k c m nsec) = {c, m}"
| "mentions (CvWaiting k c m nlocks) = {c, m}"
| "mentions (CvSchedFirst k c m nlocks rv) = {c, m}"
| "mentions (CvSchedLast k c m nlocks rv) = {c, m}"

definition unused :: "calls \<Rightarrow> u32 \<Rightarrow> bool" where
  "unused C x \<longleftrightarrow> (\<forall>t. \<forall>s \<in> set (C t). x \<notin> mentions s)"

text \<open>
  The rest of the kernel: interrupts, thread creation and exit, sleep and so on. It does not touch
  the objects, and a thread with a suspended operation stays on the queue of the scheduler; if it
  is inside \<^verbatim>\<open>wait\<close> it stays runnable when it is, and keeps its lwp.
\<close>

definition elsewhere :: "calls \<Rightarrow> fiber \<Rightarrow> fiber \<Rightarrow> bool" where
  "elsewhere C st st' \<longleftrightarrow> intr.more st' = intr.more st \<and>
     (\<forall>t. C t \<noteq> [] \<and> t \<in> set (threads st) \<longrightarrow> t \<in> set (threads st')) \<and>
     (\<forall>t. blocked C t \<longrightarrow> (is_runnable st t \<longrightarrow> is_runnable st' t) \<and> lwp st' t = lwp st t)"

text \<open>
  An operation the current thread calls. The guards are what \<^verbatim>\<open>rumpuser(3)\<close> asks of the callers:
  reader/writer locks are used by threads that have an lwp and with one of the two lock types, and
  the allocator does not return the address of an object in use.
\<close>

inductive fiber_call :: "rumpuser_h \<Rightarrow> calls \<Rightarrow> fiber \<Rightarrow> fiber \<Rightarrow> progress \<Rightarrow> bool" for rc C st where
  c_mutex_init: "fiber_call rc C st st' (Done 0)" if "rumpuser_mutex_init flags st = Returns (st', m)" "unused C m"
| c_mutex_enter: "fiber_call rc C st st' res" if "rumpuser_mutex_enter m st = Returns (st', res)"
| c_mutex_enter_nowrap: "fiber_call rc C st st' (Done 0)" if "rumpuser_mutex_enter_nowrap m st = Returns st'"
| c_mutex_tryenter: "fiber_call rc C st st' (Done rv)" if "rumpuser_mutex_tryenter m st = Returns (st', rv)"
| c_mutex_exit: "fiber_call rc C st st' (Done 0)" if "rumpuser_mutex_exit m st = Returns st'"
| c_mutex_destroy: "fiber_call rc C st st' (Done 0)" if "rumpuser_mutex_destroy m st = Returns st'"
| c_rw_init: "fiber_call rc C st st' (Done 0)" if "rumpuser_rw_init st = Returns (st', r)" "unused C r"
| c_rw_enter: "fiber_call rc C st st' res" if "rumpuser_rw_enter rc lk r st = Returns (st', res)"
    "lwp st (current_thread st) \<noteq> 0" "lk = RUMPUSER_RW_READER rc \<or> lk = RUMPUSER_RW_WRITER rc"
| c_rw_tryenter: "fiber_call rc C st st' (Done rv)" if "rumpuser_rw_tryenter rc lk r st = Returns (st', rv)"
    "lwp st (current_thread st) \<noteq> 0"
| c_rw_exit: "fiber_call rc C st (rumpuser_rw_exit r st) (Done 0)"
| c_rw_downgrade: "fiber_call rc C st st' (Done 0)" if "rumpuser_rw_downgrade r st = Returns st'"
| c_rw_tryupgrade: "fiber_call rc C st st' (Done rv)" if "rumpuser_rw_tryupgrade r st = Returns (st', rv)"
    "lwp st (current_thread st) \<noteq> 0"
| c_rw_destroy: "fiber_call rc C st st' (Done 0)" if "rumpuser_rw_destroy r st = Returns st'"
| c_cv_init: "fiber_call rc C st st' (Done 0)" if "rumpuser_cv_init st = Returns (st', c)" "unused C c"
| c_cv_wait: "fiber_call rc C st st' res" if "rumpuser_cv_wait c m st = (st', res)"
| c_cv_wait_nowrap: "fiber_call rc C st st' res" if "rumpuser_cv_wait_nowrap c m st = Returns (st', res)"
| c_cv_timedwait: "fiber_call rc C st st' res" if "rumpuser_cv_timedwait c m sec nsec st = (st', res)"
| c_cv_signal: "fiber_call rc C st (rumpuser_cv_signal c st) (Done 0)"
| c_cv_broadcast: "fiber_call rc C st (rumpuser_cv_broadcast c st) (Done 0)"
| c_cv_destroy: "fiber_call rc C st st' (Done 0)" if "rumpuser_cv_destroy c st = Returns st'"
| c_curlwpop: "fiber_call rc C st st' (Done 0)" if "rumpuser_curlwpop rc op l st = Returns st'"

text \<open>
  A step: the current thread calls an operation, or an up-call returns to a suspended operation, or
  the current thread gives the processor to a thread that continues its own call of \<^verbatim>\<open>bmk_sched\<close>,
  in \<^verbatim>\<open>wait\<close> or elsewhere.
\<close>

inductive fiber_step :: "rumpuser_h \<Rightarrow> symbols \<Rightarrow> fiber \<times> calls \<Rightarrow> fiber \<times> calls \<Rightarrow> bool" for rc sy where
  f_call: "fiber_step rc sy (st, C) (st', C(current_thread st := push res (C (current_thread st))))"
    if "current_thread st \<in> set (threads st)" "\<not> blocked C (current_thread st)" "fiber_call rc C st st' res"
| f_return: "fiber_step rc sy (st, C) (st', C(current_thread st := push res ps))"
    if "C (current_thread st) = s # ps" "awaits s \<noteq> BmkSched" "continue rc n now s st = Returns (st', res)"
      "\<And>lk r. s = RwUnsched lk r \<Longrightarrow> lwp st (current_thread st) \<noteq> 0"
| f_sched_wait: "fiber_step rc sy (st, C) (st', C(current_thread st1 := push res ps))"
    if "bmk_sched_away sy world st = Some st1" "C (current_thread st1) = s # ps" "awaits s = BmkSched"
      "bmk_sched_resume (current_thread st1) st1 = Returns st2" "continue rc n now s st2 = Returns (st', res)"
| f_sched_other: "fiber_step rc sy (st, C) (st1, C)"
    if "bmk_sched_away sy world st = Some st1" "\<not> blocked C (current_thread st1)"
| f_elsewhere: "fiber_step rc sy (st, C) (st', C)" if "elsewhere C st st'" "current_thread st' = current_thread st"

inductive fiber_reach :: "rumpuser_h \<Rightarrow> symbols \<Rightarrow> fiber \<times> calls \<Rightarrow> fiber \<times> calls \<Rightarrow> bool" for rc sy where
  fiber_here: "fiber_reach rc sy s s"
| fiber_more: "fiber_reach rc sy s s''" if "fiber_reach rc sy s s'" "fiber_step rc sy s' s''"

text \<open>The start: no operation is suspended and every wait queue is empty.\<close>

definition fiber_start :: "fiber \<Rightarrow> bool" where
  "fiber_start st \<longleftrightarrow> (\<forall>wh. waitq wh st = []) \<and> (\<forall>c. cv_nwaiters (cv st c) = 0) \<and>
     (\<forall>m. mtx_v (mtx st m) = 0)"

section \<open>The wait queues\<close>

fun waits_on :: "rumpuser_h \<Rightarrow> suspended \<Rightarrow> waithead option" where
  "waits_on rc (MutexWait m nlocks) = Some (MtxWaiters m)"
| "waits_on rc (RwWait lk r nlocks) = rw_waithead rc lk r"
| "waits_on rc (CvWaiting k c m nlocks) = Some (CvWaiters c)"
| "waits_on rc s = None"

definition waiting :: "rumpuser_h \<Rightarrow> calls \<Rightarrow> u32 \<Rightarrow> waithead \<Rightarrow> bool" where
  "waiting rc C t wh \<longleftrightarrow> (\<exists>s ps. C t = s # ps \<and> waits_on rc s = Some wh)"

definition woken :: "rumpuser_h \<Rightarrow> fiber \<Rightarrow> calls \<Rightarrow> u32 \<Rightarrow> waithead \<Rightarrow> bool" where
  "woken rc st C t wh \<longleftrightarrow> waiting rc C t wh \<and> \<not> onlist (waiters st t)"

text \<open>
  Operations are suspended in order, a wait queue has exactly the threads that wait on it and have
  not been taken off, a thread that has been taken off is runnable, and writers have an lwp.
\<close>

definition stack_ok :: "rumpuser_h \<Rightarrow> suspended list \<Rightarrow> bool" where
  "stack_ok rc ps \<longleftrightarrow> (\<forall>x \<in> set (tl ps). awaits x \<noteq> BmkSched) \<and> (\<forall>s \<in> set ps. awaits s = BmkSched \<longrightarrow> waits_on rc s \<noteq> None)"

definition wait_inv :: "rumpuser_h \<Rightarrow> fiber \<Rightarrow> calls \<Rightarrow> bool" where
  "wait_inv rc st C \<longleftrightarrow>
     (\<forall>t. stack_ok rc (C t) \<and> (C t \<noteq> [] \<longrightarrow> t \<in> set (threads st))) \<and>
     (\<forall>wh. distinct (waitq wh st)) \<and>
     (\<forall>wh t. t \<in> set (waitq wh st) \<longleftrightarrow> waiting rc C t wh \<and> onlist (waiters st t)) \<and>
     (\<forall>wh t. waiting rc C t wh \<longrightarrow> who (waiters st t) = t \<and> (onlist (waiters st t) \<or> is_runnable st t) \<and>
        (\<forall>r. wh = RwWwait r \<longrightarrow> lwp st t \<noteq> 0))"

lemma waits_on_BmkSched: "waits_on rc s = Some wh \<Longrightarrow> awaits s = BmkSched"
  by (cases s) simp_all

lemma waiting_blocked: "waiting rc C t wh \<Longrightarrow> blocked C t"
  by (auto simp: waiting_def blocked_def intro: waits_on_BmkSched)

lemma blocked_waiting:
  assumes "stack_ok rc (C t)" "blocked C t"
  shows "\<exists>wh. waiting rc C t wh"
  using assms by (cases "C t") (auto simp: stack_ok_def blocked_def waiting_def)

lemma waiting_upd: "waiting rc (C(t := ps)) u wh \<longleftrightarrow>
  (if u = t then ps \<noteq> [] \<and> waits_on rc (hd ps) = Some wh else waiting rc C u wh)"
  by (auto simp: waiting_def neq_Nil_conv)

lemma waiting_unique: "waiting rc C t wh \<Longrightarrow> waiting rc C t wh' \<Longrightarrow> wh' = wh"
  by (auto simp: waiting_def)

text \<open>The invariant depends on these parts of the state only.\<close>

definition same_waits :: "calls \<Rightarrow> fiber \<Rightarrow> fiber \<Rightarrow> bool" where
  "same_waits C st st' \<longleftrightarrow> (\<forall>wh. waitq wh st' = waitq wh st) \<and> waiters st' = waiters st \<and>
     (\<forall>t. C t \<noteq> [] \<and> t \<in> set (threads st) \<longrightarrow> t \<in> set (threads st')) \<and>
     (\<forall>t. blocked C t \<longrightarrow> (is_runnable st t \<longrightarrow> is_runnable st' t) \<and> lwp st' t = lwp st t)"

lemma wait_inv_same:
  assumes "wait_inv rc st C" "same_waits C st st'"
  shows "wait_inv rc st' C"
  using assms waiting_blocked [of rc C] unfolding wait_inv_def same_waits_def by metis

text \<open>A non-waiting thread may be in any operation.\<close>

lemma wait_inv_stack:
  assumes inv: "wait_inv rc st C" and t: "\<not> blocked C t" and ps: "\<And>s. s \<in> set ps \<Longrightarrow> awaits s \<noteq> BmkSched"
    and q: "ps \<noteq> [] \<Longrightarrow> t \<in> set (threads st)"
  shows "wait_inv rc st (C(t := ps))"
proof -
  have "waiting rc (C(t := ps)) u wh \<longleftrightarrow> waiting rc C u wh" for u wh
    using waiting_blocked [of rc C t wh] t ps [of "hd ps"] waits_on_BmkSched [of rc "hd ps" wh]
    by (auto simp: waiting_upd)
  moreover have "stack_ok rc ps" using ps by (cases ps) (auto simp: stack_ok_def)
  ultimately show ?thesis using inv q by (simp add: wait_inv_def)
qed

lemma wakeup_one_fields:
  "threads (wakeup_one wh st) = threads st" "current_thread (wakeup_one wh st) = current_thread st"
  "lwp (wakeup_one wh st) t = lwp st t"
  by (cases wh; auto simp: wakeup_one_def Let_def bmk_sched_wake_def set_runnable_def upd_mtx_def upd_rw_def upd_cv_def
      lwp_def upd_thread_def split: list.split)+

lemma set_waitq_thread [simp]:
  "thread (set_waitq wh ws st) = thread st" "waiters (set_waitq wh ws st) = waiters st"
  "threads (set_waitq wh ws st) = threads st" "current_thread (set_waitq wh ws st) = current_thread st"
  "kheap (set_waitq wh ws st) = kheap st"
  by (cases wh; simp add: upd_mtx_def upd_rw_def upd_cv_def)+

lemma wakeup_one_Nil: "waitq wh st = [] \<Longrightarrow> wakeup_one wh st = st"
  by (simp add: wakeup_one_def)

lemma wakeup_one_Cons:
  assumes "waitq wh st = w # ws" "who (waiters st w) = w"
  shows "waiters (wakeup_one wh st) = (waiters st)(w := (waiters st w)\<lparr>onlist := False\<rparr>)"
    "is_runnable (wakeup_one wh st) t \<longleftrightarrow> t = w \<or> is_runnable st t"
proof -
  show "waiters (wakeup_one wh st) = (waiters st)(w := (waiters st w)\<lparr>onlist := False\<rparr>)"
    using assms(1) by (simp add: wakeup_one_def Let_def bmk_sched_wake_def set_runnable_def)
  show "is_runnable (wakeup_one wh st) t \<longleftrightarrow> t = w \<or> is_runnable st t"
    using assms by (simp add: wakeup_one_def Let_def is_runnable_ops) (simp add: is_runnable_def)
qed

lemma wait_inv_wakeup_one:
  assumes inv: "wait_inv rc st C"
  shows "wait_inv rc (wakeup_one wh st) C"
    "woken rc (wakeup_one wh st) C t wh' \<longleftrightarrow>
       woken rc st C t wh' \<or> wh' = wh \<and> waitq wh st \<noteq> [] \<and> t = hd (waitq wh st)"
proof -
  have "wait_inv rc (wakeup_one wh st) C \<and> (woken rc (wakeup_one wh st) C t wh' \<longleftrightarrow>
       woken rc st C t wh' \<or> wh' = wh \<and> waitq wh st \<noteq> [] \<and> t = hd (waitq wh st))"
  proof (cases "waitq wh st")
    case (Cons w ws)
    have w: "waiting rc C w wh" "who (waiters st w) = w" "w \<notin> set ws" "onlist (waiters st w)" "distinct ws"
      using inv Cons unfolding wait_inv_def by (metis distinct.simps(2) list.set_intros(1))+
    note f = wakeup_one_Cons [OF Cons w(2)] wakeup_one_fields [of wh st]
    have q: "waitq wh' (wakeup_one wh st) = (if wh' = wh then ws else waitq wh' st)" for wh'
      by (simp add: waitq_wakeup_one Cons)
    have u: "waiting rc C w wh' \<longleftrightarrow> wh' = wh" for wh' using w(1) waiting_unique by blast
    have mem: "u \<in> set (waitq wh' st) \<longleftrightarrow> waiting rc C u wh' \<and> onlist (waiters st u)" for u wh'
      using inv by (simp add: wait_inv_def)
    have "u \<in> set (waitq wh' (wakeup_one wh st)) \<longleftrightarrow> waiting rc C u wh' \<and> onlist (waiters (wakeup_one wh st) u)" for u wh'
      using mem [of u wh'] Cons w u by (auto simp: q f)
    moreover have "distinct (waitq wh' (wakeup_one wh st))" for wh' using inv w by (simp add: q wait_inv_def)
    ultimately have "wait_inv rc (wakeup_one wh st) C"
      using inv by (simp add: wait_inv_def f)
    moreover have "woken rc (wakeup_one wh st) C t wh' \<longleftrightarrow> woken rc st C t wh' \<or> wh' = wh \<and> t = w"
      using w u by (auto simp: woken_def f)
    ultimately show ?thesis using Cons by simp
  qed (use inv in \<open>simp add: wakeup_one_Nil\<close>)
  then show "wait_inv rc (wakeup_one wh st) C" "woken rc (wakeup_one wh st) C t wh' \<longleftrightarrow>
       woken rc st C t wh' \<or> wh' = wh \<and> waitq wh st \<noteq> [] \<and> t = hd (waitq wh st)" by auto
qed

lemma wakeup_all_step: "waitq wh st \<noteq> [] \<Longrightarrow> wakeup_all wh st = wakeup_all wh (wakeup_one wh st)"
  by (subst wakeup_all.simps) simp

lemma wakeup_all_Nil: "waitq wh st = [] \<Longrightarrow> wakeup_all wh st = st"
  by (subst wakeup_all.simps) simp

lemma waitq_wakeup_all: "waitq wh' (wakeup_all wh st) = (if wh' = wh then [] else waitq wh' st)"
proof (induction wh st rule: wakeup_all.induct)
  case (1 wh st)
  then show ?case by (cases "waitq wh st = []") (auto simp: wakeup_all_Nil wakeup_all_step waitq_wakeup_one)
qed

lemma wait_inv_wakeup_all:
  assumes "wait_inv rc st C"
  shows "wait_inv rc (wakeup_all wh st) C"
    "woken rc (wakeup_all wh st) C t wh' \<longleftrightarrow> woken rc st C t wh' \<or> wh' = wh \<and> t \<in> set (waitq wh st)"
proof -
  have "wait_inv rc (wakeup_all wh st) C \<and>
    (woken rc (wakeup_all wh st) C t wh' \<longleftrightarrow> woken rc st C t wh' \<or> wh' = wh \<and> t \<in> set (waitq wh st))"
    using assms
  proof (induction wh st rule: wakeup_all.induct)
    case (1 wh st)
    show ?case
    proof (cases "waitq wh st")
      case (Cons w ws)
      then show ?thesis using 1 wait_inv_wakeup_one [OF 1(2), of wh] by (auto simp: wakeup_all_step waitq_wakeup_one)
    qed (use 1 in \<open>simp add: wakeup_all_Nil\<close>)
  qed
  then show "wait_inv rc (wakeup_all wh st) C"
    "woken rc (wakeup_all wh st) C t wh' \<longleftrightarrow> woken rc st C t wh' \<or> wh' = wh \<and> t \<in> set (waitq wh st)" by auto
qed

text \<open>Waiting and returning from it.\<close>

lemma waitq_thread [simp]: "waitq wh (st\<lparr>thread := f\<rparr>) = waitq wh st"
  by (cases wh) simp_all

lemma wait_begin_fields:
  "waitq wh' (wait_begin wh now nsec st) = (if wh' = wh then waitq wh st @ [current_thread st] else waitq wh' st)"
  "waiters (wait_begin wh now nsec st) = (waiters st)(current_thread st := \<lparr>who = current_thread st, onlist = True\<rparr>)"
  "threads (wait_begin wh now nsec st) = threads st" "current_thread (wait_begin wh now nsec st) = current_thread st"
  "lwp (wait_begin wh now nsec st) t = lwp st t"
  "is_runnable (wait_begin wh now nsec st) t \<longleftrightarrow> t \<noteq> current_thread st \<and> is_runnable st t"
proof -
  let ?t = "current_thread st"
  let ?st = "(set_waitq wh (waitq wh st @ [?t]) st)\<lparr>waiters := (waiters st)(?t := \<lparr>who = ?t, onlist = True\<rparr>)\<rparr>"
  have run: "is_runnable (bmk_sched_setwakeup u w st') t \<longleftrightarrow> is_runnable st' t" for u w and st' :: fiber
    by (simp add: bmk_sched_setwakeup_def is_runnable_def upd_thread_def)
  have "is_runnable (bmk_sched_block ?t ?st) t \<longleftrightarrow> t \<noteq> ?t \<and> is_runnable st t"
    by (simp only: is_runnable_ops) (simp add: is_runnable_def)
  then show "is_runnable (wait_begin wh now nsec st) t \<longleftrightarrow> t \<noteq> ?t \<and> is_runnable st t"
    by (simp add: wait_begin_def Let_def bmk_sched_current_def run)
qed (simp_all add: wait_begin_def Let_def bmk_sched_current_def bmk_sched_block_def clear_runnable_def
    bmk_sched_setwakeup_def waitq_set_waitq lwp_def upd_thread_def)

lemma wait_inv_begin:
  assumes inv: "wait_inv rc st C" and free: "\<not> blocked C (current_thread st)" "current_thread st \<in> set (threads st)"
    and s: "waits_on rc s = Some wh" and w: "\<And>r. wh = RwWwait r \<Longrightarrow> lwp st (current_thread st) \<noteq> 0"
  shows "wait_inv rc (wait_begin wh now nsec st) (C(current_thread st := s # C (current_thread st)))"
    "woken rc (wait_begin wh now nsec st) (C(current_thread st := s # C (current_thread st))) u wh' \<longleftrightarrow> woken rc st C u wh'"
proof -
  let ?t = "current_thread st" and ?st = "wait_begin wh now nsec st"
  let ?C = "C(?t := s # C ?t)"
  have nw: "\<not> waiting rc C ?t wh'" for wh' using free(1) waiting_blocked by blast
  have wt: "waiting rc ?C u wh' \<longleftrightarrow> (if u = ?t then wh' = wh else waiting rc C u wh')" for u wh'
    using s by (auto simp: waiting_upd)
  have ok: "stack_ok rc (s # C ?t)"
    using inv free(1) s by (cases "C ?t") (auto simp: wait_inv_def stack_ok_def blocked_def dest: spec [of _ ?t])
  have mem: "u \<in> set (waitq wh' st) \<longleftrightarrow> waiting rc C u wh' \<and> onlist (waiters st u)" for u wh'
    using inv by (simp add: wait_inv_def)
  have "?t \<notin> set (waitq wh' st)" for wh' using mem nw by blast
  then have d: "distinct (waitq wh' ?st)" for wh' using inv by (simp add: wait_begin_fields wait_inv_def)
  have m: "u \<in> set (waitq wh' ?st) \<longleftrightarrow> waiting rc ?C u wh' \<and> onlist (waiters ?st u)" for u wh'
    using mem [of u wh'] nw by (auto simp: wait_begin_fields wt)
  have "stack_ok rc (?C u) \<and> (?C u \<noteq> [] \<longrightarrow> u \<in> set (threads ?st))" for u
    using inv free(2) ok by (auto simp: wait_begin_fields wait_inv_def)
  moreover have "waiting rc ?C u wh' \<longrightarrow> who (waiters ?st u) = u \<and> (onlist (waiters ?st u) \<or> is_runnable ?st u) \<and>
      (\<forall>r. wh' = RwWwait r \<longrightarrow> lwp ?st u \<noteq> 0)" for u wh'
    using inv w by (auto simp: wt wait_begin_fields wait_inv_def)
  ultimately show "wait_inv rc ?st ?C" using d m unfolding wait_inv_def by blast
  show "woken rc ?st ?C u wh' \<longleftrightarrow> woken rc st C u wh'"
    using nw by (auto simp: woken_def wt wait_begin_fields)
qed

lemma wait_end_fields:
  "waitq wh' (fst (wait_end wh st)) =
     (if wh' = wh \<and> onlist (waiters st (current_thread st)) then remove1 (current_thread st) (waitq wh st) else waitq wh' st)"
  "waiters (fst (wait_end wh st)) = waiters st" "threads (fst (wait_end wh st)) = threads st"
  "current_thread (fst (wait_end wh st)) = current_thread st" "thread (fst (wait_end wh st)) = thread st"
  by (simp_all add: wait_end_def Let_def bmk_sched_current_def waitq_set_waitq)

lemma wait_inv_end:
  assumes inv: "wait_inv rc st C" and top: "C (current_thread st) = s # ps" "waits_on rc s = Some wh"
  shows "wait_inv rc (fst (wait_end wh st)) (C(current_thread st := ps))"
    "woken rc (fst (wait_end wh st)) (C(current_thread st := ps)) u wh' \<longleftrightarrow> u \<noteq> current_thread st \<and> woken rc st C u wh'"
    "\<not> blocked (C(current_thread st := ps)) (current_thread st)"
proof -
  let ?t = "current_thread st" and ?st = "fst (wait_end wh st)"
  let ?C = "C(?t := ps)"
  have ok: "stack_ok rc (s # ps)" using inv top(1) by (metis wait_inv_def)
  then have tail: "awaits x \<noteq> BmkSched" if "x \<in> set ps" for x using that by (simp add: stack_ok_def)
  show nb: "\<not> blocked ?C ?t" using tail [of "hd ps"] by (auto simp: blocked_def)
  have t: "waiting rc C ?t wh' \<longleftrightarrow> wh' = wh" for wh' using top by (auto simp: waiting_def)
  have wt: "waiting rc ?C u wh' \<longleftrightarrow> u \<noteq> ?t \<and> waiting rc C u wh'" for u wh'
    using nb waiting_blocked [of rc ?C ?t wh'] by (auto simp: waiting_upd)
  have mem: "u \<in> set (waitq wh' st) \<longleftrightarrow> waiting rc C u wh' \<and> onlist (waiters st u)" for u wh'
    using inv by (simp add: wait_inv_def)
  have dis: "distinct (waitq wh' st)" for wh' using inv by (simp add: wait_inv_def)
  have m: "u \<in> set (waitq wh' ?st) \<longleftrightarrow> waiting rc ?C u wh' \<and> onlist (waiters ?st u)" for u wh'
    using mem [of u wh'] dis t by (auto simp: wait_end_fields wt)
  have d: "distinct (waitq wh' ?st)" for wh' using dis by (simp add: wait_end_fields)
  have so: "stack_ok rc ps" using tail by (cases ps) (auto simp: stack_ok_def)
  have th: "?t \<in> set (threads st)" using inv top(1) unfolding wait_inv_def by (metis list.distinct(1))
  have "stack_ok rc (?C u) \<and> (?C u \<noteq> [] \<longrightarrow> u \<in> set (threads ?st))" for u
    using inv so th by (auto simp: wait_end_fields wait_inv_def)
  moreover have "waiting rc ?C u wh' \<longrightarrow> who (waiters ?st u) = u \<and> (onlist (waiters ?st u) \<or> is_runnable ?st u) \<and>
      (\<forall>r. wh' = RwWwait r \<longrightarrow> lwp ?st u \<noteq> 0)" for u wh'
    using inv by (auto simp: wt wait_end_fields wait_inv_def is_runnable_def lwp_def)
  ultimately show "wait_inv rc ?st ?C" using d m unfolding wait_inv_def by blast
  show "woken rc ?st ?C u wh' \<longleftrightarrow> u \<noteq> ?t \<and> woken rc st C u wh'"
    by (auto simp: woken_def wt wait_end_fields)
qed

end
