(* ===== verification/Fibersync.thy ===== *)
theory Fibersync
  imports Fiberinv
begin

text \<open>
  No wake-up is lost: in every state that concurrent users of the primitives can reach, a free mutex
  or lock with waiting threads has a thread that has been woken for it. And the count of a condition
  variable is the number of the operations on it.
\<close>

section \<open>Locks\<close>

definition mutex_ok :: "rumpuser_h \<Rightarrow> fiber \<Rightarrow> calls \<Rightarrow> u32 \<Rightarrow> bool" where
  "mutex_ok rc st C m \<longleftrightarrow>
     (mtx_v (mtx st m) = 0 \<and> waitq (MtxWaiters m) st \<noteq> [] \<longrightarrow> (\<exists>t. woken rc st C t (MtxWaiters m)))"

definition rw_ok :: "rumpuser_h \<Rightarrow> fiber \<Rightarrow> calls \<Rightarrow> u32 \<Rightarrow> bool" where
  "rw_ok rc st C r \<longleftrightarrow>
     (rw_o (rw st r) = 0 \<and> (waitq (RwWwait r) st \<noteq> [] \<or> waitq (RwRwait r) st \<noteq> []) \<longrightarrow>
        (\<exists>t. woken rc st C t (RwWwait r)))"

text \<open>
  The invariant, with an exception: between its return from \<^verbatim>\<open>wait\<close> and its next attempt a thread
  has given up its place in the queue \<open>e\<close>.
\<close>

definition sync_inv :: "rumpuser_h \<Rightarrow> waithead option \<Rightarrow> fiber \<Rightarrow> calls \<Rightarrow> bool" where
  "sync_inv rc e st C \<longleftrightarrow> wait_inv rc st C \<and>
     (\<forall>m. 0 \<le> mtx_v (mtx st m) \<and> (e \<noteq> Some (MtxWaiters m) \<longrightarrow> mutex_ok rc st C m)) \<and>
     (\<forall>r. e \<noteq> Some (RwWwait r) \<longrightarrow> rw_ok rc st C r)"

lemma sync_invD:
  assumes "sync_inv rc e st C"
  shows "wait_inv rc st C" "0 \<le> mtx_v (mtx st m)" "e \<noteq> Some (MtxWaiters m) \<Longrightarrow> mutex_ok rc st C m"
    "e \<noteq> Some (RwWwait r) \<Longrightarrow> rw_ok rc st C r"
  using assms by (simp_all add: sync_inv_def)

lemma sync_inv_weaken: "sync_inv rc None st C \<Longrightarrow> sync_inv rc e st C"
  by (simp add: sync_inv_def)

lemma sync_inv_irrelevant:
  "sync_inv rc (Some (RwRwait r)) st C \<longleftrightarrow> sync_inv rc None st C"
  "sync_inv rc (Some (CvWaiters c)) st C \<longleftrightarrow> sync_inv rc None st C"
  by (simp_all add: sync_inv_def)

text \<open>Acquiring a lock, and anything that leaves locks and queues alone.\<close>

lemma sync_inv_same:
  assumes inv: "sync_inv rc e st C" and same: "same_waits C st st'"
    and v: "\<And>m. mtx_v (mtx st' m) = mtx_v (mtx st m) \<and> (e = Some (MtxWaiters m) \<longrightarrow> e' = e) \<or>
      0 < mtx_v (mtx st' m) \<or> mtx_v (mtx st' m) = 0 \<and> waitq (MtxWaiters m) st = []"
    and o: "\<And>r. rw_o (rw st' r) = rw_o (rw st r) \<and> (e = Some (RwWwait r) \<longrightarrow> e' = e) \<or> rw_o (rw st' r) \<noteq> 0 \<or>
      waitq (RwWwait r) st = [] \<and> waitq (RwRwait r) st = []"
  shows "sync_inv rc e' st' C"
proof -
  have q: "waitq wh st' = waitq wh st" "woken rc st' C t wh \<longleftrightarrow> woken rc st C t wh" for wh t
    using same by (simp_all add: same_waits_def woken_def)
  have "0 \<le> mtx_v (mtx st' m) \<and> (e' \<noteq> Some (MtxWaiters m) \<longrightarrow> mutex_ok rc st' C m)" for m
    using v [of m] sync_invD(2,3) [OF inv, of m] by (auto simp: mutex_ok_def q)
  moreover have "e' \<noteq> Some (RwWwait r) \<longrightarrow> rw_ok rc st' C r" for r
    using o [of r] sync_invD(4) [OF inv, of r] by (auto simp: rw_ok_def q)
  ultimately show ?thesis using wait_inv_same [OF sync_invD(1) [OF inv] same] by (simp add: sync_inv_def)
qed

text \<open>A thread that does not wait enters or leaves an up-call.\<close>

lemma sync_inv_stack:
  assumes inv: "sync_inv rc e st C" and t: "\<not> blocked C t" and ps: "\<And>s. s \<in> set ps \<Longrightarrow> awaits s \<noteq> BmkSched"
    and q: "ps \<noteq> [] \<Longrightarrow> t \<in> set (threads st)"
  shows "sync_inv rc e st (C(t := ps))"
proof -
  have "waiting rc (C(t := ps)) u wh \<longleftrightarrow> waiting rc C u wh" for u wh
    using waiting_blocked [of rc C t wh] t ps [of "hd ps"] waits_on_BmkSched [of rc "hd ps" wh]
    by (auto simp: waiting_upd)
  then have "woken rc st (C(t := ps)) u wh \<longleftrightarrow> woken rc st C u wh" for u wh by (simp add: woken_def)
  then show ?thesis
    using inv wait_inv_stack [OF sync_invD(1) [OF inv] t ps q] by (simp add: sync_inv_def mutex_ok_def rw_ok_def)
qed

text \<open>Waking.\<close>

lemma set_waitq_counts [simp]:
  "mtx_v (mtx (set_waitq wh ws st) m) = mtx_v (mtx st m)" "mtx_o (mtx (set_waitq wh ws st) m) = mtx_o (mtx st m)"
  "mtx_flags (mtx (set_waitq wh ws st) m) = mtx_flags (mtx st m)"
  "rw_o (rw (set_waitq wh ws st) r) = rw_o (rw st r)" "rw_v (rw (set_waitq wh ws st) r) = rw_v (rw st r)"
  "cv_nwaiters (cv (set_waitq wh ws st) c) = cv_nwaiters (cv st c)"
  by (cases wh; simp add: upd_mtx_def upd_rw_def upd_cv_def)+

lemma wakeup_one_counts [simp]:
  "mtx_v (mtx (wakeup_one wh st) m) = mtx_v (mtx st m)" "mtx_o (mtx (wakeup_one wh st) m) = mtx_o (mtx st m)"
  "mtx_flags (mtx (wakeup_one wh st) m) = mtx_flags (mtx st m)"
  "rw_o (rw (wakeup_one wh st) r) = rw_o (rw st r)" "rw_v (rw (wakeup_one wh st) r) = rw_v (rw st r)"
  "cv_nwaiters (cv (wakeup_one wh st) c) = cv_nwaiters (cv st c)"
  by (simp_all add: wakeup_one_def Let_def bmk_sched_wake_def set_runnable_def split: list.split)

lemma wakeup_all_counts [simp]:
  "mtx_v (mtx (wakeup_all wh st) m) = mtx_v (mtx st m)"
  "rw_o (rw (wakeup_all wh st) r) = rw_o (rw st r)"
  "cv_nwaiters (cv (wakeup_all wh st) c) = cv_nwaiters (cv st c)"
  "threads (wakeup_all wh st) = threads st" "current_thread (wakeup_all wh st) = current_thread st"
proof -
  have "mtx_v (mtx (wakeup_all wh st) m) = mtx_v (mtx st m) \<and> rw_o (rw (wakeup_all wh st) r) = rw_o (rw st r) \<and>
    cv_nwaiters (cv (wakeup_all wh st) c) = cv_nwaiters (cv st c) \<and> threads (wakeup_all wh st) = threads st \<and>
    current_thread (wakeup_all wh st) = current_thread st"
    by (induction wh st rule: wakeup_all.induct)
      (subst (1 2 3 4 5) wakeup_all.simps, simp add: wakeup_one_fields)
  then show "mtx_v (mtx (wakeup_all wh st) m) = mtx_v (mtx st m)" "rw_o (rw (wakeup_all wh st) r) = rw_o (rw st r)"
    "cv_nwaiters (cv (wakeup_all wh st) c) = cv_nwaiters (cv st c)"
    "threads (wakeup_all wh st) = threads st" "current_thread (wakeup_all wh st) = current_thread st" by simp_all
qed

lemma sync_inv_wakeup_one:
  assumes inv: "sync_inv rc e st C"
    and e: "e' = e \<or> e' = None \<and> e = Some wh \<and> ((\<exists>m. wh = MtxWaiters m) \<or> waitq wh st \<noteq> [])"
  shows "sync_inv rc e' (wakeup_one wh st) C"
proof -
  note w = wait_inv_wakeup_one [OF sync_invD(1) [OF inv]]
  have "mutex_ok rc (wakeup_one wh st) C m" if "e' \<noteq> Some (MtxWaiters m)" for m
  proof (cases "e = Some (MtxWaiters m)")
    case True
    then have "wh = MtxWaiters m" using e that by auto
    then show ?thesis by (cases "waitq wh st") (auto simp: mutex_ok_def w waitq_wakeup_one)
  next
    case False
    from sync_invD(3) [OF inv this] show ?thesis by (auto simp: mutex_ok_def w waitq_wakeup_one split: if_splits)
  qed
  moreover have "rw_ok rc (wakeup_one wh st) C r" if "e' \<noteq> Some (RwWwait r)" for r
  proof (cases "e = Some (RwWwait r)")
    case True
    then show ?thesis using e that by (auto simp: rw_ok_def w)
  next
    case False
    from sync_invD(4) [OF inv this] show ?thesis
      by (cases "waitq wh st") (auto simp: rw_ok_def w waitq_wakeup_one split: if_splits)
  qed
  ultimately show ?thesis using w(1) sync_invD(2) [OF inv] by (simp add: sync_inv_def)
qed

lemma sync_inv_wakeup_all:
  assumes inv: "sync_inv rc e st C" and wh: "(\<exists>r. wh = RwRwait r) \<or> (\<exists>c. wh = CvWaiters c)"
    and e: "e' = e \<or> e' = None \<and> (\<exists>r. e = Some (RwWwait r) \<and> wh = RwRwait r \<and> waitq (RwWwait r) st = [])"
  shows "sync_inv rc e' (wakeup_all wh st) C"
proof -
  note w = wait_inv_wakeup_all [OF sync_invD(1) [OF inv]]
  have "mutex_ok rc (wakeup_all wh st) C m" if "e' \<noteq> Some (MtxWaiters m)" for m
    using sync_invD(3) [OF inv, of m] e that wh by (auto simp: mutex_ok_def w waitq_wakeup_all)
  moreover have "rw_ok rc (wakeup_all wh st) C r" if "e' \<noteq> Some (RwWwait r)" for r
    using sync_invD(4) [OF inv, of r] e that wh by (auto simp: rw_ok_def w waitq_wakeup_all)
  ultimately show ?thesis using w(1) sync_invD(2) [OF inv] by (simp add: sync_inv_def)
qed

text \<open>Waiting for a lock somebody holds, and returning from it.\<close>

lemma wait_counts [simp]:
  "mtx_v (mtx (wait_begin wh now nsec st) m) = mtx_v (mtx st m)"
  "rw_o (rw (wait_begin wh now nsec st) r) = rw_o (rw st r)"
  "cv_nwaiters (cv (wait_begin wh now nsec st) c) = cv_nwaiters (cv st c)"
  "mtx_v (mtx (fst (wait_end wh st)) m) = mtx_v (mtx st m)"
  "rw_o (rw (fst (wait_end wh st)) r) = rw_o (rw st r)"
  "cv_nwaiters (cv (fst (wait_end wh st)) c) = cv_nwaiters (cv st c)"
  by (simp_all add: wait_begin_def wait_end_def Let_def bmk_sched_block_def clear_runnable_def bmk_sched_setwakeup_def)

lemma sync_inv_begin:
  assumes inv: "sync_inv rc None st C" and free: "\<not> blocked C (current_thread st)" "current_thread st \<in> set (threads st)"
    and s: "waits_on rc s = Some wh"
    and m: "\<And>m. wh = MtxWaiters m \<Longrightarrow> mtx_v (mtx st m) \<noteq> 0"
    and w: "\<And>r. wh = RwWwait r \<Longrightarrow> rw_o (rw st r) \<noteq> 0 \<and> lwp st (current_thread st) \<noteq> 0"
    and r: "\<And>r. wh = RwRwait r \<Longrightarrow> rw_o (rw st r) \<noteq> 0 \<or> waitq (RwWwait r) st \<noteq> []"
  shows "sync_inv rc None (wait_begin wh now nsec st) (C(current_thread st := s # C (current_thread st)))"
proof -
  note b = wait_inv_begin [OF sync_invD(1) [OF inv] free s, of now nsec]
  have lw: "lwp st (current_thread st) \<noteq> 0" if "wh = RwWwait r" for r using w that by blast
  have "mutex_ok rc (wait_begin wh now nsec st) (C(current_thread st := s # C (current_thread st))) k" for k
    using sync_invD(3) [OF inv, of k] m [of k] b(2) [OF lw] by (auto simp: mutex_ok_def wait_begin_fields)
  moreover have "rw_ok rc (wait_begin wh now nsec st) (C(current_thread st := s # C (current_thread st))) k" for k
    using sync_invD(4) [OF inv, of k] w [of k] r [of k] b(2) [OF lw] by (auto simp: rw_ok_def wait_begin_fields)
  ultimately show ?thesis using b(1) [OF lw] sync_invD(2) [OF inv] by (simp add: sync_inv_def)
qed

lemma sync_inv_end:
  assumes inv: "sync_inv rc None st C" and top: "C (current_thread st) = s # ps" "waits_on rc s = Some wh"
  shows "sync_inv rc (Some wh) (fst (wait_end wh st)) (C(current_thread st := ps))"
proof -
  note b = wait_inv_end [OF sync_invD(1) [OF inv] top]
  have other: "woken rc (fst (wait_end wh st)) (C(current_thread st := ps)) u wh' \<longleftrightarrow> woken rc st C u wh'"
    if "wh' \<noteq> wh" for u wh'
    using top that unfolding b(2) by (auto simp: woken_def waiting_def)
  have "mutex_ok rc (fst (wait_end wh st)) (C(current_thread st := ps)) m" if "wh \<noteq> MtxWaiters m" for m
    using sync_invD(3) [OF inv, of m] other [of "MtxWaiters m"] that by (simp add: mutex_ok_def wait_end_fields)
  moreover have "rw_ok rc (fst (wait_end wh st)) (C(current_thread st := ps)) r" if "wh \<noteq> RwWwait r" for r
    using sync_invD(4) [OF inv, of r] other [of "RwWwait r"] that
    by (auto simp: rw_ok_def wait_end_fields split: if_splits)
  ultimately show ?thesis using b(1) sync_invD(2) [OF inv] by (auto simp: sync_inv_def)
qed

section \<open>The operations\<close>

lemma rumpuser_curlwp_eq [simp]: "rumpuser_curlwp st = Returns (lwp st (current_thread st))"
  by (simp add: rumpuser_curlwp_def bmk_sched_gettls_def BMK_TLS_RUMPLWP_def TLS_COUNT_def lwp_def bmk_sched_current_def)

lemma rumpuser_mutex_tryenter_eq:
  "rumpuser_mutex_tryenter m st =
     (if mtx_v (mtx st m) \<noteq> 0 \<and> mtx_o (mtx st m) \<noteq> lwp st (current_thread st) then Returns (st, EBUSY)
      else Returns (upd_mtx m (\<lambda>x. x\<lparr>mtx_v := mtx_v x + 1, mtx_o := lwp st (current_thread st)\<rparr>) st, 0))"
  by (simp add: rumpuser_mutex_tryenter_def rumpuser_curlwp_eq [unfolded rumpuser_curlwp_def])

lemma upd_fields [simp]:
  "current_thread (upd_mtx m f st) = current_thread st" "threads (upd_mtx m f st) = threads st"
  "current_thread (upd_rw r g st) = current_thread st" "threads (upd_rw r g st) = threads st"
  "current_thread (upd_cv c h st) = current_thread st" "threads (upd_cv c h st) = threads st"
  "mtx (upd_rw r g st) = mtx st" "mtx (upd_cv c h st) = mtx st" "rw (upd_mtx m f st) = rw st"
  "rw (upd_cv c h st) = rw st" "cv (upd_mtx m f st) = cv st" "cv (upd_rw r g st) = cv st"
  "mtx (upd_mtx m f st) = (mtx st)(m := f (mtx st m))" "rw (upd_rw r g st) = (rw st)(r := g (rw st r))"
  "cv (upd_cv c h st) = (cv st)(c := h (cv st c))"
  "lwp (upd_mtx m f st) t = lwp st t" "lwp (upd_rw r g st) t = lwp st t" "lwp (upd_cv c h st) t = lwp st t"
  by (simp_all add: upd_mtx_def upd_rw_def upd_cv_def lwp_def)

lemma same_waits_upd:
  "mtx_waiters (f (mtx st m)) = waitq (MtxWaiters m) st \<Longrightarrow> same_waits C st (upd_mtx m f st)"
  "rw_rwait (g (rw st r)) = waitq (RwRwait r) st \<Longrightarrow> rw_wwait (g (rw st r)) = waitq (RwWwait r) st \<Longrightarrow>
     same_waits C st (upd_rw r g st)"
  "cv_waiters (h (cv st c)) = waitq (CvWaiters c) st \<Longrightarrow> same_waits C st (upd_cv c h st)"
proof -
  have w: "waitq wh (upd_mtx m f st) = waitq wh st" if "mtx_waiters (f (mtx st m)) = waitq (MtxWaiters m) st" for wh
    using that by (cases wh) simp_all
  then show "mtx_waiters (f (mtx st m)) = waitq (MtxWaiters m) st \<Longrightarrow> same_waits C st (upd_mtx m f st)"
    by (simp add: same_waits_def) (simp add: upd_mtx_def is_runnable_def)
  have w: "waitq wh (upd_rw r g st) = waitq wh st"
    if "rw_rwait (g (rw st r)) = waitq (RwRwait r) st" "rw_wwait (g (rw st r)) = waitq (RwWwait r) st" for wh
    using that by (cases wh) simp_all
  then show "rw_rwait (g (rw st r)) = waitq (RwRwait r) st \<Longrightarrow> rw_wwait (g (rw st r)) = waitq (RwWwait r) st \<Longrightarrow>
     same_waits C st (upd_rw r g st)"
    by (simp add: same_waits_def) (simp add: upd_rw_def is_runnable_def)
  have w: "waitq wh (upd_cv c h st) = waitq wh st" if "cv_waiters (h (cv st c)) = waitq (CvWaiters c) st" for wh
    using that by (cases wh) simp_all
  then show "cv_waiters (h (cv st c)) = waitq (CvWaiters c) st \<Longrightarrow> same_waits C st (upd_cv c h st)"
    by (simp add: same_waits_def) (simp add: upd_cv_def is_runnable_def)
qed

lemma waitq_more: "intr.more st' = intr.more st \<Longrightarrow> waitq wh st' = waitq wh (st :: fiber)"
  by (cases st; cases st'; cases wh) simp_all

lemma more_fields:
  assumes "intr.more st' = intr.more (st :: fiber)"
  shows "mtx st' = mtx st" "rw st' = rw st" "cv st' = cv st" "waiters st' = waiters st"
  using assms by (cases st; cases st'; simp)+

lemma elsewhere_same: "elsewhere C st st' \<Longrightarrow> same_waits C st st'"
  using more_fields(4) [of st' st] waitq_more [of st' st] by (simp add: elsewhere_def same_waits_def)

lemma sync_inv_elsewhere:
  assumes "sync_inv rc e st C" "elsewhere C st st'"
  shows "sync_inv rc e st' C"
  using assms more_fields [of st' st] by (intro sync_inv_same [OF assms(1) elsewhere_same [OF assms(2)]]) (simp_all add: elsewhere_def)

lemma elsewhere_kheap: "elsewhere C st (st\<lparr>kheap := h\<rparr>)"
  by (simp add: elsewhere_def is_runnable_def lwp_def)

lemma free_stack:
  assumes "wait_inv rc st C" "\<not> blocked C t" "s \<in> set (C t)"
  shows "awaits s \<noteq> BmkSched"
proof -
  have "stack_ok rc (C t)" using assms(1) by (simp add: wait_inv_def)
  then show ?thesis using assms(2,3) by (cases "C t") (auto simp: stack_ok_def blocked_def)
qed

lemma sync_inv_push:
  assumes "sync_inv rc e st C" "\<not> blocked C t" "t \<in> set (threads st)" "awaits s \<noteq> BmkSched"
  shows "sync_inv rc e st (C(t := s # C t))"
  using assms free_stack [OF sync_invD(1) [OF assms(1)] assms(2)] by (intro sync_inv_stack) auto

text \<open>Mutexes.\<close>

lemma sync_tryenter:
  assumes inv: "sync_inv rc e st C" "e = None \<or> e = Some (MtxWaiters m)"
    and call: "rumpuser_mutex_tryenter m st = Returns (st', rv)"
  shows "sync_inv rc None st' C" "current_thread st' = current_thread st" "threads st' = threads st"
    "rv \<noteq> 0 \<Longrightarrow> mtx_v (mtx st' m) \<noteq> 0"
proof -
  have nn: "0 \<le> mtx_v (mtx st m)" using sync_invD(2) [OF inv(1)] .
  show "sync_inv rc None st' C"
  proof (cases "rv = 0")
    case True
    then have st': "st' = upd_mtx m (\<lambda>x. x\<lparr>mtx_v := mtx_v x + 1, mtx_o := lwp st (current_thread st)\<rparr>) st"
      using call by (auto simp: rumpuser_mutex_tryenter_eq EBUSY_def split: if_splits)
    show ?thesis using inv(2) nn unfolding st' by (intro sync_inv_same [OF inv(1)] same_waits_upd) auto
  next
    case False
    then have st': "st' = st" "mtx_v (mtx st m) \<noteq> 0"
      using call by (auto simp: rumpuser_mutex_tryenter_eq split: if_splits)
    show ?thesis using inv(2) nn st'(2) unfolding st'(1)
      by (intro sync_inv_same [OF inv(1)]) (auto simp: same_waits_def)
  qed
qed (use call in \<open>auto simp: rumpuser_mutex_tryenter_eq split: if_splits\<close>)

lemma sync_enter_nowrap:
  assumes "sync_inv rc None st C" "rumpuser_mutex_enter_nowrap m st = Returns st'"
  shows "sync_inv rc None st' C" "current_thread st' = current_thread st" "threads st' = threads st"
proof -
  obtain rv where "rumpuser_mutex_tryenter m st = Returns (st', rv)"
    using assms(2) by (auto simp: rumpuser_mutex_enter_nowrap_def rumpuser_mutex_tryenter_eq split: if_splits)
  then show "sync_inv rc None st' C" "current_thread st' = current_thread st" "threads st' = threads st"
    using sync_tryenter [OF assms(1)] by auto
qed

lemma sync_enter_loop:
  assumes inv: "sync_inv rc e st C" "e = None \<or> e = Some (MtxWaiters m)"
    and free: "\<not> blocked C (current_thread st)" "current_thread st \<in> set (threads st)"
    and call: "mutex_enter_loop m nlocks st = Returns (st', res)"
  shows "sync_inv rc None st' (C(current_thread st := push res (C (current_thread st))))"
proof -
  obtain st1 rv where t: "rumpuser_mutex_tryenter m st = Returns (st1, rv)"
    using rumpuser_mutex_tryenter_eq [of m st] by (auto split: if_splits)
  note s = sync_tryenter [OF inv t]
  show ?thesis
  proof (cases "rv = 0")
    case True
    then have "st' = st1" "res = Suspended (MutexSched m nlocks)" using call by (auto simp: mutex_enter_loop_def t)
    then show ?thesis using sync_inv_push [OF s(1) free(1), of "MutexSched m nlocks"] free s by (simp add: rumpkern_sched_def)
  next
    case False
    then have "st' = wait_begin (MtxWaiters m) 0 0 st1" "res = Suspended (MutexWait m nlocks)"
      using call by (auto simp: mutex_enter_loop_def t)
    then show ?thesis
      using sync_inv_begin [OF s(1), of "MutexWait m nlocks" "MtxWaiters m" 0 0] free s False by simp
  qed
qed

lemma sync_mutex_exit:
  assumes inv: "sync_inv rc None st C" and call: "rumpuser_mutex_exit m st = Returns st'"
  shows "sync_inv rc None st' C" "current_thread st' = current_thread st" "threads st' = threads st"
proof -
  have v: "0 < mtx_v (mtx st m)" using call by (simp add: rumpuser_mutex_exit_def split: if_splits)
  show "sync_inv rc None st' C"
  proof (cases "mtx_v (mtx st m) = 1")
    case True
    let ?st = "upd_mtx m (\<lambda>x. x\<lparr>mtx_o := 0\<rparr>) (upd_mtx m (\<lambda>x. x\<lparr>mtx_v := mtx_v x - 1\<rparr>) st)"
    have st': "st' = wakeup_one (MtxWaiters m) ?st" using call True by (simp add: rumpuser_mutex_exit_def Let_def)
    have "?st = upd_mtx m (\<lambda>x. x\<lparr>mtx_v := mtx_v x - 1, mtx_o := 0\<rparr>) st" by (simp add: upd_mtx_def)
    then have same: "same_waits C st ?st" using same_waits_upd(1) by simp
    have q: "waitq wh ?st = waitq wh st" "woken rc ?st C t wh \<longleftrightarrow> woken rc st C t wh" for wh t
      using same by (simp_all add: same_waits_def woken_def)
    have "mutex_ok rc ?st C k" if "k \<noteq> m" for k
      using sync_invD(3) [OF inv, of k] that unfolding mutex_ok_def q by simp
    moreover have "rw_ok rc ?st C r" for r using sync_invD(4) [OF inv, of r] unfolding rw_ok_def q by simp
    ultimately have "sync_inv rc (Some (MtxWaiters m)) ?st C"
      using wait_inv_same [OF sync_invD(1) [OF inv] same] sync_invD(2) [OF inv] True by (simp add: sync_inv_def)
    then show ?thesis unfolding st' by (rule sync_inv_wakeup_one) simp
  next
    case False
    then have "st' = upd_mtx m (\<lambda>x. x\<lparr>mtx_v := mtx_v x - 1\<rparr>) st"
      using call v by (simp add: rumpuser_mutex_exit_def Let_def)
    then show ?thesis using v False by (auto intro!: sync_inv_same [OF inv] same_waits_upd split: if_splits)
  qed
  show "current_thread st' = current_thread st" "threads st' = threads st"
    using call by (auto simp: rumpuser_mutex_exit_def Let_def wakeup_one_fields split: if_splits)
qed

text \<open>Reader/writer locks.\<close>

lemma rumpuser_rw_tryenter_eq:
  "rumpuser_rw_tryenter rc lk r st =
     (if lk = RUMPUSER_RW_WRITER rc then
        if rw_o (rw st r) = 0 then Returns (upd_rw r (\<lambda>x. x\<lparr>rw_o := lwp st (current_thread st)\<rparr>) st, 0)
        else Returns (st, EBUSY)
      else if lk = RUMPUSER_RW_READER rc then
        if rw_o (rw st r) = 0 \<and> rw_wwait (rw st r) = [] then
          Returns (upd_rw r (\<lambda>x. x\<lparr>rw_v := rw_v x + 1\<rparr>) st, 0)
        else Returns (st, EBUSY)
      else Returns (st, EINVAL))"
  by (simp add: rumpuser_rw_tryenter_def)

lemma sync_rw_tryenter:
  assumes inv: "sync_inv rc e st C" "e = None \<or> e = Some (RwWwait r) \<and> lk = RUMPUSER_RW_WRITER rc"
    and l: "lk = RUMPUSER_RW_WRITER rc \<Longrightarrow> lwp st (current_thread st) \<noteq> 0"
    and call: "rumpuser_rw_tryenter rc lk r st = Returns (st', rv)"
  shows "sync_inv rc None st' C" "current_thread st' = current_thread st" "threads st' = threads st"
    "lwp st' t = lwp st t"
    "rv \<noteq> 0 \<Longrightarrow> lk = RUMPUSER_RW_WRITER rc \<Longrightarrow> rw_o (rw st' r) \<noteq> 0"
    "rv \<noteq> 0 \<Longrightarrow> lk \<noteq> RUMPUSER_RW_WRITER rc \<Longrightarrow> lk = RUMPUSER_RW_READER rc \<Longrightarrow> rw_o (rw st' r) \<noteq> 0 \<or> waitq (RwWwait r) st' \<noteq> []"
proof -
  consider (writer) "st' = upd_rw r (\<lambda>x. x\<lparr>rw_o := lwp st (current_thread st)\<rparr>) st" "lk = RUMPUSER_RW_WRITER rc"
    | (reader) "st' = upd_rw r (\<lambda>x. x\<lparr>rw_v := rw_v x + 1\<rparr>) st" "e = None"
    | (busy) "st' = st" "e = None \<or> rw_o (rw st r) \<noteq> 0"
    using call inv(2) by (auto simp: rumpuser_rw_tryenter_eq split: if_splits)
  then show "sync_inv rc None st' C"
  proof cases
    case writer
    then show ?thesis using l inv(2) by (auto intro!: sync_inv_same [OF inv(1)] same_waits_upd split: if_splits)
  next
    case reader
    then show ?thesis by (auto intro!: sync_inv_same [OF inv(1)] same_waits_upd split: if_splits)
  next
    case busy
    then show ?thesis using inv(2) by (auto intro!: sync_inv_same [OF inv(1)] simp: same_waits_def)
  qed
qed (use call in \<open>auto simp: rumpuser_rw_tryenter_eq split: if_splits\<close>)

lemma sync_rw_loop:
  assumes inv: "sync_inv rc e st C" "e = None \<or> e = Some (RwWwait r) \<and> lk = RUMPUSER_RW_WRITER rc"
    and l: "lk = RUMPUSER_RW_WRITER rc \<Longrightarrow> lwp st (current_thread st) \<noteq> 0"
    and free: "\<not> blocked C (current_thread st)" "current_thread st \<in> set (threads st)"
    and call: "rw_enter_loop rc lk r nlocks st = Returns (st', res)"
  shows "sync_inv rc None st' (C(current_thread st := push res (C (current_thread st))))"
proof -
  obtain st1 rv where t: "rumpuser_rw_tryenter rc lk r st = Returns (st1, rv)"
    using rumpuser_rw_tryenter_eq [of rc lk r st] by (auto split: if_splits)
  note s = sync_rw_tryenter [OF inv l t]
  show ?thesis
  proof (cases "rv = 0")
    case True
    then have "st' = st1" "res = Suspended (RwSched lk r nlocks)" using call by (auto simp: rw_enter_loop_def t)
    then show ?thesis using sync_inv_push [OF s(1) free(1), of "RwSched lk r nlocks"] free s by (simp add: rumpkern_sched_def)
  next
    case False
    then obtain w where w: "rw_waithead rc lk r = Some w" "st' = wait_begin w 0 0 st1" "res = Suspended (RwWait lk r nlocks)"
      using call by (auto simp: rw_enter_loop_def t split: option.splits)
    have "sync_inv rc None (wait_begin w 0 0 st1) (C(current_thread st1 := RwWait lk r nlocks # C (current_thread st1)))"
      by (rule sync_inv_begin [OF s(1)]) (use w(1) free s False l in \<open>auto simp: rw_waithead_def split: if_splits\<close>)
    then show ?thesis using w s by simp
  qed
qed

lemma sync_rw_exit:
  assumes inv: "sync_inv rc None st C"
  shows "sync_inv rc None (rumpuser_rw_exit r st) C"
proof -
  define st1 where "st1 = (if rw_o (rw st r) \<noteq> 0 then upd_rw r (\<lambda>x. x\<lparr>rw_o := 0\<rparr>) st
    else upd_rw r (\<lambda>x. x\<lparr>rw_v := rw_v x - 1\<rparr>) st)"
  have same: "same_waits C st st1" by (auto simp: st1_def intro: same_waits_upd)
  have q: "waitq wh st1 = waitq wh st" for wh using same by (simp add: same_waits_def)
  have o: "rw_o (rw st1 r) = 0" by (simp add: st1_def)
  have "sync_inv rc (Some (RwWwait r)) st1 C"
  proof -
    have "rw_ok rc st1 C k" if "k \<noteq> r" for k
      using sync_invD(4) [OF inv, of k] that same unfolding rw_ok_def q by (simp add: same_waits_def woken_def st1_def)
    moreover have "mutex_ok rc st1 C m" for m
      using sync_invD(3) [OF inv, of m] same unfolding mutex_ok_def q by (simp add: same_waits_def woken_def st1_def)
    moreover have "0 \<le> mtx_v (mtx st1 m)" for m using sync_invD(2) [OF inv, of m] by (simp add: st1_def)
    ultimately show ?thesis using wait_inv_same [OF sync_invD(1) [OF inv] same] by (simp add: sync_inv_def)
  qed
  note inv1 = this
  have eq: "rumpuser_rw_exit r st =
      (if waitq (RwWwait r) st1 \<noteq> [] then wakeup_one (RwWwait r) st1
       else if waitq (RwRwait r) st1 \<noteq> [] then wakeup_all (RwRwait r) st1 else st1)"
    using o by (simp add: rumpuser_rw_exit_def st1_def [symmetric] Let_def)
  consider (w) "waitq (RwWwait r) st1 \<noteq> []" | (r) "waitq (RwWwait r) st1 = []" "waitq (RwRwait r) st1 \<noteq> []"
    | (none) "waitq (RwWwait r) st1 = []" "waitq (RwRwait r) st1 = []" by blast
  then show ?thesis
  proof cases
    case w
    then show ?thesis unfolding eq using sync_inv_wakeup_one [OF inv1] by simp
  next
    case r
    then show ?thesis unfolding eq using sync_inv_wakeup_all [OF inv1, of "RwRwait r" None] by simp
  next
    case none
    then have "sync_inv rc None st1 C" by (intro sync_inv_same [OF inv1]) (auto simp: same_waits_def)
    then show ?thesis unfolding eq using none by simp
  qed
qed

end
