(* ===== verification/Fibersteps.thy ===== *)
theory Fibersteps
  imports Fibersync
begin

text \<open>
  Every step of the transition system keeps the invariant of the locks.
\<close>

section \<open>The rest of the kernel\<close>

text \<open>What the scheduler does to other threads does not concern the objects.\<close>

definition quiet :: "'a intr_scheme \<Rightarrow> 'a intr_scheme \<Rightarrow> bool" where
  "quiet st st' \<longleftrightarrow> intr.more st' = intr.more st \<and> set (threads st') = set (threads st) \<and>
     (\<forall>t. is_runnable st t \<longrightarrow> is_runnable st' t) \<and> (\<forall>t. bt_tls (thread st' t) = bt_tls (thread st t))"

lemma quiet_refl: "quiet st st"
  by (simp add: quiet_def)

lemma quiet_trans: "quiet st st' \<Longrightarrow> quiet st' st'' \<Longrightarrow> quiet st st''"
  by (simp add: quiet_def)

lemma quiet_elsewhere: "quiet st st' \<Longrightarrow> elsewhere C st st'"
  by (simp add: quiet_def elsewhere_def lwp_def)

lemma quiet_wake: "quiet st (bmk_sched_wake t st)"
  by (simp add: quiet_def is_runnable_ops)
    (simp add: bmk_sched_wake_def set_runnable_def upd_thread_def)

lemma quiet_fields:
  assumes "thread st' = thread st" "set (threads st') = set (threads st)" "intr.more st' = intr.more st"
  shows "quiet st st'"
  using assms by (simp add: quiet_def is_runnable_def)

lemma quiet_isr: "quiet st (bmk_isr i st)"
  by (rule quiet_trans [OF quiet_wake [where t = "isr_thread st"]])
    (rule quiet_fields, simp_all add: bmk_isr_def Let_def bmk_sched_wake_def set_runnable_def upd_thread_def)

lemma quiet_halt: "quiet st (sched_halt irqs st)"
proof -
  have "quiet st (fold bmk_isr irqs st)" for st :: "'a intr_scheme"
    by (induction irqs arbitrary: st) (auto intro: quiet_refl quiet_trans quiet_isr)
  then have "quiet (st\<lparr>kcpu := nanohlt_begin (kcpu st)\<rparr>) (fold bmk_isr irqs (st\<lparr>kcpu := nanohlt_begin (kcpu st)\<rparr>))" .
  then show ?thesis by (simp add: sched_halt_def Let_def quiet_def is_runnable_def)
qed

lemma quiet_start_thread:
  assumes "t \<in> set (threads st)"
  shows "quiet st (start_thread tm t st)"
proof -
  have "quiet st (upd_thread t (\<lambda>x. x\<lparr>bt_flags := bt_flags x OR THREAD_TIMEDOUT\<rparr>) st)"
    by (auto simp: quiet_def upd_thread_def is_runnable_def thread_flags bit.conj_disj_distrib2)
  then have "quiet st (sched_wake_due tm t st)"
    by (auto simp: sched_wake_due_def intro: quiet_refl quiet_trans [OF _ quiet_wake])
  moreover have "x \<in> insert t (set (remove1 t (threads st))) \<longleftrightarrow> x \<in> set (threads st)" for x
    using assms by (cases "x = t") simp_all
  ultimately show ?thesis by (simp add: quiet_def start_thread_def is_runnable_def set_eq_iff)
qed

lemma quiet_switch: "quiet st (sched_switch sy prev nxt st)"
  by (simp add: quiet_def sched_switch_def Let_def set_kmem_def upd_thread_def is_runnable_def split: prod.split)

lemma away_quiet:
  assumes "bmk_sched_away sy world st = Some st'"
  shows "quiet st st'" "current_thread st' \<in> set (threads st')"
proof -
  have pick: "quiet st st1 \<and> t \<in> set (threads st1) \<and> current_thread st1 = current_thread st"
    if "sched_pick world st = Some (st1, t, rest)" for st1 t rest
    using that
  proof (induction world arbitrary: st)
    case (Cons r world)
    obtain tm irqs where r: "r = (tm, irqs)" by fastforce
    show ?case
    proof (cases "find (due tm st) (threads st)")
      case None
      then have "sched_pick world (sched_halt irqs st) = Some (st1, t, rest)" using Cons.prems by (simp add: r sched_scan_eq)
      from Cons.IH [OF this] show ?thesis using quiet_trans [OF quiet_halt] by auto
    next
      case (Some u)
      then have "u \<in> set (threads st)" by (auto simp: find_Some_iff)
      then show ?thesis using Some Cons.prems quiet_start_thread by (auto simp: r sched_scan_eq)
    qed
  qed simp
  obtain st1 t rest where p: "sched_pick world st = Some (st1, t, rest)"
    "st' = (if current_thread st \<noteq> t then sched_switch sy (current_thread st) t st1 else st1)"
    using assms by (auto simp: bmk_sched_away_def bmk_sched_current_def Let_def)
  show "quiet st st'" using pick [OF p(1)] quiet_trans [OF _ quiet_switch] p(2) by auto
  have "current_thread (sched_switch sy (current_thread st) t st1) = t \<and>
      threads (sched_switch sy (current_thread st) t st1) = threads st1"
    by (simp add: sched_switch_def Let_def set_kmem_def split: prod.split)
  then show "current_thread st' \<in> set (threads st')" using pick [OF p(1)] p(2) by auto
qed

lemma resume_quiet:
  assumes "bmk_sched_resume prev st = Returns st'"
  shows "quiet st st'" "current_thread st' = current_thread st"
proof -
  have "quiet st st' \<and> current_thread st' = current_thread st"
    if "reap prev zs st = Returns st'" for zs and st :: "'a intr_scheme"
    using that
  proof (induction zs arbitrary: st)
    case (Cons t zs)
    show ?case
    proof (cases "t = prev")
      case False
      let ?st = "st\<lparr>zombies := remove1 t (zombies st)\<rparr>"
      obtain st1 where r: "reap_thread t ?st = Returns st1" "reap prev zs st1 = Returns st'"
        using Cons.prems False by (auto simp: bind_outcome_Returns)
      obtain h where "st1 = ?st\<lparr>kheap := h\<rparr>" using r(1) by (auto simp: reap_thread_def bind_outcome_Returns)
      then have "quiet st st1" "current_thread st1 = current_thread st" by (auto intro: quiet_fields)
      then show ?thesis using Cons.IH [OF r(2)] quiet_trans by auto
    qed (use Cons in simp)
  qed (simp add: quiet_refl)
  then show "quiet st st'" "current_thread st' = current_thread st"
    using assms by (auto simp: bmk_sched_resume_def sched_reaper_def)
qed

text \<open>Sleeping and creating a thread are such steps as well.\<close>

lemma elsewhere_nanosleep:
  assumes "\<not> blocked C (current_thread st)"
  shows "elsewhere C st (bmk_sched_nanosleep now nsec st)"
  using assms by (auto simp: elsewhere_def bmk_sched_nanosleep_def bmk_sched_current_def clear_runnable_def upd_thread_def
      lwp_def is_runnable_def Let_def)

lemma elsewhere_create:
  assumes call: "bmk_sched_create sy name cookie thrflags f data stack_base stack_size st = Returns (st', t)" and "C t = []"
  shows "elsewhere C st st'"
proof -
  have "\<not> blocked C t" using assms(2) by (simp add: blocked_def)
  moreover obtain h x where "st' = st\<lparr>kheap := h, thread := (thread st)(t := x), threads := t # threads st\<rparr>"
    using call by (auto simp: bmk_sched_create_def bind_outcome_Returns set_runnable_def upd_thread_def Let_def case_prod_unfold)
  ultimately show ?thesis by (auto simp: elsewhere_def is_runnable_def lwp_def)
qed

section \<open>Every step keeps the invariant\<close>

lemma sync_add_nwaiters:
  assumes "sync_inv rc None st C"
  shows "sync_inv rc None (add_nwaiters c n st) C"
  using assms by (intro sync_inv_same [OF assms]) (auto simp: add_nwaiters_def intro: same_waits_upd)

lemma add_nwaiters_fields [simp]:
  "current_thread (add_nwaiters c n st) = current_thread st" "threads (add_nwaiters c n st) = threads st"
  by (simp_all add: add_nwaiters_def)

text \<open>Continuing after an up-call: the operation has been taken off the stack of the thread.\<close>

lemma sync_continue_return:
  assumes inv: "sync_inv rc None st C" and free: "\<not> blocked C (current_thread st)" "current_thread st \<in> set (threads st)"
    and s: "awaits s \<noteq> BmkSched" and l: "\<And>lk r. s = RwUnsched lk r \<Longrightarrow> lwp st (current_thread st) \<noteq> 0"
    and call: "continue rc n now s st = Returns (st', res)"
  shows "sync_inv rc None st' (C(current_thread st := push res (C (current_thread st))))"
proof (cases s)
  case (MutexUnsched m)
  then show ?thesis using sync_enter_loop [OF inv _ free, of m n st' res] call by simp
next
  case (RwUnsched lk r)
  then show ?thesis using sync_rw_loop [OF inv _ _ free, of r lk n st' res] l call by simp
next
  case (CvUnsched k c m nsec)
  then obtain st1 where x: "rumpuser_mutex_exit m st = Returns st1" "st' = wait_begin (CvWaiters c) now nsec st1"
      "res = Suspended (CvWaiting k c m n)" using call by (auto simp: cv_unsched_rest_def bind_outcome_Returns)
  from sync_mutex_exit [OF inv x(1)] show ?thesis
    using sync_inv_begin [of rc st1 C "CvWaiting k c m n" "CvWaiters c" now nsec] free x(2,3) by simp
next
  case (CvSchedFirst k c m nlocks rv)
  then obtain st1 where x: "rumpuser_mutex_enter_nowrap m st = Returns st1" "st' = add_nwaiters c (- 1) st1"
      "push res (C (current_thread st)) = C (current_thread st)" using call by (auto simp: bind_outcome_Returns)
  from sync_enter_nowrap(1) [OF inv x(1)] show ?thesis using x by (simp add: sync_add_nwaiters)
next
  case (CvSchedLast k c m nlocks rv)
  then show ?thesis using call inv by (auto simp: sync_add_nwaiters)
qed (use s call inv in auto)

text \<open>Continuing a wait.\<close>

lemma sync_continue_cv_wait:
  assumes inv: "sync_inv rc None st C" and top: "C (current_thread st) = CvWaiting k c m nlocks # ps"
    and q: "current_thread st \<in> set (threads st)"
    and call: "continue rc n now (CvWaiting k c m nlocks) st = Returns (st', res)"
  shows "sync_inv rc None st' (C(current_thread st := push res ps))"
proof -
  let ?t = "current_thread st" and ?st = "fst (wait_end (CvWaiters c) st)"
  let ?C = "C(?t := ps)"
  have e: "sync_inv rc None ?st ?C" using sync_inv_end [OF inv top] by (simp add: sync_inv_irrelevant)
  have free: "\<not> blocked ?C ?t" using wait_inv_end(3) [OF sync_invD(1) [OF inv] top] by simp
  have f: "current_thread ?st = ?t" "threads ?st = threads st" by (simp_all add: wait_end_fields)
  consider (nowrap) st1 where "rumpuser_mutex_enter_nowrap m ?st = Returns st1" "st' = add_nwaiters c (- 1) st1" "res = Done 0"
    | (first) rv where "st' = ?st" "res = Suspended (CvSchedFirst k c m nlocks rv)"
    | (last) rv where "rumpuser_mutex_enter_nowrap m ?st = Returns st'" "res = Suspended (CvSchedLast k c m nlocks rv)"
    using call
    by (cases "wait_end (CvWaiters c) st") (auto simp: bind_outcome_Returns cv_resched_def Let_def split: if_splits)
  then show ?thesis
  proof cases
    case nowrap
    from sync_enter_nowrap(1) [OF e nowrap(1)] show ?thesis using nowrap by (simp add: sync_add_nwaiters)
  next
    case first
    then show ?thesis
      using sync_inv_push [OF e free, of "CvSchedFirst k c m nlocks rv"] q f by (simp add: rumpkern_sched_def)
  next
    case last
    then show ?thesis
      using sync_inv_push [OF sync_enter_nowrap(1) [OF e last(1)] free, of "CvSchedLast k c m nlocks rv"]
        sync_enter_nowrap(2,3) [OF e last(1)] q f by (simp add: rumpkern_sched_def)
  qed
qed

lemma sync_continue_wait:
  assumes inv: "sync_inv rc None st C" and top: "C (current_thread st) = s # ps" and s: "awaits s = BmkSched"
    and call: "continue rc n now s st = Returns (st', res)"
  shows "sync_inv rc None st' (C(current_thread st := push res ps))"
proof -
  let ?t = "current_thread st"
  let ?C = "C(?t := ps)"
  have q: "?t \<in> set (threads st)" using sync_invD(1) [OF inv] top unfolding wait_inv_def by (metis list.distinct(1))
  obtain wh where wh: "waits_on rc s = Some wh" using sync_invD(1) [OF inv] top s unfolding wait_inv_def stack_ok_def
    by (metis list.set_intros(1) option.exhaust)
  note e = sync_inv_end [OF inv top wh] and free = wait_inv_end(3) [OF sync_invD(1) [OF inv] top wh]
  show ?thesis
  proof (cases s)
    case (MutexWait m nlocks)
    then show ?thesis using sync_enter_loop [OF e, of m nlocks st' res] wh call free q by (simp add: wait_end_fields)
  next
    case (RwWait lk r nlocks)
    then have w: "rw_waithead rc lk r = Some wh" "rw_enter_loop rc lk r nlocks (fst (wait_end wh st)) = Returns (st', res)"
      using call wh by auto
    have wt: "waiting rc C ?t wh" using top wh by (simp add: waiting_def)
    have lw: "lwp (fst (wait_end wh st)) ?t \<noteq> 0" if "lk = RUMPUSER_RW_WRITER rc"
      using that w(1) wt sync_invD(1) [OF inv] by (auto simp: wait_inv_def rw_waithead_def lwp_def wait_end_fields)
    have "sync_inv rc (if lk = RUMPUSER_RW_WRITER rc then Some wh else None) (fst (wait_end wh st)) ?C"
      using w(1) e by (auto simp: rw_waithead_def sync_inv_irrelevant split: if_splits)
    from sync_rw_loop [OF this, of r lk nlocks st' res] show ?thesis
      using w free q lw by (auto simp: wait_end_fields rw_waithead_def split: if_splits)
  next
    case (CvWaiting k c m nlocks)
    then show ?thesis using sync_continue_cv_wait [OF inv _ q] top call by simp
  qed (use s in \<open>simp_all add: rumpkern_sched_def rumpkern_unsched_def\<close>)
qed

text \<open>Calls.\<close>

lemma unused_waitq:
  assumes "wait_inv rc st C" "unused C x" "wh \<in> {MtxWaiters x, RwRwait x, RwWwait x, CvWaiters x}"
  shows "waitq wh st = []"
proof (rule ccontr)
  assume "waitq wh st \<noteq> []"
  then obtain t where "t \<in> set (waitq wh st)" by (cases "waitq wh st") auto
  then obtain s ps where s: "C t = s # ps" "waits_on rc s = Some wh" using assms(1) by (auto simp: wait_inv_def waiting_def)
  then have "x \<in> mentions s" using assms(3) by (cases s) (auto simp: rw_waithead_def split: if_splits)
  then show False using assms(2) s(1) by (auto simp: unused_def dest: spec [of _ t])
qed

lemma sync_init:
  assumes inv: "sync_inv rc None st C" and x: "unused C x"
  shows "sync_inv rc None (upd_mtx x (\<lambda>_. \<lparr>mtx_waiters = [], mtx_v = 0, mtx_flags = flags, mtx_o = 0\<rparr>) (st\<lparr>kheap := h\<rparr>)) C"
    "sync_inv rc None (upd_rw x (\<lambda>_. \<lparr>rw_rwait = [], rw_wwait = [], rw_v = 0, rw_o = 0\<rparr>) (st\<lparr>kheap := h\<rparr>)) C"
    "sync_inv rc None (upd_cv x (\<lambda>_. \<lparr>cv_waiters = [], cv_nwaiters = 0\<rparr>) (st\<lparr>kheap := h\<rparr>)) C"
proof -
  let ?st = "st\<lparr>kheap := h\<rparr>"
  have inv1: "sync_inv rc None ?st C" using sync_inv_elsewhere [OF inv elsewhere_kheap] .
  note e = unused_waitq [OF sync_invD(1) [OF inv1] x]
  have q: "waitq (MtxWaiters x) ?st = []" "waitq (RwRwait x) ?st = []" "waitq (RwWwait x) ?st = []" "waitq (CvWaiters x) ?st = []"
    using e by blast+
  show "sync_inv rc None (upd_mtx x (\<lambda>_. \<lparr>mtx_waiters = [], mtx_v = 0, mtx_flags = flags, mtx_o = 0\<rparr>) ?st) C"
    by (rule sync_inv_same [OF inv1 same_waits_upd(1)]) (use q in \<open>auto split: if_splits\<close>)
  show "sync_inv rc None (upd_rw x (\<lambda>_. \<lparr>rw_rwait = [], rw_wwait = [], rw_v = 0, rw_o = 0\<rparr>) ?st) C"
    by (rule sync_inv_same [OF inv1 same_waits_upd(2)]) (use q in \<open>auto split: if_splits\<close>)
  show "sync_inv rc None (upd_cv x (\<lambda>_. \<lparr>cv_waiters = [], cv_nwaiters = 0\<rparr>) ?st) C"
    by (rule sync_inv_same [OF inv1 same_waits_upd(3)]) (use q in auto)
qed

lemma elsewhere_curlwpop:
  assumes "rumpuser_curlwpop rc op l st = Returns st'" "\<not> blocked C (current_thread st)"
  shows "elsewhere C st st'"
proof -
  have "elsewhere C st st" by (simp add: elsewhere_def)
  moreover have "elsewhere C st (upd_thread (current_thread st) (\<lambda>x. x\<lparr>bt_tls := (bt_tls x)(0 := v)\<rparr>) st)" for v
    using assms(2) by (auto simp: elsewhere_def upd_thread_def is_runnable_def lwp_def)
  ultimately show ?thesis
    using assms(1) by (auto simp: rumpuser_curlwpop_def bmk_sched_settls_def TLS_COUNT_def BMK_TLS_RUMPLWP_def
        bmk_sched_current_def split: if_splits)
qed

lemma sync_call:
  assumes inv: "sync_inv rc None st C" and free: "\<not> blocked C (current_thread st)" "current_thread st \<in> set (threads st)"
    and call: "fiber_call rc C st st' res"
  shows "sync_inv rc None st' (C(current_thread st := push res (C (current_thread st))))"
  using call
proof cases
  case (c_mutex_init flags m)
  then show ?thesis using sync_init(1) [OF inv] by (auto simp: rumpuser_mutex_init_def bind_outcome_Returns)
next
  case (c_mutex_enter m)
  then obtain rv where t: "rumpuser_mutex_tryenter m st = Returns (st', rv)" "res = (if rv \<noteq> 0 then Suspended (MutexUnsched m) else Done 0)"
    by (auto simp: rumpuser_mutex_enter_def bind_outcome_Returns split: if_splits)
  note s = sync_tryenter [OF inv disjI1 [OF refl] t(1)]
  show ?thesis using sync_inv_push [OF s(1) free(1), of "MutexUnsched m"] s free(2) t(2) by (simp add: rumpkern_unsched_def)
next
  case (c_mutex_enter_nowrap m)
  then show ?thesis using sync_enter_nowrap [OF inv] by simp
next
  case (c_mutex_tryenter m rv)
  then show ?thesis using sync_tryenter(1) [OF inv disjI1 [OF refl]] by simp
next
  case (c_mutex_exit m)
  then show ?thesis using sync_mutex_exit [OF inv] by simp
next
  case (c_rw_init r)
  then show ?thesis using sync_init(2) [OF inv] by (auto simp: rumpuser_rw_init_def bind_outcome_Returns)
next
  case (c_rw_enter lk r)
  then obtain rv where t: "rumpuser_rw_tryenter rc lk r st = Returns (st', rv)" "res = (if rv \<noteq> 0 then Suspended (RwUnsched lk r) else Done 0)"
    by (auto simp: rumpuser_rw_enter_def bind_outcome_Returns split: if_splits)
  have "lwp st (current_thread st) \<noteq> 0" using c_rw_enter by simp
  note s = sync_rw_tryenter [OF inv disjI1 [OF refl] this t(1)]
  show ?thesis using sync_inv_push [OF s(1) free(1), of "RwUnsched lk r"] s free(2) t(2) by (simp add: rumpkern_unsched_def)
next
  case (c_rw_tryenter lk r rv)
  then show ?thesis using sync_rw_tryenter(1) [OF inv disjI1 [OF refl]] by simp
next
  case (c_rw_exit r)
  then show ?thesis using sync_rw_exit [OF inv] by simp
next
  case (c_rw_downgrade r)
  then have "st' = upd_rw r (\<lambda>x. x\<lparr>rw_v := - 1\<rparr>) st" by (auto simp: rumpuser_rw_downgrade_def split: if_splits)
  then show ?thesis using c_rw_downgrade by (auto intro!: sync_inv_same [OF inv] same_waits_upd split: if_splits)
next
  case (c_rw_tryupgrade r rv)
  then have "st' = st \<or> st' = upd_rw r (\<lambda>x. x\<lparr>rw_v := 1, rw_o := lwp st (current_thread st)\<rparr>) st"
    by (auto simp: rumpuser_rw_tryupgrade_def split: if_splits)
  then show ?thesis using c_rw_tryupgrade inv by (auto intro!: sync_inv_same [OF inv] same_waits_upd split: if_splits)
next
  case (c_cv_init c)
  then show ?thesis using sync_init(3) [OF inv] by (auto simp: rumpuser_cv_init_def bind_outcome_Returns)
next
  case (c_cv_wait_nowrap c m)
  then obtain st1 where x: "rumpuser_mutex_exit m (add_nwaiters c 1 st) = Returns st1"
      "st' = wait_begin (CvWaiters c) 0 0 st1" "res = Suspended (CvWaiting CvWaitNowrap c m 0)"
    by (auto simp: rumpuser_cv_wait_nowrap_def bind_outcome_Returns)
  from sync_mutex_exit [OF sync_add_nwaiters [OF inv] x(1)] show ?thesis
    using sync_inv_begin [of rc st1 C "CvWaiting CvWaitNowrap c m 0" "CvWaiters c" 0 0] free x(2,3) by simp
next
  case (c_cv_wait c m)
  then show ?thesis
    using sync_inv_push [OF sync_add_nwaiters [OF inv] free(1), of c 1 "CvUnsched CvWait c m 0"] free(2)
    by (auto simp: rumpuser_cv_wait_def rumpkern_unsched_def)
next
  case (c_cv_timedwait c m sec nsec)
  then show ?thesis
    using sync_inv_push [OF sync_add_nwaiters [OF inv] free(1), of c 1] free(2)
    by (auto simp: rumpuser_cv_timedwait_def rumpkern_unsched_def)
next
  case (c_cv_signal c)
  then show ?thesis using sync_inv_wakeup_one [OF inv] by (simp add: rumpuser_cv_signal_def)
next
  case (c_cv_broadcast c)
  then show ?thesis using sync_inv_wakeup_all [OF inv] by (simp add: rumpuser_cv_broadcast_def)
next
  case (c_curlwpop op l)
  then show ?thesis using sync_inv_elsewhere [OF inv elsewhere_curlwpop] free(1) by simp
qed (auto simp: rumpuser_mutex_destroy_def rumpuser_rw_destroy_def rumpuser_cv_destroy_def bind_outcome_Returns
    intro: sync_inv_elsewhere [OF inv elsewhere_kheap] split: if_splits)

lemma sync_step:
  assumes "fiber_step rc sy (st, C) (st', C')" and inv: "sync_inv rc None st C"
  shows "sync_inv rc None st' C'"
  using assms(1)
proof cases
  case (f_call res)
  then show ?thesis using sync_call [OF inv] by simp
next
  case (f_return s ps n now res)
  have q: "current_thread st \<in> set (threads st)" and ok: "stack_ok rc (s # ps)"
    using sync_invD(1) [OF inv] f_return(2) unfolding wait_inv_def by (metis list.distinct(1))+
  have tail: "awaits x \<noteq> BmkSched" if "x \<in> set ps" for x using ok that by (simp add: stack_ok_def)
  let ?C = "C(current_thread st := ps)"
  have inv1: "sync_inv rc None st ?C"
    using f_return tail q by (intro sync_inv_stack [OF inv]) (auto simp: blocked_def)
  have free: "\<not> blocked ?C (current_thread st)" using tail [of "hd ps"] by (auto simp: blocked_def)
  have "sync_inv rc None st' (?C(current_thread st := push res (?C (current_thread st))))"
    by (rule sync_continue_return [OF inv1 free q f_return(3) _ f_return(4)]) (rule f_return(5))
  then show ?thesis using f_return(1) by simp
next
  case (f_sched_wait world st1 s ps st2 n now res)
  have "sync_inv rc None st1 C" using sync_inv_elsewhere [OF inv quiet_elsewhere [OF away_quiet(1) [OF f_sched_wait(2)]]] .
  then have "sync_inv rc None st2 C" using sync_inv_elsewhere quiet_elsewhere [OF resume_quiet(1) [OF f_sched_wait(5)]] by blast
  from sync_continue_wait [OF this _ f_sched_wait(4,6)] show ?thesis
    using f_sched_wait(1,3) resume_quiet(2) [OF f_sched_wait(5)] by simp
next
  case (f_sched_other world)
  then show ?thesis using sync_inv_elsewhere [OF inv quiet_elsewhere [OF away_quiet(1)]] by simp
next
  case f_elsewhere
  then show ?thesis using sync_inv_elsewhere [OF inv] by simp
qed

lemma sync_start:
  assumes "fiber_start st"
  shows "sync_inv rc None st (\<lambda>_. [])"
  using assms by (simp add: fiber_start_def sync_inv_def wait_inv_def stack_ok_def waiting_def mutex_ok_def rw_ok_def del: waitq.simps)

lemma sync_reach:
  assumes "fiber_reach rc sy s s'" "sync_inv rc None (fst s) (snd s)"
  shows "sync_inv rc None (fst s') (snd s')"
  using assms
proof (induction rule: fiber_reach.induct)
  case (fiber_more s s' s'')
  then show ?case using sync_step by (cases s'; cases s'') auto
qed simp

end
