(* ===== verification/Fibercv.thy ===== *)
theory Fibercv
  imports Fibersteps
begin

text \<open>
  What the users of \<^verbatim>\<open>rumpfiber.c\<close> can rely on, and where the code does not do what it should.
\<close>

section \<open>The count of a condition variable\<close>

fun cv_object :: "suspended \<Rightarrow> u32 option" where
  "cv_object (CvUnsched k c m nsec) = Some c"
| "cv_object (CvWaiting k c m nlocks) = Some c"
| "cv_object (CvSchedFirst k c m nlocks rv) = Some c"
| "cv_object (CvSchedLast k c m nlocks rv) = Some c"
| "cv_object s = None"

definition cv_ops :: "u32 \<Rightarrow> suspended list \<Rightarrow> nat" where
  "cv_ops c ps = length (filter (\<lambda>s. cv_object s = Some c) ps)"

definition cv_users :: "calls \<Rightarrow> u32 \<Rightarrow> nat" where
  "cv_users C c = (\<Sum>t | C t \<noteq> []. cv_ops c (C t))"

lemma cv_ops_simps [simp]: "cv_ops c [] = 0" "cv_ops c (s # ps) = (if cv_object s = Some c then 1 else 0) + cv_ops c ps"
  by (simp_all add: cv_ops_def)

lemma cv_users_upd:
  assumes "finite {t. C t \<noteq> []}"
  shows "cv_users (C(t := ps)) c + cv_ops c (C t) = cv_users C c + cv_ops c ps"
proof -
  let ?A = "insert t {t. C t \<noteq> []}"
  have fin: "finite ?A" using assms by simp
  have "cv_users C c = (\<Sum>u \<in> ?A. cv_ops c (C u))"
    unfolding cv_users_def using fin by (intro sum.mono_neutral_left) auto
  also have "\<dots> = cv_ops c (C t) + (\<Sum>u \<in> ?A - {t}. cv_ops c (C u))" by (rule sum.remove [OF fin]) simp
  finally have 1: "cv_users C c = cv_ops c (C t) + (\<Sum>u \<in> ?A - {t}. cv_ops c (C u))" .
  have "cv_users (C(t := ps)) c = (\<Sum>u \<in> ?A. cv_ops c ((C(t := ps)) u))"
    unfolding cv_users_def using fin by (intro sum.mono_neutral_left) (auto split: if_splits)
  also have "\<dots> = cv_ops c ps + (\<Sum>u \<in> ?A - {t}. cv_ops c ((C(t := ps)) u))"
    by (subst sum.remove [OF fin, of t]) simp_all
  also have "(\<Sum>u \<in> ?A - {t}. cv_ops c ((C(t := ps)) u)) = (\<Sum>u \<in> ?A - {t}. cv_ops c (C u))" by (intro sum.cong) auto
  finally show ?thesis using 1 by linarith
qed

definition cv_inv :: "fiber \<Rightarrow> calls \<Rightarrow> bool" where
  "cv_inv st C \<longleftrightarrow> (\<forall>c. cv_nwaiters (cv st c) = int (cv_users C c))"

lemma nwaiters_add: "cv_nwaiters (cv (add_nwaiters c n st) d) = cv_nwaiters (cv st d) + (if d = c then n else 0)"
  by (simp add: add_nwaiters_def)

lemma nwaiters_mutex:
  "rumpuser_mutex_exit m st = Returns st' \<Longrightarrow> cv_nwaiters (cv st' c) = cv_nwaiters (cv st c)"
  "rumpuser_mutex_tryenter m st = Returns (st', rv) \<Longrightarrow> cv_nwaiters (cv st' c) = cv_nwaiters (cv st c)"
  "rumpuser_mutex_enter_nowrap m st = Returns st' \<Longrightarrow> cv_nwaiters (cv st' c) = cv_nwaiters (cv st c)"
  "rumpuser_rw_tryenter rc lk r st = Returns (st', rv) \<Longrightarrow> cv_nwaiters (cv st' c) = cv_nwaiters (cv st c)"
  by (auto simp: rumpuser_mutex_exit_def rumpuser_mutex_tryenter_eq rumpuser_mutex_enter_nowrap_def
      rumpuser_rw_tryenter_eq Let_def split: if_splits)

text \<open>An operation keeps its condition variable counted while it is suspended.\<close>

lemma continue_nwaiters:
  assumes "continue rc n now s st = Returns (st', res)"
  shows "cv_nwaiters (cv st' c) + int (cv_ops c [s]) = cv_nwaiters (cv st c) + int (cv_ops c (push res []))"
proof -
  note unfold = mutex_enter_loop_def rw_enter_loop_def cv_unsched_rest_def cv_resched_def bind_outcome_Returns Let_def
  have w: "wait_end wh st = (st1, rv) \<Longrightarrow> cv_nwaiters (cv st1 c) = cv_nwaiters (cv st c)" for wh st1 rv
    using wait_counts(6) [of wh st c] by simp
  show ?thesis
    using assms by (cases s) (auto simp: unfold nwaiters_add nwaiters_mutex w split: if_splits option.splits prod.splits)
qed

lemma unused_users: "unused C c \<Longrightarrow> cv_users C c = 0"
proof -
  assume u: "unused C c"
  have "cv_ops c (C t) = 0" for t
  proof -
    have "cv_object s \<noteq> Some c" if "s \<in> set (C t)" for s
      using u that by (cases s) (auto simp: unused_def dest!: spec [of _ t])
    then show ?thesis by (simp add: cv_ops_def)
  qed
  then show ?thesis by (simp add: cv_users_def)
qed

lemma call_nwaiters:
  assumes "fiber_call rc C st st' res" "cv_inv st C"
  shows "cv_nwaiters (cv st' c) = cv_nwaiters (cv st c) + int (cv_ops c (push res []))"
  using assms(1)
proof cases
  case (c_cv_init x)
  have "cv_nwaiters (cv st x) = 0" using assms(2) unused_users [OF c_cv_init(3)] by (simp add: cv_inv_def)
  then show ?thesis using c_cv_init by (auto simp: rumpuser_cv_init_def bind_outcome_Returns)
next
  case (c_curlwpop op l)
  then have "intr.more st' = intr.more st"
    by (auto simp: rumpuser_curlwpop_def bmk_sched_settls_def upd_thread_def split: if_splits)
  then show ?thesis using more_fields(3) [of st' st] c_curlwpop by simp
next
  case (c_rw_exit r)
  then show ?thesis by (auto simp: rumpuser_rw_exit_def Let_def)
qed (auto simp: rumpuser_mutex_init_def rumpuser_mutex_enter_def rumpuser_mutex_destroy_def rumpuser_rw_init_def
    rumpuser_rw_enter_def rumpuser_rw_downgrade_def rumpuser_rw_tryupgrade_def rumpuser_rw_destroy_def
    rumpuser_cv_wait_def rumpuser_cv_wait_nowrap_def rumpuser_cv_timedwait_def rumpuser_cv_signal_def
    rumpuser_cv_broadcast_def rumpuser_cv_destroy_def bind_outcome_Returns nwaiters_add nwaiters_mutex Let_def split: if_splits)

lemma push_ops: "cv_ops c (push res ps) = cv_ops c (push res []) + cv_ops c ps"
  by (cases res) simp_all

lemma wait_inv_finite: "wait_inv rc st C \<Longrightarrow> finite {t. C t \<noteq> []}"
  by (rule finite_subset [of _ "set (threads st)"]) (auto simp: wait_inv_def)

lemma cv_inv_upd:
  assumes inv: "cv_inv st C" and fin: "finite {t. C t \<noteq> []}"
    and d: "\<And>c. cv_nwaiters (cv st' c) + int (cv_ops c (C t)) = cv_nwaiters (cv st c) + int (cv_ops c ps)"
  shows "cv_inv st' (C(t := ps))"
  unfolding cv_inv_def
proof
  fix c
  have "int (cv_users (C(t := ps)) c) + int (cv_ops c (C t)) = int (cv_users C c) + int (cv_ops c ps)"
    using cv_users_upd [OF fin, of t ps c] by (metis of_nat_add)
  then show "cv_nwaiters (cv st' c) = int (cv_users (C(t := ps)) c)" using d [of c] inv by (simp add: cv_inv_def)
qed

lemma cv_inv_elsewhere: "cv_inv st C \<Longrightarrow> elsewhere C' st st' \<Longrightarrow> cv_inv st' C"
  using more_fields(3) [of st' st] by (simp add: cv_inv_def elsewhere_def)

lemma cv_step:
  assumes "fiber_step rc sy (st, C) (st', C')" and inv: "cv_inv st C" and fin: "finite {t. C t \<noteq> []}"
  shows "cv_inv st' C'"
  using assms(1)
proof cases
  case (f_call res)
  then show ?thesis
    using cv_inv_upd [OF inv fin, of st' "current_thread st" "push res (C (current_thread st))"] call_nwaiters [OF _ inv]
      push_ops [of _ res "C (current_thread st)"] by simp
next
  case (f_return s ps n now res)
  have "cv_nwaiters (cv st' c) + int (cv_ops c (C (current_thread st))) = cv_nwaiters (cv st c) + int (cv_ops c (push res ps))" for c
    using continue_nwaiters [OF f_return(4), of c] push_ops [of c res ps] f_return(2) by simp
  then show ?thesis using cv_inv_upd [OF inv fin] f_return(1) by simp
next
  case (f_sched_wait world st1 s ps st2 n now res)
  have "cv_inv st1 C" using cv_inv_elsewhere [OF inv quiet_elsewhere [OF away_quiet(1) [OF f_sched_wait(2)]]] .
  then have inv2: "cv_inv st2 C" using cv_inv_elsewhere quiet_elsewhere [OF resume_quiet(1) [OF f_sched_wait(5)]] by blast
  have "cv_nwaiters (cv st' c) + int (cv_ops c (C (current_thread st1))) = cv_nwaiters (cv st2 c) + int (cv_ops c (push res ps))" for c
    using continue_nwaiters [OF f_sched_wait(6), of c] push_ops [of c res ps] f_sched_wait(3) by simp
  then show ?thesis using cv_inv_upd [OF inv2 fin] f_sched_wait(1) by simp
next
  case (f_sched_other world)
  then show ?thesis using cv_inv_elsewhere [OF inv quiet_elsewhere [OF away_quiet(1)]] by blast
next
  case f_elsewhere
  then show ?thesis using cv_inv_elsewhere [OF inv] by blast
qed

lemma fiber_reach_inv:
  assumes "fiber_reach rc sy (st0, \<lambda>_. []) (st, C)" "fiber_start st0"
  shows "sync_inv rc None st C" "cv_inv st C"
proof -
  have "sync_inv rc None (fst s') (snd s') \<and> cv_inv (fst s') (snd s')"
    if "fiber_reach rc sy s s'" "sync_inv rc None (fst s) (snd s) \<and> cv_inv (fst s) (snd s)" for s s'
    using that
  proof (induction rule: fiber_reach.induct)
    case (fiber_more s s' s'')
    then show ?case
      using sync_step [of rc sy "fst s'" "snd s'" "fst s''" "snd s''"]
        cv_step [of rc sy "fst s'" "snd s'" "fst s''" "snd s''"] wait_inv_finite sync_invD(1) by auto
  qed simp
  moreover have "sync_inv rc None st0 (\<lambda>_. []) \<and> cv_inv st0 (\<lambda>_. [])"
    using sync_start [OF assms(2)] assms(2) by (simp add: cv_inv_def cv_users_def fiber_start_def)
  ultimately show "sync_inv rc None st C" "cv_inv st C" using assms(1) by fastforce+
qed

section \<open>Properties\<close>

text \<open>
  (C7) No wake-up of a mutex is lost. Whatever operations on whatever mutexes, locks and condition
  variables the threads have called, in whatever order they were scheduled, interrupted and timed
  out: when a mutex is free and threads wait for it, one thread has been woken for it, which is on
  the queue of the scheduler, runnable, and will try the mutex when it runs.
\<close>

theorem mutex_wakeup_not_lost:
  assumes "fiber_start st0" "fiber_reach rc sy (st0, \<lambda>_. []) (st, C)"
    and "mtx_v (mtx st m) = 0" "mtx_waiters (mtx st m) \<noteq> []"
  shows "\<exists>t nlocks ps. C t = MutexWait m nlocks # ps \<and> t \<notin> set (mtx_waiters (mtx st m)) \<and>
    t \<in> set (threads st) \<and> is_runnable st t"
proof -
  note inv = fiber_reach_inv(1) [OF assms(2,1)]
  obtain t where "woken rc st C t (MtxWaiters m)" using sync_invD(3) [OF inv, of m] assms(3,4) by (auto simp: mutex_ok_def)
  then obtain s ps where s: "C t = s # ps" "waits_on rc s = Some (MtxWaiters m)" "\<not> onlist (waiters st t)"
    by (auto simp: woken_def waiting_def)
  have w: "waiting rc C t (MtxWaiters m)" using s by (simp add: waiting_def)
  have "t \<notin> set (waitq (MtxWaiters m) st)" "is_runnable st t" "t \<in> set (threads st)"
    using sync_invD(1) [OF inv] w s(1,3) unfolding wait_inv_def by (metis list.distinct(1))+
  moreover obtain nlocks where "s = MutexWait m nlocks" using s(2) by (cases s) (auto simp: rw_waithead_def split: if_splits)
  ultimately show ?thesis using s(1) by auto
qed

text \<open>
  (C23) No wake-up of a reader/writer lock is lost: when no writer owns the lock and threads wait for
  it, a writer has been woken for it, which is on the queue of the scheduler, runnable, and will
  try the lock when it runs (and wake the readers when it leaves).
\<close>

theorem rw_wakeup_not_lost:
  assumes "fiber_start st0" "fiber_reach rc sy (st0, \<lambda>_. []) (st, C)"
    and "rw_o (rw st r) = 0" "rw_wwait (rw st r) \<noteq> [] \<or> rw_rwait (rw st r) \<noteq> []"
  shows "\<exists>t nlocks ps. C t = RwWait (RUMPUSER_RW_WRITER rc) r nlocks # ps \<and> t \<notin> set (rw_wwait (rw st r)) \<and>
    t \<in> set (threads st) \<and> is_runnable st t"
proof -
  note inv = fiber_reach_inv(1) [OF assms(2,1)]
  obtain t where "woken rc st C t (RwWwait r)" using sync_invD(4) [OF inv, of r] assms(3,4) by (auto simp: rw_ok_def)
  then obtain s ps where s: "C t = s # ps" "waits_on rc s = Some (RwWwait r)" "\<not> onlist (waiters st t)"
    by (auto simp: woken_def waiting_def)
  have w: "waiting rc C t (RwWwait r)" using s by (simp add: waiting_def)
  have "t \<notin> set (waitq (RwWwait r) st)" "is_runnable st t" "t \<in> set (threads st)"
    using sync_invD(1) [OF inv] w s(1,3) unfolding wait_inv_def by (metis list.distinct(1))+
  moreover obtain nlocks where "s = RwWait (RUMPUSER_RW_WRITER rc) r nlocks"
    using s(2) by (cases s) (auto simp: rw_waithead_def split: if_splits)
  ultimately show ?thesis using s(1) by auto
qed

text \<open>
  (C24) The wait queues are well formed in every reachable state: a queue has no thread twice, no thread
  is on two queues, every thread on a queue is inside \<^verbatim>\<open>wait\<close> on this queue, and a thread inside
  \<^verbatim>\<open>wait\<close> that has left its queue is runnable: it cannot sleep forever.
\<close>

theorem wait_queues_well_formed:
  assumes "fiber_start st0" "fiber_reach rc sy (st0, \<lambda>_. []) (st, C)"
  shows "distinct (waitq wh st) \<and> (wh \<noteq> wh' \<longrightarrow> set (waitq wh st) \<inter> set (waitq wh' st) = {}) \<and>
    (\<forall>t \<in> set (waitq wh st). \<exists>s ps. C t = s # ps \<and> waits_on rc s = Some wh) \<and>
    (\<forall>t s ps. C t = s # ps \<and> waits_on rc s = Some wh \<and> t \<notin> set (waitq wh st) \<longrightarrow> is_runnable st t \<and> t \<in> set (threads st))"
proof -
  note inv = sync_invD(1) [OF fiber_reach_inv(1) [OF assms(2,1)]]
  have mem: "t \<in> set (waitq wh st) \<longleftrightarrow> waiting rc C t wh \<and> onlist (waiters st t)" for t wh
    using inv by (simp add: wait_inv_def)
  have run: "is_runnable st t \<and> t \<in> set (threads st)" if "C t = s # ps" "waits_on rc s = Some wh" "t \<notin> set (waitq wh st)" for t s ps
  proof -
    have "waiting rc C t wh" using that by (simp add: waiting_def)
    then show ?thesis using mem [of t wh] inv that(1,3) unfolding wait_inv_def by (metis list.distinct(1))
  qed
  have "set (waitq wh st) \<inter> set (waitq wh' st) = {}" if "wh \<noteq> wh'" using that mem waiting_unique by blast
  moreover have "distinct (waitq wh st)" using inv by (simp add: wait_inv_def)
  ultimately show ?thesis using mem run by (simp add: waiting_def) blast
qed

text \<open>
  (C25) \<^verbatim>\<open>nwaiters\<close> of a condition variable is the number of operations on it that have not returned,
  so \<^verbatim>\<open>rumpuser_cv_destroy\<close> passes its assertion only when nobody uses the condition variable.
\<close>

theorem cv_destroy_unused:
  assumes "fiber_start st0" "fiber_reach rc sy (st0, \<lambda>_. []) (st, C)"
  shows "cv_nwaiters (cv st c) = int (cv_users C c) \<and>
    (rumpuser_cv_has_waiters c st = 0 \<longleftrightarrow> (\<forall>t. \<forall>s \<in> set (C t). cv_object s \<noteq> Some c)) \<and>
    (rumpuser_cv_destroy c st = Returns st' \<longrightarrow> cv_waiters (cv st c) = [] \<and> (\<forall>t. \<forall>s \<in> set (C t). cv_object s \<noteq> Some c))"
proof -
  note inv = fiber_reach_inv [OF assms(2,1)]
  have n: "cv_nwaiters (cv st c) = int (cv_users C c)" using inv(2) by (simp add: cv_inv_def)
  have fin: "finite {t. C t \<noteq> []}" using wait_inv_finite sync_invD(1) [OF inv(1)] by blast
  have "cv_users C c = 0 \<longleftrightarrow> (\<forall>t. C t \<noteq> [] \<longrightarrow> cv_ops c (C t) = 0)" using fin by (simp add: cv_users_def)
  also have "\<dots> \<longleftrightarrow> (\<forall>t. cv_ops c (C t) = 0)" by (metis cv_ops_simps(1))
  also have "\<dots> \<longleftrightarrow> (\<forall>t. \<forall>s \<in> set (C t). cv_object s \<noteq> Some c)"
    by (auto simp: cv_ops_def filter_empty_conv)
  finally have u: "cv_users C c = 0 \<longleftrightarrow> (\<forall>t. \<forall>s \<in> set (C t). cv_object s \<noteq> Some c)" .
  have "cv_waiters (cv st c) = []" if "cv_users C c = 0"
  proof (rule ccontr)
    assume "cv_waiters (cv st c) \<noteq> []"
    then obtain t where "t \<in> set (waitq (CvWaiters c) st)" by (cases "cv_waiters (cv st c)") auto
    then obtain s ps where "C t = s # ps" "waits_on rc s = Some (CvWaiters c)"
      using sync_invD(1) [OF inv(1)] unfolding wait_inv_def waiting_def by blast
    then show False using that u by (cases s) (auto simp: rw_waithead_def split: if_splits dest!: spec [of _ t])
  qed
  then show ?thesis using n u by (auto simp: rumpuser_cv_has_waiters_def rumpuser_cv_destroy_def split: if_splits)
qed

end
