(* ===== verification/Fiberuse.thy ===== *)
theory Fiberuse
  imports Fibercv
begin

text \<open>
  Executions of the synchronisation primitives: signals arrive, mutexes exclude, a reader/writer lock
  does not, and a condition variable can stop the kernel.
\<close>

section \<open>Signals\<close>

text \<open>Only the thread itself puts itself on a queue.\<close>

definition unlisted :: "fiber \<Rightarrow> fiber \<Rightarrow> u32 \<Rightarrow> bool" where
  "unlisted st st' t \<longleftrightarrow> (onlist (waiters st' t) \<longrightarrow> onlist (waiters st t))"

lemma unlisted_wakeup_one: "onlist (waiters (wakeup_one wh st) t) \<Longrightarrow> onlist (waiters st t)"
  by (auto simp: wakeup_one_def Let_def bmk_sched_wake_def set_runnable_def split: list.splits if_splits)

lemma unlisted_wakeup_all: "onlist (waiters (wakeup_all wh st) t) \<Longrightarrow> onlist (waiters st t)"
proof (induction wh st rule: wakeup_all.induct)
  case (1 wh st)
  then show ?case
    by (cases "waitq wh st = []") (auto simp: wakeup_all_Nil wakeup_all_step dest: unlisted_wakeup_one)
qed

lemma waiters_upd [simp]:
  "waiters (upd_mtx m f st) = waiters st" "waiters (upd_rw r g st) = waiters st" "waiters (upd_cv c h st) = waiters st"
  "waiters (add_nwaiters c n st) = waiters st"
  by (simp_all add: upd_mtx_def upd_rw_def upd_cv_def add_nwaiters_def)

lemma unlisted_mutex:
  "rumpuser_mutex_exit m st = Returns st' \<Longrightarrow> unlisted st st' t"
  "rumpuser_mutex_tryenter m st = Returns (st', rv) \<Longrightarrow> unlisted st st' t"
  "rumpuser_mutex_enter_nowrap m st = Returns st' \<Longrightarrow> unlisted st st' t"
  "rumpuser_rw_tryenter rc lk r st = Returns (st', rv) \<Longrightarrow> unlisted st st' t"
  by (auto simp: unlisted_def rumpuser_mutex_exit_def rumpuser_mutex_tryenter_eq rumpuser_mutex_enter_nowrap_def
      rumpuser_rw_tryenter_eq Let_def split: if_splits dest!: unlisted_wakeup_one)

lemmas unlisted_mutexD = unlisted_mutex [unfolded unlisted_def, THEN mp]

lemma cur_mutex:
  "rumpuser_mutex_exit m st = Returns st' \<Longrightarrow> current_thread st' = current_thread st"
  "rumpuser_mutex_tryenter m st = Returns (st', rv) \<Longrightarrow> current_thread st' = current_thread st"
  "rumpuser_rw_tryenter rc lk r st = Returns (st', rv) \<Longrightarrow> current_thread st' = current_thread st"
  by (auto simp: rumpuser_mutex_exit_def rumpuser_mutex_tryenter_eq rumpuser_rw_tryenter_eq wakeup_one_fields Let_def split: if_splits)

lemma unlisted_call:
  assumes "fiber_call rc C st st' res" "t \<noteq> current_thread st"
  shows "unlisted st st' t"
  using assms(1)
proof cases
  case (c_curlwpop op l)
  then have "intr.more st' = intr.more st"
    by (auto simp: rumpuser_curlwpop_def bmk_sched_settls_def upd_thread_def split: if_splits)
  then show ?thesis using more_fields(4) [of st' st] by (simp add: unlisted_def)
next
  case (c_cv_wait_nowrap c m)
  then obtain st1 where x: "rumpuser_mutex_exit m (add_nwaiters c 1 st) = Returns st1" "st' = wait_begin (CvWaiters c) 0 0 st1"
    by (auto simp: rumpuser_cv_wait_nowrap_def bind_outcome_Returns)
  then show ?thesis using unlisted_mutex(1) [OF x(1), of t] cur_mutex(1) [OF x(1)] assms(2) by (simp add: unlisted_def wait_begin_fields)
next
  case (c_rw_exit r)
  then show ?thesis by (auto simp: unlisted_def rumpuser_rw_exit_def Let_def split: if_splits dest!: unlisted_wakeup_one unlisted_wakeup_all)
next
  case (c_mutex_enter m)
  then show ?thesis using unlisted_mutex(2) [of m st] by (auto simp: rumpuser_mutex_enter_def bind_outcome_Returns split: if_splits)
next
  case (c_rw_enter lk r)
  then show ?thesis using unlisted_mutex(4) [of rc lk r st] by (auto simp: rumpuser_rw_enter_def bind_outcome_Returns split: if_splits)
next
  case (c_cv_signal c)
  then show ?thesis by (auto simp: unlisted_def rumpuser_cv_signal_def dest: unlisted_wakeup_one)
next
  case (c_cv_broadcast c)
  then show ?thesis by (auto simp: unlisted_def rumpuser_cv_broadcast_def dest: unlisted_wakeup_all)
qed (auto simp: unlisted_def rumpuser_mutex_init_def rumpuser_mutex_destroy_def rumpuser_rw_init_def
    rumpuser_rw_downgrade_def rumpuser_rw_tryupgrade_def rumpuser_rw_destroy_def
    rumpuser_cv_wait_def rumpuser_cv_timedwait_def rumpuser_cv_destroy_def rumpuser_cv_init_def bind_outcome_Returns
    split: if_splits dest: unlisted_mutexD)

lemma unlisted_continue:
  assumes "continue rc n now s st = Returns (st', res)" "t \<noteq> current_thread st"
  shows "unlisted st st' t"
proof -
  have e: "waiters (fst (wait_end wh st)) = waiters st" "current_thread (fst (wait_end wh st)) = current_thread st" for wh
    by (simp_all add: wait_end_fields)
  have refl: "unlisted st st t" "unlisted st (add_nwaiters c k st) t" for c k by (simp_all add: unlisted_def)
  have w: "unlisted st (wait_begin wh now nsec st1) t" if "unlisted st st1 t" "current_thread st1 = current_thread st" for wh now nsec st1
    using that assms(2) by (simp add: unlisted_def wait_begin_fields)
  have loop: "unlisted st st' t" if call: "mutex_enter_loop m nlocks st1 = Returns (st', res)" "waiters st1 = waiters st"
      "current_thread st1 = current_thread st" for m nlocks st1
  proof -
    obtain st2 rv where x: "rumpuser_mutex_tryenter m st1 = Returns (st2, rv)" "st' = st2 \<or> st' = wait_begin (MtxWaiters m) 0 0 st2"
      using call(1) by (auto simp: mutex_enter_loop_def bind_outcome_Returns split: if_splits)
    then have "unlisted st st2 t" "current_thread st2 = current_thread st"
      using unlisted_mutex(2) [OF x(1), of t] cur_mutex(2) [OF x(1)] call(2,3) by (simp_all add: unlisted_def)
    then show ?thesis using x(2) w by blast
  qed
  have rw: "unlisted st st' t" if call: "rw_enter_loop rc lk r nlocks st1 = Returns (st', res)" "waiters st1 = waiters st"
      "current_thread st1 = current_thread st" for lk r nlocks st1
  proof -
    obtain st2 rv wh where x: "rumpuser_rw_tryenter rc lk r st1 = Returns (st2, rv)" "st' = st2 \<or> st' = wait_begin wh 0 0 st2"
      using call(1) by (auto simp: rw_enter_loop_def bind_outcome_Returns split: if_splits option.splits)
    then have "unlisted st st2 t" "current_thread st2 = current_thread st"
      using unlisted_mutex(4) [OF x(1), of t] cur_mutex(3) [OF x(1)] call(2,3) by (simp_all add: unlisted_def)
    then show ?thesis using x(2) w by blast
  qed
  show ?thesis
  proof (cases s)
    case (CvUnsched k c m nsec)
    then obtain st1 where x: "rumpuser_mutex_exit m st = Returns st1" "st' = wait_begin (CvWaiters c) now nsec st1"
      using assms(1) by (auto simp: cv_unsched_rest_def bind_outcome_Returns)
    then show ?thesis using w unlisted_mutex(1) cur_mutex(1) by blast
  next
    case (CvWaiting k c m nlocks)
    then show ?thesis
      using assms(1) e [of "CvWaiters c"] unlisted_mutex(3) [of m "fst (wait_end (CvWaiters c) st)" _ t]
      by (auto simp: bind_outcome_Returns cv_resched_def Let_def unlisted_def split: prod.splits if_splits)
  next
    case (CvSchedFirst k c m nlocks rv)
    then show ?thesis using assms(1) unlisted_mutex(3) [of m st] by (auto simp: bind_outcome_Returns unlisted_def)
  qed (use assms(1) loop rw e refl in \<open>auto split: option.splits\<close>)
qed

text \<open>Executions in which the thread \<open>t\<close> stays where it is.\<close>

inductive fiber_away :: "rumpuser_h \<Rightarrow> symbols \<Rightarrow> u32 \<Rightarrow> fiber \<times> calls \<Rightarrow> fiber \<times> calls \<Rightarrow> bool" for rc sy t where
  away_here: "fiber_away rc sy t s s"
| away_more: "fiber_away rc sy t s s''" if "fiber_away rc sy t s s'" "fiber_step rc sy s' s''" "snd s'' t = snd s' t"

lemma unlisted_step:
  assumes "fiber_step rc sy (st, C) (st', C')" and top: "C t = CvWaiting k c m nlocks # ps" "C' t = C t"
  shows "unlisted st st' t"
  using assms(1)
proof cases
  case (f_call res)
  then have "t \<noteq> current_thread st" using top by (auto simp: blocked_def)
  then show ?thesis using f_call unlisted_call by blast
next
  case (f_return s ps' n now res)
  then have "t \<noteq> current_thread st" using top by auto
  then show ?thesis using f_return unlisted_continue by blast
next
  case (f_sched_wait world st1 s ps' st2 n now res)
  have w: "waiters st2 = waiters st" "current_thread st2 = current_thread st1"
    using away_quiet(1) [OF f_sched_wait(2)] resume_quiet [OF f_sched_wait(5)] more_fields(4) [of st1 st] more_fields(4) [of st2 st1]
    by (simp_all add: quiet_def)
  have "t \<noteq> current_thread st1"
  proof
    assume t: "t = current_thread st1"
    then have "push res ps = CvWaiting k c m nlocks # ps" "continue rc n now (CvWaiting k c m nlocks) st2 = Returns (st', res)"
      using f_sched_wait top by auto
    then show False
      by (cases res) (auto simp: bind_outcome_Returns cv_resched_def Let_def split: prod.splits if_splits)
  qed
  then show ?thesis using unlisted_continue [OF f_sched_wait(6), of t] w by (simp add: unlisted_def)
next
  case (f_sched_other world)
  then show ?thesis using away_quiet(1) [OF f_sched_other(2)] more_fields(4) [of st' st] by (simp add: quiet_def unlisted_def)
next
  case f_elsewhere
  then show ?thesis using more_fields(4) [of st' st] by (simp add: elsewhere_def unlisted_def)
qed

lemma unlisted_away:
  assumes "fiber_away rc sy t s s'" "sync_inv rc None (fst s) (snd s)" "snd s t = CvWaiting k c m nlocks # ps"
  shows "sync_inv rc None (fst s') (snd s') \<and> snd s' t = snd s t \<and> unlisted (fst s) (fst s') t"
  using assms
proof (induction rule: fiber_away.induct)
  case (away_more s s' s'')
  then show ?case
    using sync_step [of rc sy "fst s'" "snd s'" "fst s''" "snd s''"]
      unlisted_step [of rc sy "fst s'" "snd s'" "fst s''" "snd s''" t k c m nlocks ps] by (auto simp: unlisted_def)
qed (simp add: unlisted_def)

text \<open>
  (C9) A signal arrives. \<^verbatim>\<open>rumpuser_cv_signal\<close> takes the thread that has waited longest; from then on,
  whatever the other threads do and however the clock runs, this thread is runnable, it is not put
  back on the queue, and its \<^verbatim>\<open>wait\<close> returns 0, not \<^verbatim>\<open>ETIMEDOUT\<close>, when it gets the processor.
\<close>

theorem cv_signal_delivered:
  assumes "fiber_start st0" "fiber_reach rc sy (st0, \<lambda>_. []) (st, C)" "cv_waiters (cv st c) = t # ts"
    and "fiber_away rc sy t (rumpuser_cv_signal c st, C) (st', C')"
  shows "is_runnable st' t \<and> t \<in> set (threads st') \<and> t \<notin> set (cv_waiters (cv st' c)) \<and> C' t = C t \<and>
    (\<exists>k m nlocks ps. C t = CvWaiting k c m nlocks # ps) \<and>
    (current_thread st' = t \<longrightarrow> wait_end (CvWaiters c) st' = (st', 0))"
proof -
  note inv = fiber_reach_inv(1) [OF assms(2,1)]
  have mem: "t \<in> set (waitq (CvWaiters c) st)" using assms(3) by simp
  then have wt: "waiting rc C t (CvWaiters c)" using sync_invD(1) [OF inv] unfolding wait_inv_def by blast
  then obtain k m nlocks ps where top: "C t = CvWaiting k c m nlocks # ps"
    by (auto simp: waiting_def elim!: waits_on.elims) (auto simp: rw_waithead_def split: if_splits)
  let ?st = "rumpuser_cv_signal c st"
  have inv1: "sync_inv rc None ?st C" using sync_inv_wakeup_one [OF inv] by (simp add: rumpuser_cv_signal_def)
  have off: "\<not> onlist (waiters ?st t)"
    using wait_inv_wakeup_one(2) [OF sync_invD(1) [OF inv], of "CvWaiters c" t "CvWaiters c"] assms(3)
    by (simp add: rumpuser_cv_signal_def woken_def)
  from unlisted_away [OF assms(4)] inv1 top
  have r: "sync_inv rc None st' C'" "C' t = C t" "\<not> onlist (waiters st' t)" using off by (auto simp: unlisted_def)
  have wt': "waiting rc C' t (CvWaiters c)" using wt r(2) by (simp add: waiting_def)
  have "t \<notin> set (waitq (CvWaiters c) st')" "is_runnable st' t" "t \<in> set (threads st')"
    using sync_invD(1) [OF r(1)] wt' r(2,3) top unfolding wait_inv_def by (metis list.distinct(1))+
  then show ?thesis using r top by (auto simp: wait_end_def bmk_sched_current_def)
qed

section \<open>Mutual exclusion\<close>

text \<open>
  A history of a mutex: attempts to enter and exits, by the lwps named in it; an lwp exits only what
  it holds. The history is run on the code, and what each lwp holds is counted from the results.
\<close>

datatype mutex_event = Tryenter u32 | Exit u32

definition as_lwp :: "u32 \<Rightarrow> fiber \<Rightarrow> fiber" where
  "as_lwp l st = upd_thread (current_thread st) (\<lambda>x. x\<lparr>bt_tls := (bt_tls x)(0 := l)\<rparr>) st"

fun mutex_history :: "u32 \<Rightarrow> mutex_event list \<Rightarrow> fiber \<Rightarrow> (u32 \<Rightarrow> nat) \<Rightarrow> (fiber \<times> (u32 \<Rightarrow> nat)) option" where
  "mutex_history m [] st held = Some (st, held)"
| "mutex_history m (Tryenter l # es) st held =
     (case rumpuser_mutex_tryenter m (as_lwp l st) of
        Halts _ \<Rightarrow> None
      | Returns (st, rv) \<Rightarrow> mutex_history m es st (if rv = 0 then held(l := held l + 1) else held))"
| "mutex_history m (Exit l # es) st held =
     (if held l = 0 then None
      else
        case rumpuser_mutex_exit m (as_lwp l st) of
          Halts _ \<Rightarrow> None
        | Returns st \<Rightarrow> mutex_history m es st (held(l := held l - 1)))"

definition held_ok :: "u32 \<Rightarrow> fiber \<Rightarrow> (u32 \<Rightarrow> nat) \<Rightarrow> bool" where
  "held_ok m st held \<longleftrightarrow> mtx_v (mtx st m) = int (held (mtx_o (mtx st m))) \<and> (\<forall>l. l \<noteq> mtx_o (mtx st m) \<longrightarrow> held l = 0)"

lemma as_lwp_simps [simp]: "mtx (as_lwp l st) = mtx st" "lwp (as_lwp l st) (current_thread st) = l" "current_thread (as_lwp l st) = current_thread st"
  by (simp_all add: as_lwp_def lwp_def)

lemma held_tryenter:
  assumes "held_ok m st held" "rumpuser_mutex_tryenter m (as_lwp l st) = Returns (st', rv)"
  shows "held_ok m st' (if rv = 0 then held(l := held l + 1) else held)"
proof (cases "mtx_v (mtx st m) \<noteq> 0 \<and> mtx_o (mtx st m) \<noteq> l")
  case True
  then show ?thesis using assms by (auto simp: rumpuser_mutex_tryenter_eq EBUSY_def held_ok_def)
next
  case False
  then have st': "st' = upd_mtx m (\<lambda>x. x\<lparr>mtx_v := mtx_v x + 1, mtx_o := l\<rparr>) (as_lwp l st)" "rv = 0"
    using assms(2) by (auto simp: rumpuser_mutex_tryenter_eq)
  have "held x = 0" if "x \<noteq> l" for x using assms(1) False that by (cases "x = mtx_o (mtx st m)") (auto simp: held_ok_def)
  moreover have "mtx_v (mtx st m) = int (held l)"
    using assms(1) False by (cases "l = mtx_o (mtx st m)") (auto simp: held_ok_def)
  ultimately show ?thesis using st' by (simp add: held_ok_def)
qed

lemma held_exit:
  assumes "held_ok m st held" "held l \<noteq> 0"
  shows "\<exists>st'. rumpuser_mutex_exit m (as_lwp l st) = Returns st' \<and> held_ok m st' (held(l := held l - 1))"
proof -
  have l: "l = mtx_o (mtx st m)" using assms by (auto simp: held_ok_def)
  then have v: "mtx_v (mtx st m) = int (held l)" using assms by (simp add: held_ok_def)
  have pos: "0 < mtx_v (mtx st m)" using v assms(2) by simp
  show ?thesis
  proof (cases "held l = 1")
    case True
    then have "held x = (if x = l then 1 else 0)" for x using assms(1) l by (auto simp: held_ok_def)
    then show ?thesis using True l v pos by (auto simp: rumpuser_mutex_exit_def Let_def held_ok_def)
  next
    case False
    then show ?thesis using assms l v pos by (auto simp: rumpuser_mutex_exit_def Let_def held_ok_def)
  qed
qed

text \<open>
  (C8) Mutual exclusion: after any history of attempts and exits on a mutex that starts free, at most
  one lwp holds it, the owner the mutex records is this lwp, and \<^verbatim>\<open>v\<close> is how often it has entered.
  And the history never fails an assertion.
\<close>

theorem mutex_excludes:
  assumes "mtx_v (mtx st m) = 0" "mutex_history m es st (\<lambda>_. 0) = Some (st', held)"
  shows "(0 < held l \<and> 0 < held l' \<longrightarrow> l = l') \<and> (0 < held l \<longrightarrow> rumpuser_mutex_owner m st' = l \<and> mtx_v (mtx st' m) = int (held l)) \<and>
    (0 < held l \<longrightarrow> (\<exists>st''. rumpuser_mutex_exit m (as_lwp l st') = Returns st''))"
proof -
  have "held_ok m st' held" if "mutex_history m es st h = Some (st', held)" "held_ok m st h" for h
    using that
  proof (induction es arbitrary: st h)
    case (Cons e es)
    show ?case
    proof (cases e)
      case (Tryenter l)
      then obtain st1 rv where "rumpuser_mutex_tryenter m (as_lwp l st) = Returns (st1, rv)"
          "mutex_history m es st1 (if rv = 0 then h(l := h l + 1) else h) = Some (st', held)"
        using Cons.prems(1) by (auto split: sum.splits)
      then show ?thesis using Cons.IH held_tryenter [OF Cons.prems(2)] by blast
    next
      case (Exit l)
      then have nz: "h l \<noteq> 0" using Cons.prems(1) by (simp split: if_splits)
      obtain st1 where "rumpuser_mutex_exit m (as_lwp l st) = Returns st1" "held_ok m st1 (h(l := h l - 1))"
        using held_exit [OF Cons.prems(2) nz] by blast
      then show ?thesis using Cons.IH Cons.prems(1) Exit nz by simp
    qed
  qed simp
  then have ok: "held_ok m st' held" using assms by (simp add: held_ok_def)
  have own: "x = mtx_o (mtx st' m)" if "0 < held x" for x using ok that unfolding held_ok_def by (metis less_irrefl)
  moreover have "mtx_v (mtx st' m) = int (held (mtx_o (mtx st' m)))" using ok by (simp add: held_ok_def)
  moreover have "\<exists>st''. rumpuser_mutex_exit m (as_lwp l st') = Returns st''" if "0 < held l" using held_exit [OF ok, of l] that by blast
  ultimately show ?thesis unfolding rumpuser_mutex_owner_def by metis
qed

text \<open>
  (C27) The reader/writer lock does not exclude readers from writers: a writer enters a lock that any
  number of readers hold, and the exit of one of these readers then releases the lock of the writer
  instead of its own. \<^verbatim>\<open>rumpuser_rw_downgrade\<close> keeps the owner, so that it does not let readers in.
\<close>

theorem rw_writer_joins_readers:
  assumes "rw_o (rw st r) = 0" "rw_v (rw st r) = readers"
  shows "\<exists>st1. rumpuser_rw_tryenter rc (RUMPUSER_RW_WRITER rc) r st = Returns (st1, 0) \<and>
    rw_o (rw st1 r) = lwp st (current_thread st) \<and> rw_v (rw st1 r) = readers \<and>
    rw_o (rw (rumpuser_rw_exit r st1) r) = 0 \<and>
    (lwp st (current_thread st) \<noteq> 0 \<longrightarrow> rw_v (rw (rumpuser_rw_exit r st1) r) = readers) \<and>
    (\<exists>st2. rumpuser_rw_downgrade r st1 = Returns st2 \<and> rw_o (rw st2 r) = lwp st (current_thread st) \<and> rw_v (rw st2 r) = - 1)"
proof -
  have all: "rw_v (rw (wakeup_all wh st') r) = rw_v (rw st' r)" for wh st'
  proof (induction wh st' rule: wakeup_all.induct)
    case (1 wh st')
    then show ?case by (cases "waitq wh st' = []") (auto simp: wakeup_all_Nil wakeup_all_step)
  qed
  show ?thesis using assms
    by (auto simp: rumpuser_rw_tryenter_eq rumpuser_rw_exit_def rumpuser_rw_downgrade_def Let_def all)
qed

end
