(* ===== verification/Fibersample.thy ===== *)
theory Fibersample
  imports Fiberuse
begin

text \<open>
  Concrete executions of three threads that use a mutex, a reader/writer lock and a condition
  variable.
\<close>

section \<open>Three threads\<close>

definition sample_thread :: "u32 \<Rightarrow> bmk_thread" where
  "sample_thread l = zero_thread\<lparr>bt_flags := THREAD_RUNNABLE, bt_wakeup_time := - 1, bt_tls := (\<lambda>_. 0)(0 := l)\<rparr>"

definition sample_fiber :: fiber where
  "sample_fiber = intr.extend
     (sample_intr\<lparr>threads := [16, 32, 8], current_thread := 8, isr_thread := 0,
        thread := (\<lambda>_. zero_thread\<lparr>bt_wakeup_time := - 1\<rparr>)(8 := sample_thread 1, 16 := sample_thread 2, 32 := sample_thread 3)\<rparr>)
     (fiber.fields \<lparr>hyp_schedule = 0, hyp_unschedule = 0, hyp_lwproc_newlwp = 0, hyp_backend_unschedule = 0, hyp_backend_schedule = 0\<rparr>
        (\<lambda>t. \<lparr>who = t, onlist = False\<rparr>)
        (\<lambda>_. \<lparr>mtx_waiters = [], mtx_v = 0, mtx_flags = 0, mtx_o = 0\<rparr>)
        (\<lambda>_. \<lparr>rw_rwait = [], rw_wwait = [], rw_v = 0, rw_o = 0\<rparr>) (\<lambda>_. \<lparr>cv_waiters = [], cv_nwaiters = 0\<rparr>))"

text \<open>The values of \<^verbatim>\<open>rump/rumpuser.h\<close>.\<close>

definition sample_rc :: rumpuser_h where
  "sample_rc = \<lparr>RUMPUSER_VERSION = 17, RUMPUSER_MTX_SPIN = 1, RUMPUSER_MTX_KMUTEX = 2, RUMPUSER_RW_READER = 0,
     RUMPUSER_RW_WRITER = 1, RUMPUSER_LWP_CREATE = 0, RUMPUSER_LWP_DESTROY = 1, RUMPUSER_LWP_SET = 2, RUMPUSER_LWP_CLEAR = 3\<rparr>"

text \<open>What the executions below need to know of a state.\<close>

definition facts :: "fiber \<Rightarrow> u32 list \<Rightarrow> u32 \<Rightarrow> u32 set \<Rightarrow> rumpuser_mtx \<Rightarrow> rumpuser_rw \<Rightarrow> rumpuser_cv \<Rightarrow> bool" where
  "facts st ts cur run m r c \<longleftrightarrow> threads st = ts \<and> current_thread st = cur \<and> (\<forall>t. is_runnable st t \<longleftrightarrow> t \<in> run) \<and>
     mtx st 0x100 = m \<and> rw st 0x200 = r \<and> cv st 0x300 = c \<and> zombies st = [] \<and> (\<forall>t. who (waiters st t) = t) \<and>
     (\<forall>t. bt_wakeup_time (thread st t) <s 0) \<and> lwp st 8 = 1 \<and> lwp st 16 = 2 \<and> lwp st 32 = 3"

abbreviation "free_mtx \<equiv> \<lparr>mtx_waiters = [], mtx_v = 0, mtx_flags = 0, mtx_o = 0\<rparr>"
abbreviation "free_rw \<equiv> \<lparr>rw_rwait = [], rw_wwait = [], rw_v = 0, rw_o = 0\<rparr>"
abbreviation "free_cv \<equiv> \<lparr>cv_waiters = [], cv_nwaiters = 0\<rparr>"

lemma sample_facts: "facts sample_fiber [16, 32, 8] 8 {8, 16, 32} free_mtx free_rw free_cv"
  by (auto simp: facts_def sample_fiber_def intr.defs fiber.defs sample_intr_def is_runnable_def sample_thread_def thread_flags
      lwp_def zero_thread_def word_sless_alt)

lemma sample_start: "fiber_start sample_fiber"
proof -
  have "waitq wh sample_fiber = []" for wh
    by (cases wh) (simp_all add: sample_fiber_def intr.defs fiber.defs)
  then show ?thesis by (simp add: fiber_start_def sample_fiber_def intr.defs fiber.defs)
qed

lemma facts_switch:
  assumes f: "facts st (t # ts) cur run m r c" and t: "t \<in> run" "t \<noteq> cur"
  shows "\<exists>st'. bmk_sched_away sy [(0, [])] st = Some st' \<and> facts st' (ts @ [t]) t run m r c \<and> intr.more st' = intr.more st"
proof -
  have r: "is_runnable st t" "threads st = t # ts" "current_thread st = cur" using f t by (simp_all add: facts_def)
  then have w: "sched_wake_due 0 t st = st" "due 0 st t" by (simp_all add: sched_wake_due_def due_def)
  let ?st = "sched_switch sy cur t (st\<lparr>threads := ts @ [t]\<rparr>)"
  have "sched_pick [(0, [])] st = Some (st\<lparr>threads := ts @ [t]\<rparr>, t, [])"
    using r w by (simp add: sched_scan_eq start_thread_def)
  then have "bmk_sched_away sy [(0, [])] st = Some ?st"
    using r t by (simp add: bmk_sched_away_def bmk_sched_current_def)
  moreover have more: "intr.more ?st = intr.more st" using quiet_switch [of "st\<lparr>threads := ts @ [t]\<rparr>" sy cur t] by (simp add: quiet_def)
  moreover have "threads ?st = ts @ [t]" "current_thread ?st = t" "zombies ?st = zombies st" "is_runnable ?st u = is_runnable st u"
      "lwp ?st u = lwp st u" "bt_wakeup_time (thread ?st u) = bt_wakeup_time (thread st u)" for u
    by (simp_all add: sched_switch_def Let_def set_kmem_def is_runnable_def lwp_def upd_thread_def split: prod.split)
  ultimately show ?thesis using f more_fields [OF more] by (simp add: facts_def)
qed

lemma facts_begin:
  assumes f: "facts st ts cur run m r c"
  shows "facts (wait_begin (MtxWaiters 0x100) now 0 st) ts cur (run - {cur}) (m\<lparr>mtx_waiters := mtx_waiters m @ [cur]\<rparr>) r c"
    "facts (wait_begin (RwWwait 0x200) now 0 st) ts cur (run - {cur}) m (r\<lparr>rw_wwait := rw_wwait r @ [cur]\<rparr>) c"
    "facts (wait_begin (CvWaiters 0x300) now 0 st) ts cur (run - {cur}) m r (c\<lparr>cv_waiters := cv_waiters c @ [cur]\<rparr>)"
proof -
  have w: "zombies (wait_begin wh now 0 st) = zombies st"
      "bt_wakeup_time (thread (wait_begin wh now 0 st) t) = (if t = current_thread st then - 1 else bt_wakeup_time (thread st t))"
      "mtx (wait_begin wh now 0 st) = mtx (set_waitq wh (waitq wh st @ [current_thread st]) st)"
      "rw (wait_begin wh now 0 st) = rw (set_waitq wh (waitq wh st @ [current_thread st]) st)"
      "cv (wait_begin wh now 0 st) = cv (set_waitq wh (waitq wh st @ [current_thread st]) st)" for wh t
    by (cases wh; simp add: wait_begin_def Let_def bmk_sched_current_def bmk_sched_block_def clear_runnable_def upd_mtx_def
        upd_rw_def upd_cv_def upd_thread_def)+
  show "facts (wait_begin (MtxWaiters 0x100) now 0 st) ts cur (run - {cur}) (m\<lparr>mtx_waiters := mtx_waiters m @ [cur]\<rparr>) r c"
    "facts (wait_begin (RwWwait 0x200) now 0 st) ts cur (run - {cur}) m (r\<lparr>rw_wwait := rw_wwait r @ [cur]\<rparr>) c"
    "facts (wait_begin (CvWaiters 0x300) now 0 st) ts cur (run - {cur}) m r (c\<lparr>cv_waiters := cv_waiters c @ [cur]\<rparr>)"
    using f unfolding facts_def by (auto simp: wait_begin_fields w word_sless_alt)
qed

lemma facts_wakeup:
  assumes f: "facts st ts cur run m r c"
  shows "mtx_waiters m = w # ws \<Longrightarrow> facts (wakeup_one (MtxWaiters 0x100) st) ts cur (insert w run) (m\<lparr>mtx_waiters := ws\<rparr>) r c"
    "rw_wwait r = w # ws \<Longrightarrow> facts (wakeup_one (RwWwait 0x200) st) ts cur (insert w run) m (r\<lparr>rw_wwait := ws\<rparr>) c"
    "cv_waiters c = w # ws \<Longrightarrow> facts (wakeup_one (CvWaiters 0x300) st) ts cur (insert w run) m r (c\<lparr>cv_waiters := ws\<rparr>)"
proof -
  have "facts (wakeup_one wh st) ts cur (insert w run) (mtx (set_waitq wh ws st) 0x100) (rw (set_waitq wh ws st) 0x200)
      (cv (set_waitq wh ws st) 0x300)" if q: "waitq wh st = w # ws" for wh
  proof -
    have ww: "who (waiters st w) = w" using f by (simp add: facts_def)
    note o = wakeup_one_Cons [OF q ww] wakeup_one_fields [of wh st]
    have "zombies (wakeup_one wh st) = zombies st" "mtx (wakeup_one wh st) = mtx (set_waitq wh ws st)"
        "rw (wakeup_one wh st) = rw (set_waitq wh ws st)" "cv (wakeup_one wh st) = cv (set_waitq wh ws st)"
        "bt_wakeup_time (thread (wakeup_one wh st) t) = (if t = w then - 1 else bt_wakeup_time (thread st t))" for t
      using q ww by (cases wh; simp add: wakeup_one_def Let_def bmk_sched_wake_def set_runnable_def upd_mtx_def upd_rw_def upd_cv_def
          upd_thread_def)+
    then show ?thesis using f unfolding facts_def by (auto simp: o word_sless_alt)
  qed
  note g = this
  show "mtx_waiters m = w # ws \<Longrightarrow> facts (wakeup_one (MtxWaiters 0x100) st) ts cur (insert w run) (m\<lparr>mtx_waiters := ws\<rparr>) r c"
    "rw_wwait r = w # ws \<Longrightarrow> facts (wakeup_one (RwWwait 0x200) st) ts cur (insert w run) m (r\<lparr>rw_wwait := ws\<rparr>) c"
    "cv_waiters c = w # ws \<Longrightarrow> facts (wakeup_one (CvWaiters 0x300) st) ts cur (insert w run) m r (c\<lparr>cv_waiters := ws\<rparr>)"
    using g [of "MtxWaiters 0x100"] g [of "RwWwait 0x200"] g [of "CvWaiters 0x300"] f by (simp_all add: facts_def)
qed

lemma facts_upd:
  assumes "facts st ts cur run m r c"
  shows "facts (upd_mtx 0x100 f st) ts cur run (f m) r c" "facts (upd_rw 0x200 g st) ts cur run m (g r) c"
    "facts (upd_cv 0x300 h st) ts cur run m r (h c)"
  using assms by (simp_all add: facts_def upd_mtx_def upd_rw_def upd_cv_def is_runnable_def lwp_def)

lemma fiber_trans: "fiber_reach rc sy s s' \<Longrightarrow> fiber_reach rc sy s' s'' \<Longrightarrow> fiber_reach rc sy s s''"
  by (rotate_tac 1, induction rule: fiber_reach.induct) (auto intro: fiber_more)

lemma facts_D:
  assumes "facts st ts cur run m r c"
  shows "threads st = ts" "current_thread st = cur" "mtx st 0x100 = m" "rw st 0x200 = r" "cv st 0x300 = c" "zombies st = []"
  using assms by (simp_all add: facts_def)

section \<open>Executions\<close>

text \<open>The current thread enters the free mutex, or finds it taken and waits; then the next thread runs.\<close>

lemma sample_enter:
  assumes f: "facts st ts cur run m r c" and cur: "cur \<in> set ts" "C cur = []" and m: "mtx_v m = 0"
  shows "\<exists>st'. fiber_step rc sy (st, C) (st', C) \<and> facts st' ts cur run (m\<lparr>mtx_v := 1, mtx_o := lwp st cur\<rparr>) r c"
proof -
  note d = facts_D [OF f]
  let ?st = "upd_mtx 0x100 (\<lambda>x. x\<lparr>mtx_v := mtx_v x + 1, mtx_o := lwp st cur\<rparr>) st"
  have "fiber_call rc C st ?st (Done 0)"
    using d m by (intro c_mutex_enter [where m = "0x100"]) (simp add: rumpuser_mutex_enter_def rumpuser_mutex_tryenter_eq)
  from f_call [OF _ _ this, of sy] have "fiber_step rc sy (st, C) (?st, C)" using d cur by (simp add: blocked_def fun_upd_idem)
  then show ?thesis using facts_upd(1) [OF f, of "\<lambda>x. x\<lparr>mtx_v := mtx_v x + 1, mtx_o := lwp st cur\<rparr>"] m by auto
qed

lemma sample_contend:
  assumes f: "facts st ts cur run m r c" and cur: "cur \<in> set ts" "C cur = []" and m: "mtx_v m \<noteq> 0" "mtx_o m \<noteq> lwp st cur"
  shows "\<exists>st'. fiber_reach rc sy (st, C) (st', C(cur := [MutexWait 0x100 0])) \<and>
    facts st' ts cur (run - {cur}) (m\<lparr>mtx_waiters := mtx_waiters m @ [cur]\<rparr>) r c"
proof -
  note d = facts_D [OF f]
  have "fiber_call rc C st st (Suspended (MutexUnsched 0x100))"
    using d m by (intro c_mutex_enter [where m = "0x100"]) (simp add: rumpuser_mutex_enter_def rumpuser_mutex_tryenter_eq EBUSY_def)
  from f_call [OF _ _ this, of sy] have 1: "fiber_step rc sy (st, C) (st, C(cur := [MutexUnsched 0x100]))"
    using d cur by (simp add: blocked_def)
  let ?st = "wait_begin (MtxWaiters 0x100) 0 0 st"
  have "continue rc 0 0 (MutexUnsched 0x100) st = Returns (?st, Suspended (MutexWait 0x100 0))"
    using d m by (simp add: mutex_enter_loop_def rumpuser_mutex_tryenter_eq EBUSY_def)
  from f_return [where sy = sy and C = "C(cur := [MutexUnsched 0x100])" and ps = "[]", OF _ _ this]
  have "fiber_step rc sy (st, C(cur := [MutexUnsched 0x100])) (?st, C(cur := [MutexWait 0x100 0]))"
    using d by (simp add: rumpkern_unsched_def)
  then have "fiber_reach rc sy (st, C) (?st, C(cur := [MutexWait 0x100 0]))" using 1 by (meson fiber_here fiber_more)
  then show ?thesis using facts_begin(1) [OF f] by blast
qed

lemma sample_switch:
  assumes f: "facts st (t # ts) cur run m r c" and t: "t \<in> run" "t \<noteq> cur" "C t = []"
  shows "\<exists>st'. fiber_step rc sy (st, C) (st', C) \<and> facts st' (ts @ [t]) t run m r c"
proof -
  obtain st' where s: "bmk_sched_away sy [(0, [])] st = Some st'" "facts st' (ts @ [t]) t run m r c"
    using facts_switch [OF f t(1,2), of sy] by blast
  have "fiber_step rc sy (st, C) (st', C)"
    using f_sched_other [OF s(1), where C = C and rc = rc] facts_D(2) [OF s(2)] t(3) by (simp add: blocked_def)
  then show ?thesis using s(2) by blast
qed

lemma facts_lwp: "facts st ts cur run m r c \<Longrightarrow> lwp st 8 = 1 \<and> lwp st 16 = 2 \<and> lwp st 32 = 3"
  by (simp add: facts_def)

text \<open>A mutex with two waiting threads is released.\<close>

lemma sample_contended:
  "\<exists>st C. fiber_reach rc sy (sample_fiber, \<lambda>_. []) (st, C) \<and>
     facts st [16, 32, 8] 8 {8, 16} \<lparr>mtx_waiters = [32], mtx_v = 0, mtx_flags = 0, mtx_o = 0\<rparr> free_rw free_cv"
proof -
  let ?C = "\<lambda>_. []"
  obtain st1 where 1: "fiber_step rc sy (sample_fiber, ?C) (st1, ?C)"
      "facts st1 [16, 32, 8] 8 {8, 16, 32} \<lparr>mtx_waiters = [], mtx_v = 1, mtx_flags = 0, mtx_o = 1\<rparr> free_rw free_cv"
    using sample_enter [OF sample_facts, of ?C rc sy] facts_lwp [OF sample_facts] by auto
  obtain st2 where 2: "fiber_step rc sy (st1, ?C) (st2, ?C)"
      "facts st2 [32, 8, 16] 16 {8, 16, 32} \<lparr>mtx_waiters = [], mtx_v = 1, mtx_flags = 0, mtx_o = 1\<rparr> free_rw free_cv"
    using sample_switch [OF 1(2), of ?C rc sy] by auto
  let ?C3 = "?C(16 := [MutexWait 0x100 0])"
  obtain st3 where 3: "fiber_reach rc sy (st2, ?C) (st3, ?C3)"
      "facts st3 [32, 8, 16] 16 {8, 32} \<lparr>mtx_waiters = [16], mtx_v = 1, mtx_flags = 0, mtx_o = 1\<rparr> free_rw free_cv"
    using sample_contend [OF 2(2), of ?C rc sy] facts_lwp [OF 2(2)] by (auto simp: insert_Diff_if)
  obtain st4 where 4: "fiber_step rc sy (st3, ?C3) (st4, ?C3)"
      "facts st4 [8, 16, 32] 32 {8, 32} \<lparr>mtx_waiters = [16], mtx_v = 1, mtx_flags = 0, mtx_o = 1\<rparr> free_rw free_cv"
    using sample_switch [OF 3(2), of ?C3 rc sy] by auto
  let ?C5 = "?C3(32 := [MutexWait 0x100 0])"
  obtain st5 where 5: "fiber_reach rc sy (st4, ?C3) (st5, ?C5)"
      "facts st5 [8, 16, 32] 32 {8} \<lparr>mtx_waiters = [16, 32], mtx_v = 1, mtx_flags = 0, mtx_o = 1\<rparr> free_rw free_cv"
    using sample_contend [OF 4(2), of ?C3 rc sy] facts_lwp [OF 4(2)] by (auto simp: insert_Diff_if)
  obtain st6 where 6: "fiber_step rc sy (st5, ?C5) (st6, ?C5)"
      "facts st6 [16, 32, 8] 8 {8} \<lparr>mtx_waiters = [16, 32], mtx_v = 1, mtx_flags = 0, mtx_o = 1\<rparr> free_rw free_cv"
    using sample_switch [OF 5(2), of ?C5 rc sy] by auto
  let ?st = "upd_mtx 0x100 (\<lambda>x. x\<lparr>mtx_o := 0\<rparr>) (upd_mtx 0x100 (\<lambda>x. x\<lparr>mtx_v := mtx_v x - 1\<rparr>) st6)"
  have "rumpuser_mutex_exit 0x100 st6 = Returns (wakeup_one (MtxWaiters 0x100) ?st)"
    using facts_D(3) [OF 6(2)] by (simp add: rumpuser_mutex_exit_def Let_def)
  from f_call [OF _ _ c_mutex_exit [OF this], where C = ?C5 and sy = sy and rc = rc]
  have 7: "fiber_step rc sy (st6, ?C5) (wakeup_one (MtxWaiters 0x100) ?st, ?C5)"
    using facts_D [OF 6(2)] by (simp add: blocked_def fun_upd_idem)
  have "facts (wakeup_one (MtxWaiters 0x100) ?st) [16, 32, 8] 8 {8, 16} \<lparr>mtx_waiters = [32], mtx_v = 0, mtx_flags = 0, mtx_o = 0\<rparr> free_rw free_cv"
    using facts_wakeup(1) [OF facts_upd(1) [OF facts_upd(1) [OF 6(2)]], of "\<lambda>x. x\<lparr>mtx_o := 0\<rparr>" "\<lambda>x. x\<lparr>mtx_v := mtx_v x - 1\<rparr>" 16 "[32]"]
    by (simp add: insert_commute)
  moreover have "fiber_reach rc sy (sample_fiber, ?C) (wakeup_one (MtxWaiters 0x100) ?st, ?C5)"
    using 1(1) 2(1) 3(1) 4(1) 5(1) 6(1) 7 by (meson fiber_here fiber_more fiber_trans)
  ultimately show ?thesis by blast
qed

theorem mutex_wakeup_not_lost_witness:
  "\<exists>st C t nlocks ps. fiber_reach sample_rc sample_symbols (sample_fiber, \<lambda>_. []) (st, C) \<and> mtx_waiters (mtx st 0x100) = [32] \<and>
     C t = MutexWait 0x100 nlocks # ps \<and> is_runnable st t"
proof -
  obtain st C where r: "fiber_reach sample_rc sample_symbols (sample_fiber, \<lambda>_. []) (st, C)" "mtx_v (mtx st 0x100) = 0" "mtx_waiters (mtx st 0x100) = [32]"
    using sample_contended [of sample_rc sample_symbols] by (auto simp: facts_def)
  then show ?thesis using mutex_wakeup_not_lost [OF sample_start r(1,2)] by (metis list.distinct(1))
qed

text \<open>The same for a reader/writer lock and writers.\<close>

lemma sample_rw_enter:
  assumes f: "facts st ts cur run m r c" and cur: "cur \<in> set ts" "C cur = []" "lwp st cur \<noteq> 0" and r: "rw_o r = 0"
  shows "\<exists>st'. fiber_step sample_rc sy (st, C) (st', C) \<and> facts st' ts cur run m (r\<lparr>rw_o := lwp st cur\<rparr>) c"
proof -
  note d = facts_D [OF f]
  let ?st = "upd_rw 0x200 (\<lambda>x. x\<lparr>rw_o := lwp st cur\<rparr>) st"
  have "fiber_call sample_rc C st ?st (Done 0)"
    using d r cur by (intro c_rw_enter [where lk = 1 and r = "0x200"])
      (simp_all add: rumpuser_rw_enter_def rumpuser_rw_tryenter_eq sample_rc_def)
  from f_call [OF _ _ this, of sy] have "fiber_step sample_rc sy (st, C) (?st, C)" using d cur by (simp add: blocked_def fun_upd_idem)
  then show ?thesis using facts_upd(2) [OF f, of "\<lambda>x. x\<lparr>rw_o := lwp st cur\<rparr>"] r by auto
qed

lemma sample_rw_contend:
  assumes f: "facts st ts cur run m r c" and cur: "cur \<in> set ts" "C cur = []" "lwp st cur \<noteq> 0" and r: "rw_o r \<noteq> 0"
  shows "\<exists>st'. fiber_reach sample_rc sy (st, C) (st', C(cur := [RwWait 1 0x200 0])) \<and>
    facts st' ts cur (run - {cur}) m (r\<lparr>rw_wwait := rw_wwait r @ [cur]\<rparr>) c"
proof -
  note d = facts_D [OF f]
  have "fiber_call sample_rc C st st (Suspended (RwUnsched 1 0x200))"
    using d r cur by (intro c_rw_enter [where lk = 1 and r = "0x200"])
      (simp_all add: rumpuser_rw_enter_def rumpuser_rw_tryenter_eq EBUSY_def sample_rc_def)
  from f_call [OF _ _ this, of sy] have 1: "fiber_step sample_rc sy (st, C) (st, C(cur := [RwUnsched 1 0x200]))"
    using d cur by (simp add: blocked_def)
  let ?st = "wait_begin (RwWwait 0x200) 0 0 st"
  have "continue sample_rc 0 0 (RwUnsched 1 0x200) st = Returns (?st, Suspended (RwWait 1 0x200 0))"
    using d r by (simp add: rw_enter_loop_def rumpuser_rw_tryenter_eq EBUSY_def sample_rc_def rw_waithead_def)
  from f_return [where sy = sy and C = "C(cur := [RwUnsched 1 0x200])" and ps = "[]", OF _ _ this]
  have "fiber_step sample_rc sy (st, C(cur := [RwUnsched 1 0x200])) (?st, C(cur := [RwWait 1 0x200 0]))"
    using d cur by (simp add: rumpkern_unsched_def)
  then have "fiber_reach sample_rc sy (st, C) (?st, C(cur := [RwWait 1 0x200 0]))" using 1 by (meson fiber_here fiber_more)
  then show ?thesis using facts_begin(2) [OF f] by blast
qed

lemma sample_rw_contended:
  "\<exists>st C. fiber_reach sample_rc sy (sample_fiber, \<lambda>_. []) (st, C) \<and>
     facts st [16, 32, 8] 8 {8, 16} free_mtx \<lparr>rw_rwait = [], rw_wwait = [32], rw_v = 0, rw_o = 0\<rparr> free_cv"
proof -
  let ?C = "\<lambda>_. []"
  obtain st1 where 1: "fiber_step sample_rc sy (sample_fiber, ?C) (st1, ?C)"
      "facts st1 [16, 32, 8] 8 {8, 16, 32} free_mtx \<lparr>rw_rwait = [], rw_wwait = [], rw_v = 0, rw_o = 1\<rparr> free_cv"
    using sample_rw_enter [OF sample_facts, of ?C sy] facts_lwp [OF sample_facts] by auto
  obtain st2 where 2: "fiber_step sample_rc sy (st1, ?C) (st2, ?C)"
      "facts st2 [32, 8, 16] 16 {8, 16, 32} free_mtx \<lparr>rw_rwait = [], rw_wwait = [], rw_v = 0, rw_o = 1\<rparr> free_cv"
    using sample_switch [OF 1(2), of ?C sample_rc sy] by auto
  let ?C3 = "?C(16 := [RwWait 1 0x200 0])"
  obtain st3 where 3: "fiber_reach sample_rc sy (st2, ?C) (st3, ?C3)"
      "facts st3 [32, 8, 16] 16 {8, 32} free_mtx \<lparr>rw_rwait = [], rw_wwait = [16], rw_v = 0, rw_o = 1\<rparr> free_cv"
    using sample_rw_contend [OF 2(2), of ?C sy] facts_lwp [OF 2(2)] by (auto simp: insert_Diff_if)
  obtain st4 where 4: "fiber_step sample_rc sy (st3, ?C3) (st4, ?C3)"
      "facts st4 [8, 16, 32] 32 {8, 32} free_mtx \<lparr>rw_rwait = [], rw_wwait = [16], rw_v = 0, rw_o = 1\<rparr> free_cv"
    using sample_switch [OF 3(2), of ?C3 sample_rc sy] by auto
  let ?C5 = "?C3(32 := [RwWait 1 0x200 0])"
  obtain st5 where 5: "fiber_reach sample_rc sy (st4, ?C3) (st5, ?C5)"
      "facts st5 [8, 16, 32] 32 {8} free_mtx \<lparr>rw_rwait = [], rw_wwait = [16, 32], rw_v = 0, rw_o = 1\<rparr> free_cv"
    using sample_rw_contend [OF 4(2), of ?C3 sy] facts_lwp [OF 4(2)] by (auto simp: insert_Diff_if)
  obtain st6 where 6: "fiber_step sample_rc sy (st5, ?C5) (st6, ?C5)"
      "facts st6 [16, 32, 8] 8 {8} free_mtx \<lparr>rw_rwait = [], rw_wwait = [16, 32], rw_v = 0, rw_o = 1\<rparr> free_cv"
    using sample_switch [OF 5(2), of ?C5 sample_rc sy] by auto
  let ?st = "upd_rw 0x200 (\<lambda>x. x\<lparr>rw_o := 0\<rparr>) st6"
  have x: "rumpuser_rw_exit 0x200 st6 = wakeup_one (RwWwait 0x200) ?st"
    using facts_D(4) [OF 6(2)] by (simp add: rumpuser_rw_exit_def Let_def)
  from f_call [OF _ _ c_rw_exit [where st = st6 and r = "0x200"], where C = ?C5 and sy = sy and rc = sample_rc]
  have 7: "fiber_step sample_rc sy (st6, ?C5) (wakeup_one (RwWwait 0x200) ?st, ?C5)"
    using facts_D [OF 6(2)] by (simp add: blocked_def fun_upd_idem x)
  have "facts (wakeup_one (RwWwait 0x200) ?st) [16, 32, 8] 8 {8, 16} free_mtx \<lparr>rw_rwait = [], rw_wwait = [32], rw_v = 0, rw_o = 0\<rparr> free_cv"
    using facts_wakeup(2) [OF facts_upd(2) [OF 6(2)], of "\<lambda>x. x\<lparr>rw_o := 0\<rparr>" 16 "[32]"] by (simp add: insert_commute)
  moreover have "fiber_reach sample_rc sy (sample_fiber, ?C) (wakeup_one (RwWwait 0x200) ?st, ?C5)"
    using 1(1) 2(1) 3(1) 4(1) 5(1) 6(1) 7 by (meson fiber_here fiber_more fiber_trans)
  ultimately show ?thesis by blast
qed

theorem rw_wakeup_not_lost_witness:
  "\<exists>st C t nlocks ps. fiber_reach sample_rc sample_symbols (sample_fiber, \<lambda>_. []) (st, C) \<and> rw_wwait (rw st 0x200) = [32] \<and>
     C t = RwWait 1 0x200 nlocks # ps \<and> is_runnable st t"
proof -
  obtain st C where r: "fiber_reach sample_rc sample_symbols (sample_fiber, \<lambda>_. []) (st, C)" "rw_o (rw st 0x200) = 0" "rw_wwait (rw st 0x200) = [32]"
    using sample_rw_contended [of sample_symbols] by (auto simp: facts_def)
  moreover have "RUMPUSER_RW_WRITER sample_rc = 1" by (simp add: sample_rc_def)
  ultimately show ?thesis using rw_wakeup_not_lost [OF sample_start r(1,2)] by (metis list.distinct(1))
qed

theorem wait_queues_well_formed_witness:
  "\<exists>st C. fiber_reach sample_rc sample_symbols (sample_fiber, \<lambda>_. []) (st, C) \<and> waitq (MtxWaiters 0x100) st = [32] \<and>
     (\<exists>s ps. C 32 = s # ps \<and> waits_on sample_rc s = Some (MtxWaiters 0x100))"
proof -
  obtain st C where r: "fiber_reach sample_rc sample_symbols (sample_fiber, \<lambda>_. []) (st, C)" "waitq (MtxWaiters 0x100) st = [32]"
    using sample_contended [of sample_rc sample_symbols] by (auto simp: facts_def)
  then show ?thesis using wait_queues_well_formed [OF sample_start r(1), of "MtxWaiters 0x100" "CvWaiters 0"]
    by (metis list.set_intros(1))
qed

text \<open>
  A thread waits on a condition variable, another one takes the mutex and signals, and is then
  switched out with the mutex still held.
\<close>

lemma sample_cv_wait:
  "\<exists>st. fiber_reach rc sy (sample_fiber, \<lambda>_. []) (st, (\<lambda>_. [])(8 := [CvWaiting CvWait 0x300 0x100 0])) \<and>
     facts st [32, 8, 16] 16 {16, 32} \<lparr>mtx_waiters = [], mtx_v = 1, mtx_flags = 0, mtx_o = 2\<rparr> free_rw \<lparr>cv_waiters = [8], cv_nwaiters = 1\<rparr>"
proof -
  let ?C = "\<lambda>_. []"
  obtain st1 where 1: "fiber_step rc sy (sample_fiber, ?C) (st1, ?C)"
      "facts st1 [16, 32, 8] 8 {8, 16, 32} \<lparr>mtx_waiters = [], mtx_v = 1, mtx_flags = 0, mtx_o = 1\<rparr> free_rw free_cv"
    using sample_enter [OF sample_facts, of ?C rc sy] facts_lwp [OF sample_facts] by auto
  let ?st2 = "add_nwaiters 0x300 1 st1" and ?C2 = "?C(8 := [CvUnsched CvWait 0x300 0x100 0])"
  have f2: "facts ?st2 [16, 32, 8] 8 {8, 16, 32} \<lparr>mtx_waiters = [], mtx_v = 1, mtx_flags = 0, mtx_o = 1\<rparr> free_rw
      \<lparr>cv_waiters = [], cv_nwaiters = 1\<rparr>"
    using facts_upd(3) [OF 1(2), of "\<lambda>x. x\<lparr>cv_nwaiters := cv_nwaiters x + 1\<rparr>"] by (simp add: add_nwaiters_def)
  from f_call [OF _ _ c_cv_wait [where st = st1 and c = "0x300" and m = "0x100", OF rumpuser_cv_wait_def], where C = ?C and sy = sy and rc = rc]
  have 2: "fiber_step rc sy (st1, ?C) (?st2, ?C2)" using facts_D [OF 1(2)] by (simp add: blocked_def)
  let ?st3 = "upd_mtx 0x100 (\<lambda>x. x\<lparr>mtx_o := 0\<rparr>) (upd_mtx 0x100 (\<lambda>x. x\<lparr>mtx_v := mtx_v x - 1\<rparr>) ?st2)"
  let ?C3 = "?C(8 := [CvWaiting CvWait 0x300 0x100 0])"
  have f3: "facts ?st3 [16, 32, 8] 8 {8, 16, 32} free_mtx free_rw \<lparr>cv_waiters = [], cv_nwaiters = 1\<rparr>"
    using facts_upd(1) [OF facts_upd(1) [OF f2], of "\<lambda>x. x\<lparr>mtx_o := 0\<rparr>" "\<lambda>x. x\<lparr>mtx_v := mtx_v x - 1\<rparr>"] by simp
  have "rumpuser_mutex_exit 0x100 ?st2 = Returns ?st3"
    using facts_D(3) [OF f2] facts_D(3) [OF f3] by (simp add: rumpuser_mutex_exit_def Let_def wakeup_one_Nil)
  then have "continue rc 0 0 (CvUnsched CvWait 0x300 0x100 0) ?st2 =
      Returns (wait_begin (CvWaiters 0x300) 0 0 ?st3, Suspended (CvWaiting CvWait 0x300 0x100 0))"
    by (simp add: cv_unsched_rest_def)
  from f_return [where sy = sy and C = ?C2 and ps = "[]", OF _ _ this]
  have 3: "fiber_step rc sy (?st2, ?C2) (wait_begin (CvWaiters 0x300) 0 0 ?st3, ?C3)"
    using facts_D [OF f2] by (simp add: rumpkern_unsched_def)
  have f3': "facts (wait_begin (CvWaiters 0x300) 0 0 ?st3) [16, 32, 8] 8 {16, 32} free_mtx free_rw \<lparr>cv_waiters = [8], cv_nwaiters = 1\<rparr>"
    using facts_begin(3) [OF f3] by (simp add: insert_Diff_if)
  obtain st4 where 4: "fiber_step rc sy (wait_begin (CvWaiters 0x300) 0 0 ?st3, ?C3) (st4, ?C3)"
      "facts st4 [32, 8, 16] 16 {16, 32} free_mtx free_rw \<lparr>cv_waiters = [8], cv_nwaiters = 1\<rparr>"
    using sample_switch [OF f3', of ?C3 rc sy] by auto
  obtain st5 where 5: "fiber_step rc sy (st4, ?C3) (st5, ?C3)"
      "facts st5 [32, 8, 16] 16 {16, 32} \<lparr>mtx_waiters = [], mtx_v = 1, mtx_flags = 0, mtx_o = 2\<rparr> free_rw \<lparr>cv_waiters = [8], cv_nwaiters = 1\<rparr>"
    using sample_enter [OF 4(2), of ?C3 rc sy] facts_lwp [OF 4(2)] by auto
  have "fiber_reach rc sy (sample_fiber, ?C) (st5, ?C3)" using 1(1) 2 3 4(1) 5(1) by (meson fiber_here fiber_more)
  then show ?thesis using 5(2) by blast
qed

lemma sample_cv_signal:
  assumes f: "facts st [32, 8, 16] 16 {16, 32} \<lparr>mtx_waiters = [], mtx_v = 1, mtx_flags = 0, mtx_o = 2\<rparr> free_rw \<lparr>cv_waiters = [8], cv_nwaiters = 1\<rparr>"
    and C: "C = (\<lambda>_. [])(8 := [CvWaiting CvWait 0x300 0x100 0])"
  shows "fiber_step rc sy (st, C) (rumpuser_cv_signal 0x300 st, C)"
    "\<exists>st'. fiber_step rc sy (rumpuser_cv_signal 0x300 st, C) (st', C) \<and>
       facts st' [8, 16, 32] 32 {8, 16, 32} \<lparr>mtx_waiters = [], mtx_v = 1, mtx_flags = 0, mtx_o = 2\<rparr> free_rw \<lparr>cv_waiters = [], cv_nwaiters = 1\<rparr>"
proof -
  from f_call [OF _ _ c_cv_signal [where st = st and c = "0x300"], where C = C and sy = sy and rc = rc]
  show "fiber_step rc sy (st, C) (rumpuser_cv_signal 0x300 st, C)"
    using facts_D [OF f] by (simp add: blocked_def C fun_upd_idem)
  have "facts (rumpuser_cv_signal 0x300 st) [32, 8, 16] 16 {8, 16, 32} \<lparr>mtx_waiters = [], mtx_v = 1, mtx_flags = 0, mtx_o = 2\<rparr> free_rw
      \<lparr>cv_waiters = [], cv_nwaiters = 1\<rparr>"
    using facts_wakeup(3) [OF f, of 8 "[]"] by (simp add: rumpuser_cv_signal_def)
  from sample_switch [OF this, of C rc sy] show "\<exists>st'. fiber_step rc sy (rumpuser_cv_signal 0x300 st, C) (st', C) \<and>
       facts st' [8, 16, 32] 32 {8, 16, 32} \<lparr>mtx_waiters = [], mtx_v = 1, mtx_flags = 0, mtx_o = 2\<rparr> free_rw \<lparr>cv_waiters = [], cv_nwaiters = 1\<rparr>"
    by (simp add: C)
qed

theorem cv_signal_delivered_witness:
  "\<exists>st st' C. fiber_reach sample_rc sample_symbols (sample_fiber, \<lambda>_. []) (st, C) \<and>
     fiber_away sample_rc sample_symbols 8 (rumpuser_cv_signal 0x300 st, C) (st', C) \<and> current_thread st' = 32 \<and> is_runnable st' 8"
proof -
  let ?C = "(\<lambda>_. [])(8 := [CvWaiting CvWait 0x300 0x100 0])"
  obtain st where r: "fiber_reach sample_rc sample_symbols (sample_fiber, \<lambda>_. []) (st, ?C)"
    and f: "facts st [32, 8, 16] 16 {16, 32} \<lparr>mtx_waiters = [], mtx_v = 1, mtx_flags = 0, mtx_o = 2\<rparr> free_rw \<lparr>cv_waiters = [8], cv_nwaiters = 1\<rparr>"
    using sample_cv_wait by blast
  obtain st' where s: "fiber_step sample_rc sample_symbols (rumpuser_cv_signal 0x300 st, ?C) (st', ?C)" "current_thread st' = 32"
    using sample_cv_signal(2) [OF f refl, of sample_rc sample_symbols] by (auto simp: facts_def)
  have a: "fiber_away sample_rc sample_symbols 8 (rumpuser_cv_signal 0x300 st, ?C) (st', ?C)"
    using away_more [OF away_here s(1)] by simp
  have "cv_waiters (cv st 0x300) = [8]" using facts_D(5) [OF f] by simp
  from cv_signal_delivered [OF sample_start r this a] show ?thesis using r a s(2) by blast
qed

theorem cv_destroy_unused_witness:
  "\<exists>st C. fiber_reach sample_rc sample_symbols (sample_fiber, \<lambda>_. []) (st, C) \<and> cv_nwaiters (cv st 0x300) = 1 \<and>
     rumpuser_cv_has_waiters 0x300 st \<noteq> 0"
proof -
  let ?C = "(\<lambda>_. [])(8 := [CvWaiting CvWait 0x300 0x100 0])"
  obtain st where r: "fiber_reach sample_rc sample_symbols (sample_fiber, \<lambda>_. []) (st, ?C)" "cv_nwaiters (cv st 0x300) = 1"
    using sample_cv_wait [of sample_rc sample_symbols] by (auto simp: facts_def)
  have "\<exists>t. \<exists>s \<in> set (?C t). cv_object s = Some 0x300" by (rule exI [of _ 8]) simp
  then show ?thesis using r cv_destroy_unused [OF sample_start r(1), of "0x300"] by blast
qed

section \<open>Where the code goes wrong\<close>



theorem mutex_excludes_witness:
  "\<exists>st held. mutex_history 0x100 [Tryenter 1, Tryenter 2, Tryenter 1, Exit 1] sample_fiber (\<lambda>_. 0) = Some (st, held) \<and>
     held 1 = 1 \<and> held 2 = 0 \<and> rumpuser_mutex_owner 0x100 st = 1"
proof -
  have v: "mtx_v (mtx sample_fiber 0x100) = 0" "mtx sample_fiber 0x100 = free_mtx" using facts_D(3) [OF sample_facts] by simp_all
  obtain st where h: "mutex_history 0x100 [Tryenter 1, Tryenter 2, Tryenter 1, Exit 1] sample_fiber (\<lambda>_. 0) = Some (st, (\<lambda>_. 0)(1 := 1))"
    using v by (simp add: rumpuser_mutex_tryenter_eq rumpuser_mutex_exit_def Let_def EBUSY_def fun_upd_idem)
  from mutex_excludes [OF v(1) h, of 1 2] h show ?thesis by auto
qed

theorem rw_writer_joins_readers_witness:
  "\<exists>st1. rumpuser_rw_tryenter sample_rc 1 0x200 (upd_rw 0x200 (\<lambda>x. x\<lparr>rw_v := 5\<rparr>) sample_fiber) = Returns (st1, 0) \<and>
     rw_o (rw st1 0x200) = 1 \<and> rw_v (rw st1 0x200) = 5"
proof -
  let ?st = "upd_rw 0x200 (\<lambda>x. x\<lparr>rw_v := 5\<rparr>) sample_fiber"
  have "rw_o (rw ?st 0x200) = 0" "rw_v (rw ?st 0x200) = 5" "lwp ?st (current_thread ?st) = 1"
    using facts_D [OF sample_facts] facts_lwp [OF sample_facts] by simp_all
  then show ?thesis using rw_writer_joins_readers [of ?st "0x200" 5 sample_rc] by (auto simp: sample_rc_def)
qed

end
