(* ===== verification/Rumpuser.thy ===== *)
theory Rumpuser
  imports Fibersample "HOL-Library.Monad_Syntax"
begin

text \<open>
  The hypercalls of \<^verbatim>\<open>rumpuser.c\<close>: console output, parameters, memory, random numbers and the
  clock.
\<close>

section \<open>Hypercalls\<close>

definition rumpuser_putchar :: "u32 \<Rightarrow> fiber \<Rightarrow> fiber" where
  "rumpuser_putchar c st = st\<lparr>kcons := bmk_cons_putc c (kcons st)\<rparr>"

definition BMK_MEMRESERVE :: u32 where "BMK_MEMRESERVE = 1024 * 1024"

text \<open>
  The addresses of the string constants; two of the strings are defined by \<^verbatim>\<open>rump/rumpuser.h\<close>.
\<close>

record param_strings =
  RUMPUSER_PARAM_NCPU :: u32
  RUMPUSER_PARAM_HOSTNAME :: u32
  str_rump_verbose :: u32
  str_rump_memlimit :: u32
  str_one :: u32
  str_rump_baremetal :: u32

text \<open>The two loops that print a number: digits from the last one on into \<^verbatim>\<open>tmp\<close>, and from there, backwards.\<close>

function memlimit_digits :: "u32 \<Rightarrow> u8 list \<Rightarrow> u8 list outcome" where
  "memlimit_digits memsize tmp =
     (if memsize > 0 then
        if length tmp < 64 - 1 then memlimit_digits (memsize div 10) (tmp @ [ucast (memsize mod 10) + 48])
        else Halts (AssertFail ''i < sizeof(tmp)-1'')
      else Returns tmp)"
  by pat_completeness auto
termination
  by (relation "measure (\<lambda>(n, _). unat n)") (auto simp: unat_div word_less_nat_alt)

declare memlimit_digits.simps [simp del]

fun memlimit_copy :: "memory \<Rightarrow> u32 \<Rightarrow> u8 list \<Rightarrow> nat \<Rightarrow> nat \<Rightarrow> memory" where
  "memlimit_copy m res tmp j 0 = m"
| "memlimit_copy m res tmp j (Suc i) = memlimit_copy (m(res + of_nat (j - Suc i) := tmp ! i)) res tmp j i"

definition getparam_memlimit :: "u32 \<Rightarrow> memory \<Rightarrow> u32 \<Rightarrow> u32 \<Rightarrow> (memory \<times> int) outcome" where
  "getparam_memlimit memsize m buf buflen =
     (if memsize > BMK_MEMRESERVE then
        bind_outcome (memlimit_digits (memsize - BMK_MEMRESERVE) []) (\<lambda>tmp.
          let i = length tmp
          in if i \<ge> unat buflen then Returns (m, 1)
             else Returns (memlimit_copy (m(buf + of_nat i := 0)) buf tmp i i, 0))
      else Halts (AssertFail ''bmk_memsize > BMK_MEMRESERVE''))"

text \<open>\<open>None\<close> is a comparison that never ends.\<close>

definition streq :: "memory \<Rightarrow> u32 \<Rightarrow> u32 \<Rightarrow> bool option" where
  "streq m a b = map_option (\<lambda>c. c = 0) (bmk_strcmp m a b)"

definition rumpuser_getparam ::
  "param_strings \<Rightarrow> u32 \<Rightarrow> memory \<Rightarrow> u32 \<Rightarrow> u32 \<Rightarrow> u32 \<Rightarrow> (memory \<times> int) outcome option" where
  "rumpuser_getparam ps memsize m name buf buflen =
     (if buflen \<le> 1 then Some (Returns (m, 1))
      else
        do {
          ncpu \<leftarrow> streq m name (RUMPUSER_PARAM_NCPU ps);
          one \<leftarrow> (if ncpu then Some True else streq m name (str_rump_verbose ps));
          if one then Some (Returns (fst (bmk_strncpy m buf (str_one ps) (buflen - 1)), 0))
          else do {
            host \<leftarrow> streq m name (RUMPUSER_PARAM_HOSTNAME ps);
            if host then Some (Returns (fst (bmk_strncpy m buf (str_rump_baremetal ps) (buflen - 1)), 0))
            else do {
              lim \<leftarrow> streq m name (str_rump_memlimit ps);
              if lim then Some (getparam_memlimit memsize m buf buflen) else Some (Returns (m, 1))
            }
          }
        })"

definition rumpuser_malloc :: "heap \<Rightarrow> u32 \<Rightarrow> u32 \<Rightarrow> heap \<times> u32 option \<times> int" where
  "rumpuser_malloc h howmuch alignment =
     (case (if howmuch = PAGE_SIZE then bmk_allocpg h 1 else bmk_memalloc h howmuch alignment) of
        (h, rv) \<Rightarrow> if rv \<noteq> 0 then (h, Some rv, 0) else (h, None, ENOMEM))"

definition rumpuser_free :: "heap \<Rightarrow> u32 \<Rightarrow> u32 \<Rightarrow> heap outcome" where
  "rumpuser_free h p len = (if len = PAGE_SIZE then Returns h else bmk_memfree h p)"

text \<open>\<^verbatim>\<open>seed\<close> is a static variable.\<close>

definition next_seed :: "u32 \<Rightarrow> u32" where
  "next_seed seed = (seed * 1103515245 + 12345) mod 0x80000000"

function getrandom_loop :: "memory \<Rightarrow> u32 \<Rightarrow> u32 \<Rightarrow> u32 \<Rightarrow> memory \<times> u32" where
  "getrandom_loop m v buflen seed =
     (if buflen \<ge> 4 then getrandom_loop (store32 m v seed) (v + 4) (buflen - 4) (next_seed seed)
      else (m, seed))"
  by pat_completeness auto
termination
  by (relation "measure (\<lambda>(_, _, n, _). unat n)") (auto simp: unat_sub word_le_nat_alt)

declare getrandom_loop.simps [simp del]

definition rumpuser_getrandom :: "memory \<Rightarrow> u32 \<Rightarrow> u32 \<Rightarrow> u32 \<Rightarrow> memory \<times> u32 \<times> u32 \<times> int" where
  "rumpuser_getrandom m seed buf buflen =
     (case getrandom_loop m buf buflen seed of (m, seed) \<Rightarrow> (m, seed, buflen, 0))"

definition rumpuser_clock_gettime :: "u64 \<Rightarrow> u64 \<times> u32 \<times> int" where
  "rumpuser_clock_gettime now =
     (now div (1000 * 1000 * 1000), ucast (now mod (1000 * 1000 * 1000)), 0)"

text \<open>\<^verbatim>\<open>rumpuser_clock_sleep\<close> calls the rump kernel, then sleeps, then calls the rump kernel.\<close>

datatype clock_sleep = SleepUnsched u64 u32 | SleepBlocked int | SleepSched int

definition sleep_ns :: "u64 \<Rightarrow> u32 \<Rightarrow> u64" where
  "sleep_ns sec nsec = sec * 1000 * 1000 * 1000 + scast nsec"

definition rumpuser_clock_sleep :: "u64 \<Rightarrow> u32 \<Rightarrow> clock_sleep" where
  "rumpuser_clock_sleep sec nsec = SleepUnsched sec nsec"

fun clock_sleep_continue :: "int \<Rightarrow> u64 \<Rightarrow> clock_sleep \<Rightarrow> fiber \<Rightarrow> fiber \<times> clock_sleep option" where
  "clock_sleep_continue n now (SleepUnsched sec nsec) st =
     (bmk_sched_nanosleep now (sleep_ns sec nsec) st, Some (SleepBlocked n))"
| "clock_sleep_continue n now (SleepBlocked nlocks) st = (st, Some (SleepSched nlocks))"
| "clock_sleep_continue n now (SleepSched nlocks) st = (st, None)"

fun clock_sleep_awaits :: "clock_sleep \<Rightarrow> request" where
  "clock_sleep_awaits (SleepUnsched sec nsec) = rumpkern_unsched 0"
| "clock_sleep_awaits (SleepBlocked nlocks) = BmkSched"
| "clock_sleep_awaits (SleepSched nlocks) = rumpkern_sched nlocks 0"

definition rumpuser_dprintf :: "u32 \<Rightarrow> fiber \<Rightarrow> fiber option" where
  "rumpuser_dprintf fmt st =
     map_option (\<lambda>c. st\<lparr>kcons := c\<rparr>) (bmk_cons_puts (mem (kheap st)) fmt (kcons st))"

section \<open>The memory limit\<close>

text \<open>The value of a decimal number.\<close>

definition dec :: "u8 list \<Rightarrow> nat" where
  "dec ds = foldl (\<lambda>v d. 10 * v + (unat d - 48)) 0 ds"

definition is_digit :: "u8 \<Rightarrow> bool" where
  "is_digit d \<longleftrightarrow> 48 \<le> d \<and> d < 58"

lemma memlimit_digits_returns:
  assumes "length tmp + k \<le> 63" "unat n < 10 ^ k"
  shows "\<exists>ds. memlimit_digits n tmp = Returns (tmp @ ds) \<and> length ds \<le> k \<and> dec (rev ds) = unat n \<and>
    list_all is_digit ds \<and> (n \<noteq> 0 \<longrightarrow> ds \<noteq> [] \<and> last ds \<noteq> 48)"
  using assms
proof (induction k arbitrary: n tmp)
  case 0
  then show ?case by (subst memlimit_digits.simps) (simp add: unat_eq_0 dec_def)
next
  case (Suc k)
  show ?case
  proof (cases "n = 0")
    case True
    then show ?thesis by (subst memlimit_digits.simps) (auto simp: dec_def)
  next
    case False
    let ?d = "ucast (n mod 10) + 48 :: u8"
    have "unat (n div 10) < 10 ^ k" using Suc.prems(2) by (simp add: unat_div div_less_iff_less_mult mult.commute)
    then obtain ds where ds: "memlimit_digits (n div 10) (tmp @ [?d]) = Returns (tmp @ ?d # ds)" "length ds \<le> k"
        "dec (rev ds) = unat (n div 10)" "list_all is_digit ds" "n div 10 \<noteq> 0 \<longrightarrow> ds \<noteq> [] \<and> last ds \<noteq> 48"
      using Suc.IH [of "tmp @ [?d]" "n div 10"] Suc.prems(1) by auto
    have d: "unat ?d = unat n mod 10 + 48"
    proof -
      have "unat n mod 10 mod 256 = unat n mod 10" by (rule mod_less) (simp add: less_trans [OF mod_less_divisor])
      then have "unat (ucast (n mod 10) :: u8) = unat n mod 10"
        by (simp add: unsigned_ucast_eq take_bit_eq_mod unat_mod)
      moreover have "unat n mod 10 < 10" by simp
      ultimately show ?thesis by (subst unat_add_no_wrap) auto
    qed
    have "is_digit ?d" using d by (simp add: is_digit_def word_le_nat_alt word_less_nat_alt)
    moreover have "dec (rev (?d # ds)) = unat n"
      using ds(3) d by (simp add: dec_def unat_div)
    moreover have "last (?d # ds) \<noteq> 48"
    proof (cases "n div 10 = 0")
      case True
      then have "unat (n div 10) = 0" by simp
      then have "unat n < 10" by (simp add: unat_div div_eq_0_iff)
      then have "unat ?d \<noteq> 48" using False d by (simp add: unat_eq_0)
      then show ?thesis using True ds memlimit_digits.simps [of 0 "tmp @ [?d]"] by auto
    qed (use ds(5) in auto)
    ultimately show ?thesis
      using ds False Suc.prems(1) by (intro exI [of _ "?d # ds"]) (subst memlimit_digits.simps, auto simp: word_neq_0_conv)
  qed
qed

lemma memlimit_copy_eq:
  assumes "i \<le> length tmp" "length tmp < 2 ^ 32"
  shows "memlimit_copy m res tmp (length tmp) i = write_bytes m (res + of_nat (length tmp - i)) (rev (take i tmp))"
  using assms(1)
proof (induction i arbitrary: m)
  case (Suc i)
  have "rev (take (Suc i) tmp) = tmp ! i # rev (take i tmp)" using Suc.prems by (simp add: take_Suc_conv_app_nth)
  moreover have "res + of_nat (length tmp - Suc i) + 1 = res + of_nat (length tmp - i)"
    using Suc.prems by (simp add: Suc_diff_Suc [symmetric] of_nat_diff del: of_nat_Suc) (simp add: of_nat_diff)
  ultimately show ?case using Suc by simp
qed simp

lemma getparam_memlimit_result:
  assumes "BMK_MEMRESERVE < memsize"
  shows "\<exists>ds. dec ds = unat (memsize - BMK_MEMRESERVE) \<and> list_all is_digit ds \<and> hd ds \<noteq> 48 \<and> 0 < length ds \<and> length ds \<le> 10 \<and>
    getparam_memlimit memsize m buf buflen =
      (if length ds < unat buflen then Returns (write_bytes m buf (ds @ [0]), 0) else Returns (m, 1))"
proof -
  let ?n = "memsize - BMK_MEMRESERVE"
  have "unat ?n < 2 ^ 32" using unsigned_less [of ?n, where 'a = nat] by simp
  then have "unat ?n < 10 ^ 10" by simp
  moreover have "?n \<noteq> 0" using assms by auto
  ultimately obtain ds where ds: "memlimit_digits ?n [] = Returns ds" "length ds \<le> 10" "dec (rev ds) = unat ?n"
      "list_all is_digit ds" "ds \<noteq> []" "last ds \<noteq> 48"
    using memlimit_digits_returns [of "[]" 10 ?n] by auto
  have l: "length ds < 2 ^ 32" using ds(2) by simp
  have "memlimit_copy (m(buf + of_nat (length ds) := 0)) buf ds (length ds) (length ds) = write_bytes m buf (rev ds @ [0])"
  proof
    fix x
    show "memlimit_copy (m(buf + of_nat (length ds) := 0)) buf ds (length ds) (length ds) x = write_bytes m buf (rev ds @ [0]) x"
      using ds(2) by (cases "x = buf + of_nat (length ds)")
        (simp_all add: memlimit_copy_eq [OF order_refl l] write_bytes_append write_bytes_eq region_def unat_of_nat_small)
  qed
  then show ?thesis
    using assms ds by (intro exI [of _ "rev ds"]) (auto simp: getparam_memlimit_def Let_def hd_rev)
qed

text \<open>Comparing strings.\<close>

definition bytes :: "string \<Rightarrow> u8 list" where
  "bytes s = map of_char s"

lemma streq_same: "cstr m a xs \<Longrightarrow> cstr m b xs \<Longrightarrow> streq m a b = Some True"
  using bmk_strcmp_common_prefix [of m a xs "[]" b "[]"] by (simp add: streq_def)

lemma streq_differ:
  assumes "cstr m a (ps @ x # x' # xs)" "cstr m b (ps @ y # ys)" "x \<noteq> y"
  shows "streq m a b = Some False"
proof -
  have "sint x \<noteq> sint y" using assms(3) by (auto dest: signed_word_eqI)
  then show ?thesis using bmk_strcmp_common_prefix [OF assms(1,2)] assms(3) by (simp add: streq_def)
qed

lemma of_char_inj: "of_char x = (of_char y :: u8) \<longleftrightarrow> x = y"
proof
  assume "of_char x = (of_char y :: u8)"
  then have "of_nat (of_char x) = (of_nat (of_char y) :: u8)" by (simp only: of_nat_of_char)
  then have "of_char x mod 256 = (of_char y mod 256 :: nat)" by (simp add: word_of_nat_eq_iff take_bit_eq_mod)
  then show "x = y" by simp
qed simp

lemma streq_strings:
  assumes "cstr m a (bytes (ps @ x # x' # xs))" "cstr m b (bytes (ps @ y # ys))" "x \<noteq> y"
  shows "streq m a b = Some False"
  using assms streq_differ [of m a "bytes ps" "of_char x" "of_char x'" "bytes xs" b "of_char y" "bytes ys"]
  by (simp add: bytes_def of_char_inj)

text \<open>The string constants in memory.\<close>

definition strings_at :: "param_strings \<Rightarrow> memory \<Rightarrow> bool" where
  "strings_at ps m \<longleftrightarrow> cstr m (RUMPUSER_PARAM_NCPU ps) (bytes ''_RUMPUSER_NCPU'') \<and>
     cstr m (RUMPUSER_PARAM_HOSTNAME ps) (bytes ''_RUMPUSER_HOSTNAME'') \<and>
     cstr m (str_rump_verbose ps) (bytes ''RUMP_VERBOSE'') \<and> cstr m (str_rump_memlimit ps) (bytes ''RUMP_MEMLIMIT'') \<and>
     cstr m (str_one ps) (bytes ''1'') \<and> cstr m (str_rump_baremetal ps) (bytes ''rump-baremetal'')"

text \<open>
  Reading the parameter \<^verbatim>\<open>RUMP_MEMLIMIT\<close> as a number gives the memory of the machine less the
  megabyte that is kept back: the buffer holds the decimal digits without leading zeros and nothing
  else changes; a buffer that is too small is reported and left alone.
\<close>

theorem getparam_memlimit_roundtrip:
  assumes "strings_at ps m" "cstr m name (bytes ''RUMP_MEMLIMIT'')" "1 < buflen" "BMK_MEMRESERVE < memsize"
  shows "\<exists>ds. dec ds = unat (memsize - BMK_MEMRESERVE) \<and> list_all is_digit ds \<and> hd ds \<noteq> 48 \<and> 0 < length ds \<and> length ds \<le> 10 \<and>
    (if length ds < unat buflen then
       \<exists>m'. rumpuser_getparam ps memsize m name buf buflen = Some (Returns (m', 0)) \<and> cstr m' buf ds \<and>
         (\<forall>x. x \<notin> region buf (Suc (length ds)) \<longrightarrow> m' x = m x)
     else rumpuser_getparam ps memsize m name buf buflen = Some (Returns (m, 1)))"
proof -
  note s = assms(1) [unfolded strings_at_def] and n = assms(2)
  have "streq m name (RUMPUSER_PARAM_NCPU ps) = Some False"
    using s n streq_strings [of m name "[]" "CHR ''R''" "CHR ''U''" "''MP_MEMLIMIT''" _ "CHR ''_''" "''RUMPUSER_NCPU''"] by simp
  moreover have "streq m name (str_rump_verbose ps) = Some False"
    using s n streq_strings [of m name "''RUMP_''" "CHR ''M''" "CHR ''E''" "''MLIMIT''" _ "CHR ''V''" "''ERBOSE''"] by simp
  moreover have "streq m name (RUMPUSER_PARAM_HOSTNAME ps) = Some False"
    using s n streq_strings [of m name "[]" "CHR ''R''" "CHR ''U''" "''MP_MEMLIMIT''" _ "CHR ''_''" "''RUMPUSER_HOSTNAME''"] by simp
  moreover have "streq m name (str_rump_memlimit ps) = Some True" using s n streq_same by blast
  ultimately have g: "rumpuser_getparam ps memsize m name buf buflen = Some (getparam_memlimit memsize m buf buflen)"
    using assms(3) [unfolded not_le [symmetric]] by (simp add: rumpuser_getparam_def)
  obtain ds where ds: "dec ds = unat (memsize - BMK_MEMRESERVE)" "list_all is_digit ds" "hd ds \<noteq> 48" "0 < length ds" "length ds \<le> 10"
      "getparam_memlimit memsize m buf buflen =
        (if length ds < unat buflen then Returns (write_bytes m buf (ds @ [0]), 0) else Returns (m, 1))"
    using getparam_memlimit_result [OF assms(4)] by blast
  have "0 \<notin> set ds" using ds(2) by (auto simp: list_all_iff is_digit_def)
  then have "cstr (write_bytes m buf (ds @ [0])) buf ds" using ds(5) by (intro cstr_write_bytes) auto
  moreover have "write_bytes m buf (ds @ [0]) x = m x" if "x \<notin> region buf (Suc (length ds))" for x
    using that ds(5) by (intro write_bytes_outside) auto
  ultimately show ?thesis using ds g by (intro exI [of _ ds]) simp
qed

text \<open>
  Asking for the host name with a buffer of at most 14 bytes destroys the memory: \<^verbatim>\<open>bmk_strncpy\<close>
  does not stop at the end of the buffer. (The constant is assumed not to lie just in front of the
  buffer.)
\<close>

theorem getparam_hostname_wipes:
  assumes "strings_at ps m" "cstr m name (bytes ''_RUMPUSER_HOSTNAME'')" "1 < buflen" "buflen \<le> 14"
    and "14 < unat (buf - str_rump_baremetal ps)"
  shows "\<exists>c. rumpuser_getparam ps memsize m name buf buflen = Some (Returns ((\<lambda>x. 0)(buf + (buflen - 1) := c), 0))"
proof -
  note s = assms(1) [unfolded strings_at_def] and n = assms(2)
  have "streq m name (RUMPUSER_PARAM_NCPU ps) = Some False"
    using s n streq_strings [of m name "''_RUMPUSER_''" "CHR ''H''" "CHR ''O''" "''STNAME''" _ "CHR ''N''" "''CPU''"] by simp
  moreover have "streq m name (str_rump_verbose ps) = Some False"
    using s n streq_strings [of m name "[]" "CHR ''_''" "CHR ''R''" "''UMPUSER_HOSTNAME''" _ "CHR ''R''" "''UMP_VERBOSE''"] by simp
  moreover have "streq m name (RUMPUSER_PARAM_HOSTNAME ps) = Some True" using s n streq_same by blast
  moreover have "unat (buflen - 1) < length (bytes ''rump-baremetal'')"
    using assms(3,4) by (simp add: bytes_def unat_sub word_le_nat_alt word_less_nat_alt)
  then have "fst (bmk_strncpy m buf (str_rump_baremetal ps) (buflen - 1)) =
      (\<lambda>x. 0)(buf + (buflen - 1) := bytes ''rump-baremetal'' ! unat (buflen - 1))"
    using strncpy_long [of m "str_rump_baremetal ps" "bytes ''rump-baremetal''" "buflen - 1" buf] s assms(5) by (simp add: bytes_def)
  ultimately show ?thesis using assms(3) [unfolded not_le [symmetric]] by (auto simp: rumpuser_getparam_def)
qed

section \<open>Memory\<close>

definition malloc_fits :: "heap \<Rightarrow> u32 \<Rightarrow> u32 \<Rightarrow> bool" where
  "malloc_fits h n al \<longleftrightarrow> (if n = PAGE_SIZE then unat (current h) + 1 < 2 ^ 20 else request_fits h n al)"


fun page_rounds :: "nat \<Rightarrow> heap \<Rightarrow> heap outcome" where
  "page_rounds 0 h = Returns h"
| "page_rounds (Suc n) h =
     (case rumpuser_malloc h PAGE_SIZE 0 of
        (h', Some p, rv) \<Rightarrow> bind_outcome (rumpuser_free h' p PAGE_SIZE) (page_rounds n)
      | (h', None, rv) \<Rightarrow> page_rounds n h')"

lemma page_rounds_eq: "page_rounds n h = Returns (h\<lparr>current := current h + of_nat n\<rparr>)"
proof (induction n arbitrary: h)
  case (Suc n)
  show ?case
    using Suc [of "h\<lparr>current := current h + 1\<rparr>"]
    by (simp add: rumpuser_malloc_def rumpuser_free_def bmk_allocpg_def Let_def bind_outcome_def algebra_simps split: prod.splits)
qed simp

text \<open>
  Pages are never given back: after as many rounds of \<^verbatim>\<open>rumpuser_malloc\<close> and
  \<^verbatim>\<open>rumpuser_free\<close> of one page as the machine has pages left, with nothing in use in between, the
  next request fails.
\<close>

theorem page_rounds_exhaust:
  assumes "physmem_ok h" "unat (current h) + n + 1 < 2 ^ 20"
    and "unat (bmk_memsize h) < 4096 * (unat (current h) + n + 1)"
  shows "\<exists>h' h''. page_rounds n h = Returns h' \<and> rumpuser_malloc h' PAGE_SIZE 0 = (h'', None, ENOMEM)"
proof -
  let ?h = "h\<lparr>current := current h + of_nat n\<rparr>"
  have "unat (current ?h) = unat (current h) + n"
    using assms(2) by (simp add: unat_add_no_wrap unat_of_nat_small)
  moreover have "physmem_ok ?h" using assms(1) by (simp add: physmem_ok_def)
  ultimately have "snd (bmk_allocpg ?h 1) = 0" using bmk_allocpg_cases [of ?h 1] assms(2,3) by simp
  then show ?thesis by (cases "bmk_allocpg ?h 1") (simp add: page_rounds_eq rumpuser_malloc_def)
qed

section \<open>Random numbers\<close>

definition le_bytes :: "u32 \<Rightarrow> u8 list" where
  "le_bytes v = [ucast v, ucast (drop_bit 8 v), ucast (drop_bit 16 v), ucast (drop_bit 24 v)]"

text \<open>The first \<open>n\<close> numbers of the generator.\<close>

definition random_words :: "nat \<Rightarrow> u32 \<Rightarrow> u32 list" where
  "random_words n seed = map (\<lambda>i. (next_seed ^^ i) seed) [0..<n]"

lemma random_words_Suc: "random_words (Suc n) seed = seed # random_words n (next_seed seed)"
  by (simp add: random_words_def map_upt_Suc funpow_swap1 del: upt_Suc)

lemma store32_write: "store32 m a v = write_bytes m a (le_bytes v)"
  by (simp add: store32_def le_bytes_def add.assoc)

lemma length_le_bytes [simp]: "length (le_bytes v) = 4"
  by (simp add: le_bytes_def)

lemma getrandom_loop_eq:
  "getrandom_loop m v buflen seed =
     (write_bytes m v (concat (map le_bytes (random_words (unat buflen div 4) seed))),
      (next_seed ^^ (unat buflen div 4)) seed)"
proof (induction m v buflen seed rule: getrandom_loop.induct)
  case (1 m v buflen seed)
  show ?case
  proof (cases "buflen \<ge> 4")
    case True
    then have "unat buflen div 4 = Suc (unat (buflen - 4) div 4)"
      using le_div_geq [of 4 "unat buflen"] by (simp add: unat_sub word_le_nat_alt)
    then show ?thesis
      using 1 [OF True] True
      by (simp add: getrandom_loop.simps [of m] random_words_Suc store32_write write_bytes_append funpow_swap1)
  next
    case False
    then show ?thesis by (simp add: getrandom_loop.simps [of m] random_words_def word_le_nat_alt div_less)
  qed
qed

lemma length_random_bytes: "length (concat (map le_bytes (random_words n seed))) = 4 * n"
  by (induction n arbitrary: seed) (simp_all add: random_words_Suc le_bytes_def, simp add: random_words_def)

text \<open>
  (C22) \<^verbatim>\<open>rumpuser_getrandom\<close> writes the numbers of its generator one after the other, as many as
  there are whole words in the buffer, and continues from there the next time. The last
  \<^verbatim>\<open>buflen % 4\<close> bytes keep what they held, although all \<^verbatim>\<open>buflen\<close> are reported.
\<close>

theorem rumpuser_getrandom_words:
  "rumpuser_getrandom m seed buf buflen =
     (write_bytes m buf (concat (map le_bytes (random_words (unat buflen div 4) seed))),
      (next_seed ^^ (unat buflen div 4)) seed, buflen, 0) \<and>
   (unat buflen mod 4 \<noteq> 0 \<longrightarrow> fst (rumpuser_getrandom m seed buf buflen) (buf + buflen - 1) = m (buf + buflen - 1))"
proof -
  let ?w = "write_bytes m buf (concat (map le_bytes (random_words (unat buflen div 4) seed)))"
  have "?w (buf + buflen - 1) = m (buf + buflen - 1)" if "unat buflen mod 4 \<noteq> 0"
  proof -
    have "buflen \<noteq> 0" using that by auto
    then have "unat (buflen - 1) = unat buflen - 1" by simp
    moreover have "4 * (unat buflen div 4) \<le> unat buflen - 1"
      using that div_mult_mod_eq [of "unat buflen" 4] by linarith
    moreover have "unat buflen < 2 ^ 32" using unsigned_less [of buflen, where 'a = nat] by simp
    ultimately show ?thesis
      by (intro write_bytes_outside) (simp_all add: length_random_bytes region_def)
  qed
  then show ?thesis by (simp add: rumpuser_getrandom_def getrandom_loop_eq)
qed

section \<open>The clock\<close>

text \<open>
  The two parts of the time: the seconds and the nanoseconds within a second. Sleeping for them
  is sleeping for that many nanoseconds.
\<close>

theorem clock_gettime_splits:
  "case rumpuser_clock_gettime now of (sec, nsec, rv) \<Rightarrow>
     rv = 0 \<and> unat nsec < 10 ^ 9 \<and> unat sec * 10 ^ 9 + unat nsec = unat now \<and> sleep_ns sec nsec = now"
proof -
  let ?n = "now mod 1000000000"
  have lt: "unat ?n < 10 ^ 9" by (simp add: unat_mod)
  have un: "unat (ucast ?n :: u32) = unat ?n" using lt by (simp add: unsigned_ucast_eq take_bit_nat_eq_self)
  have "uint ?n < 1000000000" by (simp add: uint_mod)
  then have "signed_take_bit 31 (uint ?n) = uint ?n"
    by (intro signed_take_bit_int_eq_self order_trans [OF _ uint_ge_0]) simp_all
  moreover have "uint (ucast ?n :: u32) = uint ?n" using un by (metis uint_nat)
  ultimately have "sint (ucast ?n :: u32) = uint ?n"
    by (simp add: sint_uint)
  then have "scast (ucast ?n :: u32) = ?n" by (simp add: scast_eq)
  then have "sleep_ns (now div 1000000000) (ucast ?n) = now" using mult_div_mod_eq [of 1000000000 now] by (simp add: sleep_ns_def)
  then show ?thesis
    using lt un by (simp add: rumpuser_clock_gettime_def unat_div unat_mod)
qed

section \<open>Examples\<close>

definition sample_strings :: param_strings where
  "sample_strings = \<lparr>RUMPUSER_PARAM_NCPU = 0x1000, RUMPUSER_PARAM_HOSTNAME = 0x1020, str_rump_verbose = 0x1040,
     str_rump_memlimit = 0x1060, str_one = 0x1080, str_rump_baremetal = 0x10a0\<rparr>"

fun write_strings :: "memory \<Rightarrow> (u32 \<times> string) list \<Rightarrow> memory" where
  "write_strings m [] = m"
| "write_strings m ((a, s) # ss) = write_strings (write_bytes m a (bytes s)) ss"

definition sample_rodata :: memory where
  "sample_rodata = write_strings (\<lambda>_. 0)
     [(0x1000, ''_RUMPUSER_NCPU''), (0x1020, ''_RUMPUSER_HOSTNAME''), (0x1040, ''RUMP_VERBOSE''),
      (0x1060, ''RUMP_MEMLIMIT''), (0x1080, ''1''), (0x10a0, ''rump-baremetal'')]"

lemma sample_strings_at: "strings_at sample_strings sample_rodata"
  by (simp add: strings_at_def sample_strings_def sample_rodata_def bytes_def)

theorem getparam_memlimit_roundtrip_witness:
  "\<exists>ds m'. dec ds = 15 * 1024 * 1024 \<and> cstr m' 0x2000 ds \<and>
     rumpuser_getparam sample_strings 0x1000000 sample_rodata 0x1060 0x2000 16 = Some (Returns (m', 0))"
proof -
  have "cstr sample_rodata 0x1060 (bytes ''RUMP_MEMLIMIT'')"
    using sample_strings_at by (simp add: strings_at_def sample_strings_def)
  from getparam_memlimit_roundtrip [OF sample_strings_at this, of 16 "0x1000000" "0x2000"]
  obtain ds where "dec ds = 15 * 1024 * 1024" "length ds \<le> 10"
    "if length ds < 16 then \<exists>m'. rumpuser_getparam sample_strings 0x1000000 sample_rodata 0x1060 0x2000 16 =
       Some (Returns (m', 0)) \<and> cstr m' 0x2000 ds else False"
    by (auto simp: BMK_MEMRESERVE_def split: if_splits)
  then show ?thesis by (auto split: if_splits)
qed

theorem getparam_hostname_wipes_witness:
  "\<exists>c. rumpuser_getparam sample_strings 0x1000000 sample_rodata 0x1020 0x2000 8 =
     Some (Returns ((\<lambda>x. 0)(0x2007 := c), 0))"
proof -
  have "cstr sample_rodata 0x1020 (bytes ''_RUMPUSER_HOSTNAME'')"
    using sample_strings_at by (simp add: strings_at_def sample_strings_def)
  from getparam_hostname_wipes [OF sample_strings_at this, of 8 "0x2000" "0x1000000"]
  show ?thesis by (simp add: sample_strings_def)
qed


theorem page_rounds_exhaust_witness:
  "\<exists>h' h''. page_rounds 4096 sample_heap = Returns h' \<and> rumpuser_malloc h' PAGE_SIZE 0 = (h'', None, ENOMEM)"
  using page_rounds_exhaust [of sample_heap 4096] sample_heap_start
  by (simp add: heap_start_def sample_heap_def physmem_ok_def)

theorem rumpuser_getrandom_words_witness:
  "fst (rumpuser_getrandom (\<lambda>_. 7) 12345 0x1000 5) 0x1004 = 7 \<and> unat (5 :: u32) mod 4 \<noteq> 0"
  using rumpuser_getrandom_words [of "\<lambda>_. 7" 12345 "0x1000" 5, THEN conjunct2] by simp

end
