(* ===== verification/Pci.thy ===== *)
theory Pci
  imports Rumpuser
begin

text \<open>
  The PCI hypercalls of \<^verbatim>\<open>rumppci.c\<close>: configuration space through the two ports of the host bridge,
  interrupt lines, and memory for the devices.
\<close>

unbundle bit_operations_syntax

section \<open>Configuration space\<close>

definition PCI_CONF_ADDR :: u16 where "PCI_CONF_ADDR = 0xcf8"
definition PCI_CONF_DATA :: u16 where "PCI_CONF_DATA = 0xcfc"

definition makeaddr :: "u32 \<Rightarrow> u32 \<Rightarrow> u32 \<Rightarrow> u32 \<Rightarrow> u32" where
  "makeaddr bus dev func reg =
     push_bit 31 1 OR push_bit 16 bus OR push_bit 11 dev OR push_bit 8 func OR (reg AND 0xfc)"

text \<open>\<open>answer\<close> is what the host bridge gives when the data port is read.\<close>

definition rumpcomp_pci_confread ::
  "u32 \<Rightarrow> u32 \<Rightarrow> u32 \<Rightarrow> u32 \<Rightarrow> u32 \<Rightarrow> cpu \<Rightarrow> cpu \<times> u32 \<times> int" where
  "rumpcomp_pci_confread bus dev func reg answer c =
     (let addr = makeaddr bus dev func reg;
          c = outl PCI_CONF_ADDR addr c
      in case inl PCI_CONF_DATA answer c of (c, data) \<Rightarrow> (c, data, 0))"

definition rumpcomp_pci_confwrite ::
  "u32 \<Rightarrow> u32 \<Rightarrow> u32 \<Rightarrow> u32 \<Rightarrow> u32 \<Rightarrow> cpu \<Rightarrow> cpu \<times> int" where
  "rumpcomp_pci_confwrite bus dev func reg v c =
     (let addr = makeaddr bus dev func reg;
          c = outl PCI_CONF_ADDR addr c;
          c = outl PCI_CONF_DATA v c
      in (c, 0))"

section \<open>Interrupts\<close>

text \<open>The static array \<^verbatim>\<open>intrs\<close> has \<^verbatim>\<open>BMK_MAXINTR\<close> elements.\<close>

record pci = fiber +
  intrs :: "int list"

definition rumpcomp_pci_irq_map ::
  "u32 \<Rightarrow> u32 \<Rightarrow> u32 \<Rightarrow> int \<Rightarrow> u32 \<Rightarrow> pci \<Rightarrow> (pci \<times> int) outcome" where
  "rumpcomp_pci_irq_map bus device func intrline cookie st =
     (if uint cookie > BMK_MAXINTR then Returns (st, EGENERIC)
      else if unat cookie < length (intrs st) then Returns (st\<lparr>intrs := (intrs st)[unat cookie := intrline]\<rparr>, 0)
      else Halts WildStore)"

text \<open>The result, \<^verbatim>\<open>&intrs[cookie]\<close> or \<^verbatim>\<open>NULL\<close>, is given by the index.\<close>

definition rumpcomp_pci_irq_establish ::
  "symbols \<Rightarrow> u32 \<Rightarrow> u32 \<Rightarrow> u32 \<Rightarrow> pci \<Rightarrow> (pci \<times> u32 option) outcome" where
  "rumpcomp_pci_irq_establish sy cookie handler data st =
     (if unat cookie < length (intrs st) then
        bind_outcome (bmk_isr_netinit sy handler data (intrs st ! unat cookie) st) (\<lambda>(st, error).
          Returns (st, if error = 0 then Some cookie else None))
      else Halts WildLoad)"

section \<open>Memory for devices\<close>

definition rumpcomp_pci_map :: "u32 \<Rightarrow> u32 \<Rightarrow> u32" where
  "rumpcomp_pci_map addr len = addr"

text \<open>The result is the pair of physical and virtual address, and the return value.\<close>

definition rumpcomp_pci_dmalloc :: "heap \<Rightarrow> u32 \<Rightarrow> u32 \<Rightarrow> heap \<times> (u32 \<times> u32) option \<times> int" where
  "rumpcomp_pci_dmalloc h sz align =
     (case bmk_allocpg h (round_page sz div PAGE_SIZE) of
        (h, rv) \<Rightarrow> if rv = 0 then (h, None, 1) else (h, Some (rv, rv), 0))"

record rumpcomp_pci_dmaseg =
  ds_pa :: u32
  ds_len :: u32
  ds_vacookie :: u32

definition load_dmaseg :: "memory \<Rightarrow> u32 \<Rightarrow> rumpcomp_pci_dmaseg" where
  "load_dmaseg m a = \<lparr>ds_pa = load32 m a, ds_len = load32 m (a + 4), ds_vacookie = load32 m (a + 8)\<rparr>"

definition rumpcomp_pci_dmamem_map :: "memory \<Rightarrow> u32 \<Rightarrow> u32 \<Rightarrow> u32 \<Rightarrow> u32 option \<times> int" where
  "rumpcomp_pci_dmamem_map m dss nseg totlen =
     (if nseg > 1 then (None, 1) else (Some (ds_vacookie (load_dmaseg m dss)), 0))"

definition rumpcomp_pci_virt_to_mach :: "u32 \<Rightarrow> u32" where
  "rumpcomp_pci_virt_to_mach virt = virt"

section \<open>Addresses in configuration space\<close>

definition decode_addr :: "u32 \<Rightarrow> u32 \<times> u32 \<times> u32 \<times> u32" where
  "decode_addr a = (take_bit 8 (drop_bit 16 a), take_bit 5 (drop_bit 11 a), take_bit 3 (drop_bit 8 a), take_bit 8 a)"

definition conf_range :: "u32 \<Rightarrow> u32 \<Rightarrow> u32 \<Rightarrow> bool" where
  "conf_range bus dev func \<longleftrightarrow> bus < 256 \<and> dev < 32 \<and> func < 8"

lemma bit_less:
  fixes w :: u32
  assumes "unat w < 2 ^ k"
  shows "bit w n \<Longrightarrow> n < k"
proof -
  have "take_bit k w = w" using assms by (metis take_bit_nat_eq_self unsigned_take_bit_eq word_unat_eq_iff)
  then show "bit w n \<Longrightarrow> n < k" by (metis bit_take_bit_iff)
qed

lemma reg_mask: "0xfc = push_bit 2 (mask 6 :: u32)"
  by (simp add: mask_eq_exp_minus_1)

text \<open>
  The address of a register determines the bus, the device, the function and the register.
\<close>

lemma makeaddr_decodes:
  assumes "conf_range bus dev func"
  shows "decode_addr (makeaddr bus dev func reg) = (bus, dev, func, reg AND 0xfc) \<and>
    bit (makeaddr bus dev func reg) 31"
proof -
  have b: "bit bus n \<Longrightarrow> n < 8" "bit dev n \<Longrightarrow> n < 5" "bit func n \<Longrightarrow> n < 3" for n
    using assms bit_less [of bus 8 n] bit_less [of dev 5 n] bit_less [of func 3 n] by (simp_all add: conf_range_def word_less_nat_alt)
  have "take_bit 8 (drop_bit 16 (makeaddr bus dev func reg)) = bus"
    unfolding makeaddr_def reg_mask by (rule bit_eqI) (auto simp: bit_simps dest: b)
  moreover have "take_bit 5 (drop_bit 11 (makeaddr bus dev func reg)) = dev"
    unfolding makeaddr_def reg_mask by (rule bit_eqI) (auto simp: bit_simps dest: b)
  moreover have "take_bit 3 (drop_bit 8 (makeaddr bus dev func reg)) = func"
    unfolding makeaddr_def reg_mask by (rule bit_eqI) (auto simp: bit_simps dest: b)
  moreover have "take_bit 8 (makeaddr bus dev func reg) = reg AND 0xfc"
    unfolding makeaddr_def reg_mask by (rule bit_eqI) (auto simp: bit_simps dest: b)
  moreover have "bit (makeaddr bus dev func reg) 31" by (simp add: makeaddr_def bit_simps)
  ultimately show ?thesis by (simp add: decode_addr_def)
qed

text \<open>
  The host bridge as it answers: the address port selects a register, writing the data port stores in
  it, reading the data port gives what it holds. Registers that hold something else than what was
  written are not of this kind.
\<close>

type_synonym conf_space = "u32 \<times> (u32 \<Rightarrow> u32)"

fun conf_step :: "io \<Rightarrow> conf_space \<Rightarrow> conf_space" where
  "conf_step (Outl p v) (a, regs) =
     (if p = PCI_CONF_ADDR then (v, regs) else if p = PCI_CONF_DATA then (a, regs(a := v)) else (a, regs))"
| "conf_step _ s = s"

fun conf_answers :: "conf_space \<Rightarrow> io list \<Rightarrow> bool" where
  "conf_answers s [] = True"
| "conf_answers s (x # log) =
     ((case x of io.Inl p v \<Rightarrow> p = PCI_CONF_DATA \<longrightarrow> v = snd s (fst s) | _ \<Rightarrow> True) \<and> conf_answers (conf_step x s) log)"

lemma conf_answers_append: "conf_answers s (xs @ ys) \<longleftrightarrow> conf_answers s xs \<and> conf_answers (fold conf_step xs s) ys"
  by (induction xs arbitrary: s) auto

lemma makeaddr_inject:
  assumes "conf_range bus dev func" "conf_range bus' dev' func'"
  shows "makeaddr bus dev func reg = makeaddr bus' dev' func' reg' \<longleftrightarrow>
    (bus, dev, func, reg AND 0xfc) = (bus', dev', func', reg' AND 0xfc)"
proof
  assume "makeaddr bus dev func reg = makeaddr bus' dev' func' reg'"
  then have "decode_addr (makeaddr bus dev func reg) = decode_addr (makeaddr bus' dev' func' reg')" by simp
  then show "(bus, dev, func, reg AND 0xfc) = (bus', dev', func', reg' AND 0xfc)"
    using makeaddr_decodes assms by simp
qed (simp add: makeaddr_def)



section \<open>Interrupt lines\<close>

text \<open>
  After \<^verbatim>\<open>rumpcomp_pci_irq_map\<close> of a cookie below \<^verbatim>\<open>BMK_MAXINTR\<close> to line 10 or 11,
  \<^verbatim>\<open>rumpcomp_pci_irq_establish\<close> of the cookie puts the handler in front of the line's handlers, with
  the gate of the line installed, and returns the cookie's element; for any other line it returns
  \<^verbatim>\<open>NULL\<close> and the handlers stay.
\<close>

theorem pci_irq_map_establish:
  assumes "length (intrs st) = nat BMK_MAXINTR" "cookie < 32" "heap_ok (kheap st) L" "pages_left (kheap st) 1"
    and "4096 * (unat (current (kheap st)) + 1) \<le> unat (bmk_memsize (kheap st))"
  shows "\<exists>st1 st2 r. rumpcomp_pci_irq_map bus device func line cookie st = Returns (st1, 0) \<and>
    rumpcomp_pci_irq_establish sy cookie handler data st1 = Returns (st2, r) \<and>
    (if line = 10 \<or> line = 11 then
       r = Some cookie \<and> (\<exists>ih. isr_ih st2 = (isr_ih st)(line := ih # isr_ih st line) \<and> L ih = None \<and>
         intrhands st2 ih = \<lparr>ih_fun = handler, ih_arg = data\<rparr> \<and> heap_ok (kheap st2) (L(ih \<mapsto> 12))) \<and>
       gate_serves (if line = 10 then sym_isr_10 sy else sym_isr_11 sy) (idt (kcpu st2) (32 + nat line))
     else r = None \<and> isr_ih st2 = isr_ih st \<and> heap_ok (kheap st2) L)"
proof -
  let ?st1 = "st\<lparr>intrs := (intrs st)[unat cookie := line]\<rparr>"
  have c: "unat cookie < 32" "\<not> uint cookie > BMK_MAXINTR" "length (intrs st) = 32"
    using assms(1,2) assms(2) [unfolded word_less_def] by (simp_all add: word_less_nat_alt BMK_MAXINTR_def)
  then have m: "rumpcomp_pci_irq_map bus device func line cookie st = Returns (?st1, 0)"
    by (simp add: rumpcomp_pci_irq_map_def)
  have h: "heap_ok (kheap ?st1) L" "pages_left (kheap ?st1) 1"
    "4096 * (unat (current (kheap ?st1)) + 1) \<le> unat (bmk_memsize (kheap ?st1))"
    using assms(3-5) by simp_all
  from isr_netinit_cases [OF h, of sy handler data line] obtain st2 e where
    e: "bmk_isr_netinit sy handler data line ?st1 = Returns (st2, e)" and
    r: "if line = 10 \<or> line = 11 then
       e = 0 \<and> (\<exists>ih. isr_ih st2 = (isr_ih ?st1)(line := ih # isr_ih ?st1 line) \<and> L ih = None \<and>
         intrhands st2 ih = \<lparr>ih_fun = handler, ih_arg = data\<rparr> \<and> heap_ok (kheap st2) (L(ih \<mapsto> 12))) \<and>
       gate_serves (if line = 10 then sym_isr_10 sy else sym_isr_11 sy) (idt (kcpu st2) (32 + nat line))
     else e = EGENERIC \<and> isr_ih st2 = isr_ih ?st1 \<and> heap_ok (kheap st2) L \<and> kcpu st2 = kcpu ?st1"
    by blast
  have est: "rumpcomp_pci_irq_establish sy cookie handler data ?st1 = Returns (st2, if e = 0 then Some cookie else None)"
    using c e by (simp add: rumpcomp_pci_irq_establish_def)
  show ?thesis
  proof (cases "line = 10 \<or> line = 11")
    case True
    then show ?thesis using r est m by simp
  next
    case False
    then show ?thesis using r est m by (simp add: errno_defs)
  qed
qed

section \<open>Memory for devices\<close>

lemma heap_ok_no_pages:
  assumes "heap_ok h L" "unat (current h) + unat n < 2 ^ 20" "bmk_allocpg h n = (h', 0)"
  shows "heap_ok h' L \<and> mem h' = mem h"
proof -
  obtain F G where inv: "heap_inv h F G" and L: "L = (\<lambda>p. map_option (\<lambda>(a, b, n). n) (G p))"
    using assms(1) by (auto simp: heap_ok_def)
  have "h' = h\<lparr>current := current h + n\<rparr>"
    using bmk_allocpg_cases [OF heap_invD(1) [OF inv] assms(2)] assms(3) by (simp split: if_splits)
  moreover have "unat (current h) \<le> unat (current h + n)" using assms(2) by (simp add: unat_add_no_wrap)
  ultimately show ?thesis using heap_inv_advance [OF inv] L by (auto simp: heap_ok_def)
qed

text \<open>
  The memory \<^verbatim>\<open>rumpcomp_pci_dmalloc\<close> gives is at least as large as asked for, apart from
  everything that lives in the heap, and has one address for the device and the CPU; less than a page
  more is taken. When there is none left the call fails and the heap stays.
\<close>

theorem pci_dmalloc_safe:
  assumes "heap_ok h L" "0 < sz" "unat sz + 4095 < 2 ^ 32" "unat (current h) + (unat sz + 4095) div 4096 < 2 ^ 20"
    and "rumpcomp_pci_dmalloc h sz align = (h', r, e)"
  shows "heap_ok h' L \<and> mem h' = mem h \<and>
    (case r of None \<Rightarrow> e = 1
     | Some (pa, va) \<Rightarrow> e = 0 \<and> va = rumpcomp_pci_map pa sz \<and> pa = rumpcomp_pci_virt_to_mach va \<and>
         region va (unat sz) \<subseteq> managed h \<and> (\<forall>q k. L q = Some k \<longrightarrow> region va (unat sz) \<inter> region q k = {}) \<and>
         unat va = core_top h \<and> unat va + unat sz \<le> core_top h' \<and> core_top h' < unat va + unat sz + 4096)"
proof -
  let ?n = "round_page sz div PAGE_SIZE"
  have n: "unat ?n = (unat sz + 4095) div 4096"
    using round_page_unat [of sz] assms(3) by (simp add: unat_div PAGE_SIZE_def)
  have pos: "0 < unat sz" using assms(2) by (simp add: word_less_nat_alt)
  have lt: "unat (current h) + unat ?n < 2 ^ 20" using assms(4) n by simp
  obtain h1 p where p: "bmk_allocpg h ?n = (h1, p)" by fastforce
  show ?thesis
  proof (cases "p = 0")
    case True
    then show ?thesis using p assms(5) heap_ok_no_pages [OF assms(1) lt] by (auto simp: rumpcomp_pci_dmalloc_def)
  next
    case False
    have n0: "0 < unat ?n" using n pos by simp
    have le: "unat sz \<le> 4096 * unat ?n" "4096 * unat ?n < unat sz + 4096" unfolding n using pos by linarith+
    note pg = heap_ok_pages [OF assms(1) lt n0 p False]
    have sub: "region p (unat sz) \<subseteq> region p (4096 * unat ?n)" using le(1) by (rule region_mono)
    have "region p (unat sz) \<inter> region q k = {}" if "L q = Some k" for q k using sub pg(8) [OF that] by blast
    moreover have "region p (unat sz) \<subseteq> managed h" using sub pg(7) by blast
    ultimately show ?thesis
      using False p assms(5) pg(1-5) le
      by (auto simp: rumpcomp_pci_dmalloc_def rumpcomp_pci_map_def rumpcomp_pci_virt_to_mach_def)
  qed
qed

section \<open>Examples\<close>

definition sample_pci :: pci where
  "sample_pci = fiber.extend sample_fiber (pci.fields (replicate 32 0))"

lemma sample_pci_heap:
  "heap_ok (kheap sample_pci) Map.empty" "pages_left (kheap sample_pci) 1"
  "4096 * (unat (current (kheap sample_pci)) + 1) \<le> unat (bmk_memsize (kheap sample_pci))"
  using heap_start_ok [OF sample_heap_start]
  by (simp_all add: sample_pci_def sample_fiber_def fiber.defs pci.defs intr.defs sample_intr_def pages_left_def sample_heap_def)

theorem pci_irq_map_establish_witness:
  "\<exists>st1 st2. rumpcomp_pci_irq_map 0 3 0 11 2 sample_pci = Returns (st1, 0) \<and>
     rumpcomp_pci_irq_establish sample_symbols 2 5 6 st1 = Returns (st2, Some 2) \<and>
     gate_serves 0x100130 (idt (kcpu st2) 43)"
proof -
  have "length (intrs sample_pci) = nat BMK_MAXINTR" by (simp add: sample_pci_def fiber.defs pci.defs BMK_MAXINTR_def)
  from pci_irq_map_establish [OF this _ sample_pci_heap, of 2 0 3 0 11 sample_symbols 5 6] show ?thesis
    by (auto simp: sample_symbols_def)
qed

theorem pci_dmalloc_safe_witness:
  "\<exists>h'. rumpcomp_pci_dmalloc sample_heap 5000 1 = (h', Some (0x200000, 0x200000), 0) \<and> heap_ok h' Map.empty \<and>
     region 0x200000 5000 \<subseteq> managed sample_heap"
proof -
  obtain h' where h': "rumpcomp_pci_dmalloc sample_heap 5000 1 = (h', Some (0x200000, 0x200000), 0)"
    by (simp add: rumpcomp_pci_dmalloc_def bmk_allocpg_def round_page_def sample_heap_def PAGE_SIZE_def Let_def)
  from pci_dmalloc_safe [OF heap_start_ok [OF sample_heap_start] _ _ _ h'] h' show ?thesis
    by (simp add: sample_heap_def)
qed

end
