(* ===== verification/Boot.thy ===== *)
theory Boot
  imports System
begin

text \<open>
  Booting: \<^verbatim>\<open>_start32\<close> (\<^verbatim>\<open>arch/i386/locore32.S\<close>) and \<^verbatim>\<open>bmk_main\<close> (\<^verbatim>\<open>kernel.c\<close>), from what the
  boot loader leaves to the running system.
\<close>

unbundle bit_operations_syntax

section \<open>The boot loader's view\<close>

definition MULTIBOOT_HEADER_MAGIC :: u32 where "MULTIBOOT_HEADER_MAGIC = 0x1badb002"
definition MULTIBOOT_BOOTLOADER_MAGIC :: u32 where "MULTIBOOT_BOOTLOADER_MAGIC = 0x2badb002"
definition MULTIBOOT_PAGE_ALIGN :: u32 where "MULTIBOOT_PAGE_ALIGN = 1"
definition MULTIBOOT_MEMORY_INFO :: u32 where "MULTIBOOT_MEMORY_INFO = 2"
definition MULTIBOOT_INFO_MEMORY :: u32 where "MULTIBOOT_INFO_MEMORY = 1"
definition MULTIBOOT_INFO_BOOTDEV :: u32 where "MULTIBOOT_INFO_BOOTDEV = 2"
definition MULTIBOOT_INFO_MEM_MAP :: u32 where "MULTIBOOT_INFO_MEM_MAP = 0x40"

record multiboot_header =
  mbh_magic :: u32
  mbh_flags :: u32
  mbh_checksum :: u32

definition MYMULTIBOOT_FLAGS :: u32 where
  "MYMULTIBOOT_FLAGS = MULTIBOOT_PAGE_ALIGN OR MULTIBOOT_MEMORY_INFO"

text \<open>The section \<^verbatim>\<open>.multiboot\<close> of the image.\<close>

definition my_multiboot :: multiboot_header where
  "my_multiboot = \<lparr>mbh_magic = MULTIBOOT_HEADER_MAGIC, mbh_flags = MYMULTIBOOT_FLAGS,
     mbh_checksum = - (MULTIBOOT_HEADER_MAGIC + MYMULTIBOOT_FLAGS)\<rparr>"

record multiboot_info =
  mbi_flags :: u32
  mem_lower :: u32
  mem_upper :: u32
  boot_device :: u32
  cmdline :: u32
  mods_count :: u32
  mods_addr :: u32
  mbi_u :: "u32 list"
  mmap_length :: u32
  mmap_addr :: u32

definition load_mbi :: "memory \<Rightarrow> u32 \<Rightarrow> multiboot_info" where
  "load_mbi m a = \<lparr>mbi_flags = load32 m a, mem_lower = load32 m (a + 4), mem_upper = load32 m (a + 8),
     boot_device = load32 m (a + 12), cmdline = load32 m (a + 16), mods_count = load32 m (a + 20),
     mods_addr = load32 m (a + 24), mbi_u = map (\<lambda>k. load32 m (a + k)) [28, 32, 36, 40],
     mmap_length = load32 m (a + 44), mmap_addr = load32 m (a + 48)\<rparr>"

section \<open>The entry points\<close>

text \<open>
  The linker's symbols \<^verbatim>\<open>_begin\<close> and \<^verbatim>\<open>_end\<close> are arguments, and so is \<^verbatim>\<open>bmk_app_main\<close>, which is
  called when the kernel is built with an application. \<open>None\<close> is a scan of the memory map that never
  ends.
\<close>

definition cons_message :: "string \<Rightarrow> intr \<Rightarrow> intr" where
  "cons_message s st = st\<lparr>kcons := cons_puts_literal s (kcons st)\<rparr>"

definition bmk_main ::
  "symbols \<Rightarrow> u32 \<Rightarrow> u32 \<Rightarrow> (intr \<Rightarrow> intr outcome) \<Rightarrow> u32 \<Rightarrow> intr \<Rightarrow> intr outcome option" where
  "bmk_main sy begin_sym end_sym bmk_app_main mbi st =
     (let st = cons_message (''rump kernel bare metal bootstrap'' @ [CHR 0x0A, CHR 0x0A]) st;
          info = load_mbi (mem (kheap st)) mbi
      in if mbi_flags info AND MULTIBOOT_MEMORY_INFO = 0 then
           Some (Returns (cons_message (''multiboot memory info not available'' @ [CHR 0x0A]) st))
         else
           map_option (\<lambda>r.
             bind_outcome r (\<lambda>h.
             bind_outcome (bmk_cpu_init sy (kcpu st)) (\<lambda>c.
             bind_outcome (bmk_isr_init sy (bmk_sched_init sy (st\<lparr>kheap := h, kcpu := c\<rparr>))) (\<lambda>(st, error).
             bmk_app_main st))))
           (parsemem (mem (kheap st)) begin_sym end_sym (kheap st) (mmap_addr info) (mmap_length info)))"

text \<open>
  \<^verbatim>\<open>_start32\<close> gets \<^verbatim>\<open>eax\<close> and \<^verbatim>\<open>ebx\<close> from the boot loader. What is left at the end is the first
  turn of the loop that halts the processor with interrupts off.
\<close>

definition haltme :: "intr \<Rightarrow> intr" where
  "haltme st = st\<lparr>kcpu := hlt ((kcpu st)\<lparr>iflag := False\<rparr>)\<rparr>"

definition start32 ::
  "symbols \<Rightarrow> u32 \<Rightarrow> u32 \<Rightarrow> (intr \<Rightarrow> intr outcome) \<Rightarrow> u32 \<Rightarrow> u32 \<Rightarrow> intr \<Rightarrow> intr outcome option" where
  "start32 sy begin_sym end_sym bmk_app_main r_eax r_ebx st =
     (let st = st\<lparr>kcons := bmk_init (kcons st)\<rparr>
      in if r_eax \<noteq> MULTIBOOT_BOOTLOADER_MAGIC then
           (let st = cons_message ''not multibooted, halting!'' st
            in Some (Returns (st\<lparr>kcpu := hlt (kcpu st)\<rparr>)))
         else
           map_option (\<lambda>r. bind_outcome r (\<lambda>st. Returns (haltme st)))
             (bmk_main sy begin_sym end_sym bmk_app_main r_ebx st))"

section \<open>Properties\<close>

text \<open>The boot loader accepts the image: the words of the header add up to zero.\<close>

lemma multiboot_checksum: "mbh_magic my_multiboot + mbh_flags my_multiboot + mbh_checksum my_multiboot = 0"
  by (simp add: my_multiboot_def)

text \<open>
  What booting needs: static variables as the linker leaves them, a memory map with one available
  chunk that holds the kernel, whose own data end before \<^verbatim>\<open>_end\<close>, and memory behind it for the first
  thread.
\<close>

definition statics_ok :: "intr \<Rightarrow> bool" where
  "statics_ok st \<longleftrightarrow> bmk_spldepth (kcpu st) = 1 \<and> threads st = [] \<and> zombies st = [] \<and>
     current (kheap st) = 0 \<and> pagesz (kheap st) = 0 \<and> (\<forall>b. nextf (kheap st) b = 0)"

definition image_ok :: "symbols \<Rightarrow> u32 \<Rightarrow> memory \<Rightarrow> bool" where
  "image_ok sy end_sym m \<longleftrightarrow> unat MEMSTART < unat end_sym \<and> unat end_sym + 4095 < 2 ^ 32 \<and>
     unat (sym_bootstack sy) + 2 ^ 16 \<le> unat end_sym \<and> unat (sym_init_thread sy) + 60 \<le> unat end_sym \<and>
     unat (sym_str_init sy) + 5 \<le> unat end_sym \<and> unat (sym_str_netisr sy) + 7 \<le> unat end_sym \<and>
     cstr m (sym_str_init sy) [105, 110, 105, 116] \<and> cstr m (sym_str_netisr sy) [110, 101, 116, 105, 115, 114] \<and>
     region (sym_init_thread sy) 60 \<inter> region (sym_str_init sy) 5 = {} \<and>
     region (sym_init_thread sy) 60 \<inter> region (sym_str_netisr sy) 7 = {}"

definition chunk_ok :: "memory \<Rightarrow> multiboot_info \<Rightarrow> u32 \<Rightarrow> multiboot_mmap_entry list \<Rightarrow> multiboot_mmap_entry \<Rightarrow> bool" where
  "chunk_ok m info end_sym es mbm \<longleftrightarrow> mmap_at m (mmap_addr info) es \<and> mmap_bytes es = unat (mmap_length info) \<and>
     find our_memory es = Some mbm \<and> unat (round_page end_sym) + 33 * 4096 \<le> unat MEMSTART + unat (mbm_len mbm) \<and>
     unat MEMSTART + unat (mbm_len mbm) < 2 ^ 32"

lemma below_managed:
  assumes "unat a + n \<le> unat end_sym" "unat end_sym + 4095 < 2 ^ 32" "bmk_membase h = round_page end_sym"
  shows "region a n \<inter> managed h = {}"
proof -
  have "unat end_sym \<le> unat (bmk_membase h)" using round_page_bounds [OF assms(2)] assms(3) by simp
  moreover have "x \<in> region a n \<longleftrightarrow> unat a \<le> unat x \<and> unat x < unat a + n" for x
    using assms by (intro region_nowrap) linarith
  ultimately show ?thesis using assms(1) by (auto simp: managed_def)
qed

lemma clear_isr_ih:
  obtains F where "fold (\<lambda>i st. st\<lparr>isr_ih := (isr_ih st)(int i := [])\<rparr>) is st = st\<lparr>isr_ih := F\<rparr>" "\<And>i. i \<in> set is \<Longrightarrow> F (int i) = []"
proof -
  have "fold (\<lambda>i st. st\<lparr>isr_ih := (isr_ih st)(int i := [])\<rparr>) is st =
      st\<lparr>isr_ih := (\<lambda>j. if j \<in> int ` set is then [] else isr_ih st j)\<rparr>"
    by (induction "is" arbitrary: st) (auto simp: fun_eq_iff intro!: arg_cong [where f = "\<lambda>F. isr_ih_update (\<lambda>_. F) _"])
  then show thesis by (rule that) auto
qed

lemma create_isr_thread:
  assumes "bmk_sched_create sy name cookie thrflags f data stack_base stack_size (st :: intr) = Returns (st', t)"
  shows "bmk_sched_create sy name cookie thrflags f data stack_base stack_size (st\<lparr>isr_thread := v\<rparr>) =
    Returns (st'\<lparr>isr_thread := v\<rparr>, t)"
  using assms
  by (cases st) (auto simp: bmk_sched_create_def bind_outcome_Returns upd_thread_def set_runnable_def Let_def
      bmk_cpu_sched_create_def stack_push_def)

text \<open>The two names, and what \<^verbatim>\<open>bmk_sched_init\<close> leaves.\<close>

lemma name_lengths:
  "Suc (length [105, 110, 105, 116 :: u8]) = 5" "Suc (length [110, 101, 116, 105, 115, 114 :: u8]) = 7"
  by simp_all

lemma sched_init_fields:
  assumes "threads st = []" "zombies st = []"
  shows "kheap (bmk_sched_init sy st) =
      (kheap st)\<lparr>mem := fst (bmk_strncpy (mem (kheap st)) (sym_init_thread sy) (sym_str_init sy) (NAME_MAXLEN - 1))\<rparr>"
    "kcpu (bmk_sched_init sy st) = kcpu st" "threads (bmk_sched_init sy st) = [sym_init_thread sy]"
    "current_thread (bmk_sched_init sy st) = sym_init_thread sy" "zombies (bmk_sched_init sy st) = []"
    "bt_flags (thread (bmk_sched_init sy st) (sym_init_thread sy)) = THREAD_RUNNABLE"
  using assms by (simp_all add: bmk_sched_init_def set_kmem_def upd_thread_def set_runnable_def Let_def)

lemma sched_init_keeps_netisr:
  assumes "image_ok sy end_sym m"
  shows "cstr (fst (bmk_strncpy m (sym_init_thread sy) (sym_str_init sy) (NAME_MAXLEN - 1))) (sym_str_netisr sy)
    [110, 101, 116, 105, 115, 114]"
proof -
  note im = assms [unfolded image_ok_def]
  let ?m = "fst (bmk_strncpy m (sym_init_thread sy) (sym_str_init sy) (NAME_MAXLEN - 1))"
  have t: "sym_init_thread sy \<notin> region (sym_str_init sy) 5" using im by (auto simp: disjoint_iff)
  have same: "?m x = m x" if "x \<in> region (sym_str_netisr sy) 7" for x
  proof -
    have "x \<notin> region (sym_init_thread sy) 16" using that im region_mono [of 16 60 "sym_init_thread sy"] by auto
    then show ?thesis
      by (rule strncpy_name [where xs = "[105, 110, 105, 116]", unfolded name_lengths, rotated 3]) (use im t in simp_all)
  qed
  have "cstr ?m (sym_str_netisr sy) [110, 101, 116, 105, 115, 114] \<longleftrightarrow>
      cstr m (sym_str_netisr sy) [110, 101, 116, 105, 115, 114]"
    by (rule cstr_cong) (simp_all only: name_lengths same, simp)
  then show ?thesis using im by (simp only:)
qed

lemma sched_init_start:
  assumes h: "heap_start (kheap st)" and q: "threads st = []" "zombies st = []"
    and i: "image_ok sy end_sym (mem (kheap st))" "bmk_membase (kheap st) = round_page end_sym"
  shows "sys_start sy ((bmk_sched_init sy st)\<lparr>isr_ih := F, isr_thread := v\<rparr>)"
    "name_ok (kheap (bmk_sched_init sy st)) Map.empty 0 (sym_str_netisr sy)"
proof -
  note im = i(1) [unfolded image_ok_def] and f = sched_init_fields [OF q]
  have man: "managed ((kheap st)\<lparr>mem := m\<rparr>) = managed (kheap st)" for m by (simp add: managed_def)
  have out: "region a n \<inter> managed (kheap st) = {}" if "unat a + n \<le> unat end_sym" for a n
    using below_managed [OF that _ i(2)] im by blast
  show "sys_start sy ((bmk_sched_init sy st)\<lparr>isr_ih := F, isr_thread := v\<rparr>)"
    using h f man out im by (simp add: sys_start_def heap_start_def physmem_ok_def thread_flags)
  have "\<forall>x \<in> region (sym_str_netisr sy) (Suc (length [110, 101, 116, 105, 115, 114 :: u8])). x \<notin> managed (kheap st)"
    unfolding name_lengths using out [of "sym_str_netisr sy" 7] im by blast
  then show "name_ok (kheap (bmk_sched_init sy st)) Map.empty 0 (sym_str_netisr sy)"
    unfolding name_ok_def f(1) man
    using sched_init_keeps_netisr [OF i(1)] by (intro exI [of _ "[110, 101, 116, 105, 115, 114]"]) auto
qed

lemma create_keeps:
  assumes "heap_ok (kheap st) L" "pages_left (kheap st) 33"
    and call: "bmk_sched_create sy name cookie thrflags f data 0 0 (st :: intr) = Returns (st', t)"
  shows "managed (kheap st') = managed (kheap st)" "kcpu st' = kcpu st" "isr_ih st' = isr_ih st"
proof -
  obtain h1 h2 flags sb sz where h: "bmk_xmalloc (kheap st) sizeof_thread = Returns (h1, t)"
      "create_stack (h1\<lparr>mem := write_bytes (mem h1) t (replicate 60 0)\<rparr>) 0 0 = Returns (h2, flags, sb, sz)"
    and st': "st' = st\<lparr>kheap := h2\<lparr>mem := fst (bmk_strncpy (store32 (store32 (mem h2) (sb + sz - 4) f) (sb + sz - 8) data)
         t name (NAME_MAXLEN - 1))\<rparr>,
       thread := (thread st)(t := new_thread sy flags sb (sb + sz - 8)), threads := t # threads st\<rparr>"
    using bmk_sched_create_eq [OF call] .
  have "managed h2 = managed (kheap st)" using create_allocates(3) [OF assms(1,2) h] by simp
  then show "managed (kheap st') = managed (kheap st)" "kcpu st' = kcpu st" "isr_ih st' = isr_ih st"
    by (simp_all add: st' managed_def)
qed

lemma isr_init_reaches:
  fixes st :: intr
  assumes s: "heap_start (kheap st)" "threads st = []" "zombies st = []" "image_ok sy end_sym (mem (kheap st))"
      "bmk_membase (kheap st) = round_page end_sym" "pages_left (kheap st) 33"
      "4096 * (unat (current (kheap st)) + 33) \<le> unat (bmk_memsize (kheap st))"
  shows "\<exists>st0 st1 t e. bmk_isr_init sy (bmk_sched_init sy st) = Returns (st1, e) \<and>
    sys_start sy st0 \<and> sys_reach sy (st0, Map.empty) (st1, created st1 t 0 Map.empty) \<and>
    threads st1 = [t, sym_init_thread sy] \<and> current_thread st1 = sym_init_thread sy \<and> isr_thread st1 = t \<and> is_runnable st1 t \<and>
    managed (kheap st1) = managed (kheap st) \<and> (\<forall>i < 32. isr_ih st1 (int i) = []) \<and> kcpu st1 = kcpu st"
proof -
  let ?i = "bmk_sched_init sy st"
  note f = sched_init_fields [OF s(2,3), of sy] and start = sched_init_start [OF s(1-5)]
  obtain F where F: "fold (\<lambda>i st. st\<lparr>isr_ih := (isr_ih st)(int i := [])\<rparr>) [0..<nat BMK_MAXINTR] ?i = ?i\<lparr>isr_ih := F\<rparr>"
      "\<And>i. i < 32 \<Longrightarrow> F (int i) = []"
    using clear_isr_ih [of "[0..<nat BMK_MAXINTR]" ?i] by (auto simp: BMK_MAXINTR_def)
  let ?s = "?i\<lparr>isr_ih := F\<rparr>"
  have ok: "heap_ok (kheap ?s) Map.empty" "pages_left (kheap ?s) 33"
      "4096 * (unat (current (kheap ?s)) + 33) \<le> unat (bmk_memsize (kheap ?s))"
    using heap_start_ok [of "kheap ?s"] start(1) s(6,7) f(1) by (simp_all add: sys_start_def pages_left_def)
  obtain st' t where c: "bmk_sched_create sy (sym_str_netisr sy) 0 0 (sym_isr sy) 0 0 0 ?s = Returns (st', t)"
    using bmk_sched_create_returns [OF ok] by blast
  let ?s0 = "?s\<lparr>isr_thread := t\<rparr>" and ?s1 = "st'\<lparr>isr_thread := t\<rparr>"
  have "thread_step sy (?s0, Map.empty) (?s1, created ?s1 t 0 Map.empty)"
    using create_isr_thread [OF c, of t] ok(2) start(2)
    by (intro t_create [where stack_base = 0]) (auto simp: stack_arg_ok_def)
  then have reach: "sys_reach sy (?s0, Map.empty) (?s1, created ?s1 t 0 Map.empty)"
    using f(3,4) by (intro sys_more [OF sys_here] sys_thread) simp_all
  have call: "bmk_isr_init sy ?i = Returns (?s1, if t = 0 then EGENERIC else 0)"
    using c F(1) by (simp add: bmk_isr_init_def Let_def)
  note k = created_thread [OF c] create_keeps [OF ok(1,2) c]
  have "managed (kheap ?s1) = managed (kheap st)" using k(7) f(1) by (simp add: managed_def)
  moreover have "is_runnable ?s1 t" using k(6) by (simp add: is_runnable_def)
  ultimately show ?thesis
    using call reach start(1) k(1-3,8,9) f(2-4) F(2) by (intro exI [of _ ?s0] exI [of _ ?s1] exI [of _ t] exI conjI) simp_all
qed

text \<open>
  (C11) Booting brings the system up. From what a boot loader leaves (zeroed static variables, a map
  whose first available chunk at \<^verbatim>\<open>MEMSTART\<close> holds the kernel and room for a thread), \<^verbatim>\<open>bmk_main\<close>
  always reaches the application, in a state of the running system: the initial thread has created
  the interrupt thread and nothing else, all memory behind the image is managed, no line has a
  handler, the gates and the timer are set up and interrupts are on.
\<close>

theorem boot_reaches_system:
  assumes st: "statics_ok st" and im: "image_ok sy end_sym (mem (kheap st))"
    and chunk: "chunk_ok (mem (kheap st)) (load_mbi (mem (kheap st)) mbi) end_sym es mbm"
    and fl: "mbi_flags (load_mbi (mem (kheap st)) mbi) AND MULTIBOOT_MEMORY_INFO \<noteq> 0"
  shows "\<exists>st0 st1 t. bmk_main sy MEMSTART end_sym app mbi st = Some (app st1) \<and>
    sys_start sy st0 \<and> sys_reach sy (st0, Map.empty) (st1, created st1 t 0 Map.empty) \<and>
    threads st1 = [t, sym_init_thread sy] \<and> current_thread st1 = sym_init_thread sy \<and> isr_thread st1 = t \<and> is_runnable st1 t \<and>
    managed (kheap st1) = {x. unat (round_page end_sym) \<le> unat x \<and> unat x < unat MEMSTART + unat (mbm_len mbm)} \<and>
    (\<forall>i < 32. isr_ih st1 (int i) = []) \<and> gate_serves (sym_isr_clock sy) (idt (kcpu st1) 32) \<and>
    iolog (kcpu st1) = iolog (kcpu st) @ pic_timer_setup \<and> iflag (kcpu st1)"
proof -
  let ?st1 = "cons_message (''rump kernel bare metal bootstrap'' @ [CHR 0x0A, CHR 0x0A]) st"
  have k: "kheap ?st1 = kheap st" "kcpu ?st1 = kcpu st" "threads ?st1 = []" "zombies ?st1 = []"
    using st by (simp_all add: cons_message_def statics_ok_def)
  obtain sz where sz: "unat sz = unat MEMSTART + unat (mbm_len mbm) - unat (round_page end_sym)" and
    pm: "parsemem (mem (kheap st)) MEMSTART end_sym (kheap st) (mmap_addr (load_mbi (mem (kheap st)) mbi))
       (mmap_length (load_mbi (mem (kheap st)) mbi)) =
     Some (Returns ((kheap st)\<lparr>bmk_membase := round_page end_sym, bmk_memsize := sz\<rparr>))"
    using parsemem_chunk [of "mem (kheap st)" "mmap_addr (load_mbi (mem (kheap st)) mbi)" es
        "mmap_length (load_mbi (mem (kheap st)) mbi)" mbm end_sym "kheap st"] chunk im
    by (auto simp: chunk_ok_def image_ok_def)
  obtain c where c: "bmk_cpu_init sy (kcpu st) = Returns c" "gate_serves (sym_isr_clock sy) (idt c 32)"
      "iolog c = iolog (kcpu st) @ pic_timer_setup" "iflag c"
    using cpu_init_result [of "kcpu st" sy] st by (auto simp: statics_ok_def)
  define h where "h = (kheap st)\<lparr>bmk_membase := round_page end_sym, bmk_memsize := sz\<rparr>"
  define s2 where "s2 = ?st1\<lparr>kheap := h, kcpu := c\<rparr>"
  have r: "unat (round_page end_sym) + unat sz = unat MEMSTART + unat (mbm_len mbm)" "33 * 4096 \<le> unat sz"
    using sz chunk unfolding chunk_ok_def by linarith+
  have "heap_start (kheap s2)"
    using st chunk im r round_page_bounds [of end_sym]
    by (auto simp: s2_def h_def statics_ok_def heap_start_def physmem_ok_def chunk_ok_def image_ok_def)
  moreover have "threads s2 = []" "zombies s2 = []" "image_ok sy end_sym (mem (kheap s2))" "pages_left (kheap s2) 33"
      "bmk_membase (kheap s2) = round_page end_sym" "4096 * (unat (current (kheap s2)) + 33) \<le> unat (bmk_memsize (kheap s2))"
    using k st im r(2) by (simp_all add: s2_def h_def statics_ok_def pages_left_def)
  ultimately obtain st0 st1 t e where s1: "bmk_isr_init sy (bmk_sched_init sy s2) = Returns (st1, e)"
    "sys_start sy st0" "sys_reach sy (st0, Map.empty) (st1, created st1 t 0 Map.empty)"
    "threads st1 = [t, sym_init_thread sy]" "current_thread st1 = sym_init_thread sy" "isr_thread st1 = t" "is_runnable st1 t"
    "managed (kheap st1) = managed (kheap s2)" "\<forall>i < 32. isr_ih st1 (int i) = []" "kcpu st1 = kcpu s2"
    using isr_init_reaches [of s2 sy end_sym] by blast
  have "bmk_main sy MEMSTART end_sym app mbi st = Some (app st1)"
    using fl pm c(1) s1(1) k by (simp add: bmk_main_def Let_def s2_def h_def)
  moreover have "managed (kheap s2) = {x. unat (round_page end_sym) \<le> unat x \<and> unat x < unat MEMSTART + unat (mbm_len mbm)}"
    using r(1) by (simp add: managed_def s2_def h_def)
  moreover have "kcpu s2 = c" by (simp add: s2_def)
  ultimately show ?thesis using s1 c by (intro exI [of _ st0] exI [of _ st1] exI [of _ t]) simp
qed

text \<open>
  (C33) The flag \<^verbatim>\<open>bmk_main\<close> tests is one of the image header; in what the boot loader passes the same
  bit says that the boot device is known. Without it the machine is halted with interrupts off, nothing
  but the console having changed, even when the flags say that the memory map is there.
\<close>

theorem start32_needs_bootdev:
  assumes "mbi_flags (load_mbi (mem (kheap st)) mbi) AND MULTIBOOT_INFO_BOOTDEV = 0"
  shows "\<exists>c. start32 sy begin_sym end_sym app MULTIBOOT_BOOTLOADER_MAGIC mbi st =
    Some (Returns (st\<lparr>kcons := c, kcpu := hlt ((kcpu st)\<lparr>iflag := False\<rparr>)\<rparr>))"
  using assms
  by (simp add: start32_def bmk_main_def cons_message_def haltme_def MULTIBOOT_MEMORY_INFO_def MULTIBOOT_INFO_BOOTDEV_def Let_def) (rule exI, rule refl)

section \<open>Examples\<close>

text \<open>A machine with 16 MB behind \<^verbatim>\<open>MEMSTART\<close>; the information structure is at \<^verbatim>\<open>0x600\<close>, the map at \<^verbatim>\<open>0x500\<close>.\<close>

definition sample_boot_mem :: "u8 \<Rightarrow> memory" where
  "sample_boot_mem fl = write_bytes (write_bytes (write_bytes (write_bytes sample_mmap 0x600 [fl, 0, 0, 0])
     0x62c [24, 0, 0, 0, 0, 5, 0, 0]) 0x101000 [105, 110, 105, 116, 0]) 0x101010 [110, 101, 116, 105, 115, 114, 0]"

definition sample_boot :: "u8 \<Rightarrow> intr" where
  "sample_boot fl = sample_intr\<lparr>kheap := sample_heap\<lparr>mem := sample_boot_mem fl\<rparr>\<rparr>"

lemma sample_boot_info:
  "mbi_flags (load_mbi (sample_boot_mem fl) 0x600) = ucast fl" "mmap_length (load_mbi (sample_boot_mem fl) 0x600) = 24"
  "mmap_addr (load_mbi (sample_boot_mem fl) 0x600) = 0x500"
  "mmap_entry (sample_boot_mem fl) 0x500 = \<lparr>mbm_size = 20, mbm_addr = 0x100000, mbm_len = 0x1000000, mbm_type = 1\<rparr>"
  by (simp_all add: load_mbi_def mmap_entry_def sample_boot_mem_def sample_mmap_def load32_def load64_def)

theorem boot_reaches_system_witness:
  "\<exists>st0 st1 t. bmk_main sample_symbols MEMSTART 0x131000 Returns 0x600 (sample_boot 3) = Some (Returns st1) \<and>
     sys_start sample_symbols st0 \<and> sys_reach sample_symbols (st0, Map.empty) (st1, created st1 t 0 Map.empty) \<and>
     threads st1 = [t, 0x111000] \<and> iflag (kcpu st1)"
proof -
  let ?st = "sample_boot 3" and ?e = "mmap_entry (sample_boot_mem 3) 0x500"
  have r: "round_page 0x131000 = 0x131000" by (simp add: round_page_def PAGE_SIZE_def)
  have k: "mem (kheap ?st) = sample_boot_mem 3" by (simp add: sample_boot_def)
  have st: "statics_ok ?st" by (simp add: statics_ok_def sample_boot_def sample_intr_def boot_cpu_def sample_heap_def)
  have "region 0x111000 60 \<inter> region 0x101000 5 = {}" "region 0x111000 60 \<inter> region 0x101010 7 = {}"
    by (auto simp: region_nowrap)
  then have im: "image_ok sample_symbols 0x131000 (mem (kheap ?st))"
    unfolding k by (simp add: image_ok_def sample_symbols_def MEMSTART_def sample_boot_mem_def)
  have chunk: "chunk_ok (mem (kheap ?st)) (load_mbi (mem (kheap ?st)) 0x600) 0x131000 [?e] ?e"
    unfolding k by (simp add: chunk_ok_def sample_boot_info our_memory_def mmap_bytes_def r MEMSTART_def MULTIBOOT_MEMORY_AVAILABLE_def)
  have fl: "mbi_flags (load_mbi (mem (kheap ?st)) 0x600) AND MULTIBOOT_MEMORY_INFO \<noteq> 0"
    unfolding k by (simp add: sample_boot_info MULTIBOOT_MEMORY_INFO_def)
  from boot_reaches_system [OF st im chunk fl, of Returns] show ?thesis by (auto simp: sample_symbols_def)
qed

theorem start32_needs_bootdev_witness:
  "\<exists>c. start32 sample_symbols MEMSTART 0x131000 Returns MULTIBOOT_BOOTLOADER_MAGIC 0x600 (sample_boot 0x41) =
     Some (Returns ((sample_boot 0x41)\<lparr>kcons := c, kcpu := hlt ((kcpu (sample_boot 0x41))\<lparr>iflag := False\<rparr>)\<rparr>)) \<and>
   mbi_flags (load_mbi (mem (kheap (sample_boot 0x41))) 0x600) = MULTIBOOT_INFO_MEMORY OR MULTIBOOT_INFO_MEM_MAP"
proof -
  have "mbi_flags (load_mbi (mem (kheap (sample_boot 0x41))) 0x600) = MULTIBOOT_INFO_MEMORY OR MULTIBOOT_INFO_MEM_MAP"
    by (simp add: sample_boot_def sample_boot_info MULTIBOOT_INFO_MEMORY_def MULTIBOOT_INFO_MEM_MAP_def)
  moreover from this have "mbi_flags (load_mbi (mem (kheap (sample_boot 0x41))) 0x600) AND MULTIBOOT_INFO_BOOTDEV = 0"
    by (simp add: MULTIBOOT_INFO_MEMORY_def MULTIBOOT_INFO_MEM_MAP_def MULTIBOOT_INFO_BOOTDEV_def)
  ultimately show ?thesis using start32_needs_bootdev by simp
qed

end
