(* ===== verification/Isrstub.thy ===== *)
theory Isrstub
  imports Boot
begin

text \<open>
  The interrupt entry points of \<^verbatim>\<open>arch/i386/locore32.S\<close>, instruction by instruction, between the
  processor's entry through a gate of \<^verbatim>\<open>machdep.c\<close> and its return from the interrupt. The stack is
  the memory of the interrupted thread.
\<close>

section \<open>The processor\<close>

record cpu_regs = regs +
  ecx :: u32
  edx :: u32
  eflags :: u32

type_synonym 'a machine = "cpu_regs \<times> 'a intr_scheme"

text \<open>The interrupt flag is bit 9 of the flags register; it is kept with the processor state.\<close>

definition PSL_I :: u32 where "PSL_I = 0x200"

definition flags_image :: "'a machine \<Rightarrow> u32" where
  "flags_image = (\<lambda>(r, st). (eflags r AND NOT PSL_I) OR (if iflag (kcpu st) then PSL_I else 0))"

definition on_stack :: "(memory \<times> cpu_regs \<Rightarrow> memory \<times> cpu_regs) \<Rightarrow> 'a machine \<Rightarrow> 'a machine" where
  "on_stack f = (\<lambda>(r, st). case f (mem (kheap st), r) of (m, r) \<Rightarrow> (r, set_kmem m st))"

definition set_iflag :: "bool \<Rightarrow> 'a machine \<Rightarrow> 'a machine" where
  "set_iflag b = (\<lambda>(r, st). (r, st\<lparr>kcpu := (kcpu st)\<lparr>iflag := b\<rparr>\<rparr>))"

definition set_cs :: "u16 \<Rightarrow> 'a machine \<Rightarrow> 'a machine" where
  "set_cs v = (\<lambda>(r, st). (r, st\<lparr>kcpu := (kcpu st)\<lparr>seg_cs := v\<rparr>\<rparr>))"

definition cli :: "'a machine \<Rightarrow> 'a machine" where
  "cli = set_iflag False"

definition sti :: "'a machine \<Rightarrow> 'a machine" where
  "sti = set_iflag True"

text \<open>
  Entry through an interrupt gate: flags, code segment and instruction pointer are pushed, then
  the error code if the exception has one, and the interrupt flag is cleared.
\<close>

definition enter_gate :: "gate_descriptor \<Rightarrow> u32 option \<Rightarrow> 'a machine \<Rightarrow> 'a machine" where
  "enter_gate gd code s =
     (let s = on_stack (pushl (flags_image s)) s;
          s = on_stack (pushl (ucast (seg_cs (kcpu (snd s))))) s;
          s = on_stack (pushl (eip (fst s))) s;
          s = (case code of None \<Rightarrow> s | Some c \<Rightarrow> on_stack (pushl c) s);
          s = ((fst s)\<lparr>eip := gate_target gd\<rparr>, snd s)
      in set_iflag False (set_cs (gd_selector gd) s))"

definition iret :: "'a machine \<Rightarrow> 'a machine" where
  "iret s =
     (let s = on_stack (popl (\<lambda>v r. r\<lparr>eip := v\<rparr>)) s;
          s = set_cs (ucast (load32 (mem (kheap (snd s))) (esp (fst s)))) s;
          s = on_stack (popl (\<lambda>v r. r)) s;
          s = on_stack (popl (\<lambda>v r. r\<lparr>eflags := v\<rparr>)) s
      in set_iflag (bit (eflags (fst s)) 9) s)"

text \<open>
  A call of a C function: the return address \<open>ra\<close> is pushed, \<open>code\<close> is what the compiled function
  does to registers and stack, and \<open>f\<close> is its effect on the variables of the kernel.
\<close>

type_synonym compiled = "memory \<times> cpu_regs \<Rightarrow> memory \<times> cpu_regs"

definition call_c :: "compiled \<Rightarrow> u32 \<Rightarrow> ('a intr_scheme \<Rightarrow> 'a intr_scheme) \<Rightarrow> 'a machine \<Rightarrow> 'a machine" where
  "call_c code ra f s =
     (let s = on_stack (pushl ra) s;
          s = on_stack code s
      in (fst s, f (snd s)))"

text \<open>
  What the calling convention promises of compiled code: it returns to the pushed address, keeps
  the registers that belong to the caller and the \<open>n\<close> bytes of stack behind its arguments. Where
  the variables of the kernel are is not part of this, they are not on the stack.
\<close>

definition cdecl :: "u32 \<Rightarrow> nat \<Rightarrow> compiled \<Rightarrow> bool" where
  "cdecl args n code \<longleftrightarrow> (\<forall>m r. case code (m, r) of (m', r') \<Rightarrow>
     esp r' = esp r + 4 \<and> eip r' = load32 m (esp r) \<and> ebx r' = ebx r \<and> esi r' = esi r \<and> edi r' = edi r \<and>
     ebp r' = ebp r \<and> (\<forall>x \<in> region (esp r + 4 + args) n. m' x = m x))"

section \<open>The entry points\<close>

definition bmk_cpu_insr :: "'a machine \<Rightarrow> 'a machine" where
  "bmk_cpu_insr s = iret s"

definition bmk_cpu_isr_clock :: "compiled \<Rightarrow> u32 \<Rightarrow> 'a machine \<Rightarrow> 'a machine" where
  "bmk_cpu_isr_clock code ra s =
     (let s = cli s;
          s = call_c code ra bmk_isr_clock s;
          s = ((fst s)\<lparr>eax := (eax (fst s) AND NOT 0xff) OR 0x20\<rparr>, snd s);
          s = (fst s, (snd s)\<lparr>kcpu := outb 0x20 (ucast (eax (fst s))) (kcpu (snd s))\<rparr>);
          s = sti s
      in iret s)"

definition INTRSTUB :: "nat \<Rightarrow> compiled \<Rightarrow> u32 \<Rightarrow> 'a machine \<Rightarrow> 'a machine" where
  "INTRSTUB intnum code ra s =
     (let s = cli s;
          s = on_stack (pushl (eax (fst s))) s;
          s = on_stack (pushl (ebx (fst s))) s;
          s = on_stack (pushl (ecx (fst s))) s;
          s = on_stack (pushl (edx (fst s))) s;
          s = on_stack (pushl (of_nat intnum)) s;
          s = call_c code ra (bmk_isr intnum) s;
          s = ((fst s)\<lparr>esp := esp (fst s) + 4\<rparr>, snd s);
          s = on_stack (popl (\<lambda>v r. r\<lparr>edx := v\<rparr>)) s;
          s = on_stack (popl (\<lambda>v r. r\<lparr>ecx := v\<rparr>)) s;
          s = on_stack (popl (\<lambda>v r. r\<lparr>ebx := v\<rparr>)) s;
          s = on_stack (popl (\<lambda>v r. r\<lparr>eax := v\<rparr>)) s;
          s = sti s
      in iret s)"

definition bmk_cpu_isr_10 :: "compiled \<Rightarrow> u32 \<Rightarrow> 'a machine \<Rightarrow> 'a machine" where
  "bmk_cpu_isr_10 = INTRSTUB 10"

definition bmk_cpu_isr_11 :: "compiled \<Rightarrow> u32 \<Rightarrow> 'a machine \<Rightarrow> 'a machine" where
  "bmk_cpu_isr_11 = INTRSTUB 11"

section \<open>Properties\<close>

lemmas machine_defs = on_stack_def pushl_def popl_def set_iflag_def set_cs_def cli_def sti_def call_c_def set_kmem_def Let_def case_prod_beta

lemma cdeclD:
  assumes "cdecl args n code" "code (m, r) = (m', r')"
  shows "esp r' = esp r + 4" "ebx r' = ebx r" "esi r' = esi r" "edi r' = edi r" "ebp r' = ebp r"
    "x \<in> region (esp r + 4 + args) n \<Longrightarrow> m' x = m x"
  using assms(1) [unfolded cdecl_def, THEN spec [of _ m], THEN spec [of _ r]] assms(2) by simp_all

lemma selector_word [simp]: "ucast (ucast x :: u32) = (x :: u16)" "bit (ucast (x :: u16) :: u32) 9 = bit x 9"
  by (rule bit_eqI) (auto simp: bit_simps dest: bit_imp_le_length)

lemma flags_image_bit: "bit (flags_image (r, st)) 9 \<longleftrightarrow> iflag (kcpu st)"
  by (simp add: flags_image_def PSL_I_def bit_simps)

lemma flags_image_again: "(flags_image s AND NOT PSL_I) OR (if iflag (kcpu (snd s)) then PSL_I else 0) = flags_image s"
  by (rule bit_eqI) (auto simp: flags_image_def bit_simps split: prod.splits)

text \<open>What lies on the stack when the processor has gone through a gate.\<close>

lemma enter_gate_eq:
  "enter_gate gd None (r, st) =
     (r\<lparr>esp := esp r - 12, eip := gate_target gd\<rparr>,
      st\<lparr>kheap := (kheap st)\<lparr>mem := store32 (store32 (store32 (mem (kheap st)) (esp r - 4) (flags_image (r, st)))
        (esp r - 8) (ucast (seg_cs (kcpu st)))) (esp r - 12) (eip r)\<rparr>, kcpu := (kcpu st)\<lparr>seg_cs := gd_selector gd, iflag := False\<rparr>\<rparr>)"
  by (simp add: enter_gate_def machine_defs)

lemma enter_gate_code_eq:
  "enter_gate gd (Some c) (r, st) =
     (r\<lparr>esp := esp r - 16, eip := gate_target gd\<rparr>,
      st\<lparr>kheap := (kheap st)\<lparr>mem := store32 (store32 (store32 (store32 (mem (kheap st)) (esp r - 4) (flags_image (r, st)))
        (esp r - 8) (ucast (seg_cs (kcpu st)))) (esp r - 12) (eip r)) (esp r - 16) c\<rparr>, kcpu := (kcpu st)\<lparr>seg_cs := gd_selector gd, iflag := False\<rparr>\<rparr>)"
  by (simp add: enter_gate_def machine_defs)

lemma iret_eq:
  "iret (r, st) =
     (r\<lparr>eip := load32 (mem (kheap st)) (esp r),
        eflags := load32 (mem (kheap st)) (esp r + 8), esp := esp r + 12\<rparr>,
      st\<lparr>kcpu := (kcpu st)\<lparr>seg_cs := ucast (load32 (mem (kheap st)) (esp r + 4)),
        iflag := bit (load32 (mem (kheap st)) (esp r + 8)) 9\<rparr>\<rparr>)"
  by (simp add: iret_def machine_defs add.commute)

text \<open>
  The stack below and above the interrupted stack pointer: what a stub pushes leaves the bytes above
  alone, and compiled code that keeps \<open>n\<close> bytes from \<open>esp - d\<close> on keeps the words the stub has saved there.
\<close>

lemma above_pushed:
  assumes "x \<in> region a k" "k \<le> 2 ^ 32 - 36" "4 \<le> j" "j \<le> 36"
  shows "x \<notin> region (a - of_nat j) 4"
proof
  assume "x \<in> region (a - of_nat j) 4"
  then have "unat (x - a + of_nat j) < 4" by (simp add: region_def algebra_simps)
  moreover have "unat (x - a + of_nat j) = unat (x - a) + j"
    using assms by (subst unat_add_no_wrap) (simp_all add: region_def unat_of_nat_small)
  ultimately show False using assms(3) by simp
qed

lemma kept_word:
  assumes "\<And>x. x \<in> region (a - of_nat d) n \<Longrightarrow> m' x = m x" "4 \<le> j" "j \<le> d" "d \<le> n" "d < 2 ^ 32"
  shows "load32 m' (a - of_nat j) = load32 m (a - of_nat j)"
proof -
  have "region (a - of_nat d + of_nat (d - j)) 4 \<subseteq> region (a - of_nat d) n" using assms by (intro region_offset) simp_all
  then have "region (a - of_nat j) 4 \<subseteq> region (a - of_nat d) n" using assms(3) by (simp add: of_nat_diff)
  then show ?thesis using assms(1) by (intro load32_cong) blast
qed

lemma kept_above:
  assumes "\<And>x. x \<in> region (a - of_nat d) n \<Longrightarrow> m' x = m x" "x \<in> region a (n - d)" "d < 2 ^ 32"
  shows "m' x = m x"
proof -
  have "0 < n - d" using assms(2) by (simp add: region_def)
  then have "region (a - of_nat d + of_nat d) (n - d) \<subseteq> region (a - of_nat d) n" using assms(3) by (intro region_offset) simp_all
  then show ?thesis using assms(1,2) by auto
qed

lemma bmk_isr_frame: "kcpu (bmk_isr i st) = kcpu st" "kheap (bmk_isr i st) = kheap st"
  by (simp_all add: bmk_isr_def bmk_sched_wake_def set_runnable_def upd_thread_def Let_def)

lemma bmk_isr_commutes: "(bmk_isr i (st\<lparr>kcpu := c, kheap := h\<rparr>))\<lparr>kcpu := c'\<rparr> = (bmk_isr i st)\<lparr>kheap := h, kcpu := c'\<rparr>"
  by (simp add: bmk_isr_def bmk_sched_wake_def set_runnable_def upd_thread_def Let_def)

lemma isr_kcpu_same: "(bmk_isr i st)\<lparr>kheap := h, kcpu := kcpu st\<rparr> = (bmk_isr i st)\<lparr>kheap := h\<rparr>"
  by (simp add: bmk_isr_def bmk_sched_wake_def set_runnable_def upd_thread_def Let_def)

text \<open>
  (C12) Interrupts on the lines of devices are invisible to the interrupted thread: whatever the compiled
  \<^verbatim>\<open>bmk_isr\<close> does within the calling convention, the gate leads to the stub, and after it all registers,
  the flags and the interrupt flag are as they were, the stack in use is unchanged, and the kernel has
  recorded the interrupt.
\<close>

theorem isr_stub_transparent:
  assumes "cdecl 4 n code" "28 \<le> n" "n \<le> 2 ^ 32 - 36" "gate_serves f gd"
    and stub: "INTRSTUB i code ra (enter_gate gd None (r, st)) = (r', st')"
  shows "eip (fst (enter_gate gd None (r, st))) = f \<and> r' = r\<lparr>eflags := eflags r'\<rparr> \<and>
    flags_image (r', st') = flags_image (r, st) \<and> st' = set_kmem (mem (kheap st')) (bmk_isr i st) \<and>
    (\<forall>x \<in> region (esp r) (n - 28). mem (kheap st') x = mem (kheap st) x)"
proof -
  let ?m = "mem (kheap st)" and ?e = "esp r"
  define m1 where "m1 = store32 (store32 (store32 (store32 (store32 (store32 (store32 (store32 (store32 ?m
    (?e - 4) (flags_image (r, st))) (?e - 8) (ucast (seg_cs (kcpu st)))) (?e - 12) (eip r)) (?e - 16) (eax r)) (?e - 20) (ebx r))
    (?e - 24) (ecx r)) (?e - 28) (edx r)) (?e - 32) (of_nat i)) (?e - 36) ra"
  define r1 where "r1 = r\<lparr>esp := ?e - 36, eip := gate_target gd\<rparr>"
  obtain m2 r2 where c: "code (m1, r1) = (m2, r2)" by fastforce
  note k = cdeclD [OF assms(1) c, unfolded r1_def, simplified]
  have keep: "m2 x = m1 x" if "x \<in> region (?e - of_nat 28) n" for x using k(6) that by simp
  have w: "load32 m2 (?e - of_nat j) = load32 m1 (?e - of_nat j)" if "4 \<le> j" "j \<le> 28" for j
    using that assms(2) by (intro kept_word [where d = 28 and n = n] keep) simp_all
  have w2: "load32 m2 (?e - 4) = flags_image (r, st)" "load32 m2 (?e - 8) = ucast (seg_cs (kcpu st))" "load32 m2 (?e - 12) = eip r"
    "load32 m2 (?e - 16) = eax r" "load32 m2 (?e - 20) = ebx r" "load32 m2 (?e - 24) = ecx r" "load32 m2 (?e - 28) = edx r"
    using w [of 4] w [of 8] w [of 12] w [of 16] w [of 20] w [of 24] w [of 28] by (simp_all add: m1_def)
  have run: "INTRSTUB i code ra (enter_gate gd None (r, st)) =
    (r\<lparr>eflags := flags_image (r, st)\<rparr>, set_kmem m2 (bmk_isr i st))"
    using c w2 k(1-5) by (cases r, cases r2) (simp add: INTRSTUB_def enter_gate_eq iret_eq machine_defs m1_def r1_def bmk_isr_frame flags_image_bit bmk_isr_commutes isr_kcpu_same)
  have "m2 x = ?m x" if "x \<in> region ?e (n - 28)" for x
  proof -
    have o: "x \<notin> region (?e - of_nat j) 4" if "4 \<le> j" "j \<le> 36" for j
      using above_pushed [of x ?e "n - 28" j] \<open>x \<in> region ?e (n - 28)\<close> assms(3) that by simp
    have "m2 x = m1 x" by (rule kept_above [where a = ?e and d = 28 and n = n, OF _ that]) (simp_all add: k(6))
    also have "\<dots> = ?m x"
      using o [of 4] o [of 8] o [of 12] o [of 16] o [of 20] o [of 24] o [of 28] o [of 32] o [of 36]
      by (simp add: m1_def store32_outside)
    finally show ?thesis .
  qed
  moreover have "kcpu (bmk_isr i st) = kcpu st" "kheap (bmk_isr i st) = kheap st" by (simp_all add: bmk_isr_frame)
  ultimately show ?thesis
    using run stub assms(4) flags_image_again [of "(r, st)"]
    by (auto simp: enter_gate_eq gate_serves_def set_kmem_def) (simp_all add: flags_image_def)
qed


lemma low_byte_set:
  fixes x :: u32
  shows "((x AND NOT 0xff) OR 0x20) AND 0xff = 0x20" and "ucast ((x AND NOT 0xff) OR 0x20) = (0x20 :: u8)"
proof -
  show e: "((x AND NOT 0xff) OR 0x20) AND 0xff = 0x20"
    by (simp add: bit.conj_disj_distrib2 and.assoc)
  have "ucast (y AND mask 8) = (ucast y :: u8)" for y :: u32
    by (rule bit_eqI) (auto simp: bit_simps dest: bit_imp_le_length)
  from this [of "(x AND NOT 0xff) OR 0x20"] have "ucast (((x AND NOT 0xff) OR 0x20) AND 0xff) = (ucast ((x AND NOT 0xff) OR 0x20) :: u8)"
    by (simp add: mask_eq_exp_minus_1)
  then show "ucast ((x AND NOT 0xff) OR 0x20) = (0x20 :: u8)" unfolding e by simp
qed

text \<open>
  (C35) The clock's entry point does not save \<^verbatim>\<open>eax\<close>: whatever the interrupted thread had there and
  whatever the compiled \<^verbatim>\<open>bmk_isr_clock\<close> does, it continues with \<^verbatim>\<open>0x20\<close> in the low byte. The rest of
  its context that the calling convention protects is as it was, and the controller is acknowledged.
\<close>

theorem clock_stub_clobbers:
  assumes "cdecl 0 n code" "12 \<le> n"
    and stub: "bmk_cpu_isr_clock code ra (enter_gate gd None (r, st)) = (r', st')"
  shows "eax r' AND 0xff = 0x20 \<and> eip r' = eip r \<and> esp r' = esp r \<and> ebx r' = ebx r \<and> esi r' = esi r \<and>
    edi r' = edi r \<and> ebp r' = ebp r \<and> flags_image (r', st') = flags_image (r, st) \<and>
    seg_cs (kcpu st') = seg_cs (kcpu st) \<and>
    iolog (kcpu st') = iolog (kcpu st) @ [Outb 0x20 0x20]"
proof -
  let ?m = "mem (kheap st)" and ?e = "esp r"
  define m1 where "m1 = store32 (store32 (store32 (store32 ?m (?e - 4) (flags_image (r, st))) (?e - 8) (ucast (seg_cs (kcpu st))))
    (?e - 12) (eip r)) (?e - 16) ra"
  define r1 where "r1 = r\<lparr>esp := ?e - 16, eip := gate_target gd\<rparr>"
  obtain m2 r2 where c: "code (m1, r1) = (m2, r2)" by fastforce
  note k = cdeclD [OF assms(1) c, unfolded r1_def, simplified]
  have w: "load32 m2 (?e - of_nat j) = load32 m1 (?e - of_nat j)" if "4 \<le> j" "j \<le> 12" for j
    using that assms(2) k(6) by (intro kept_word [where d = 12 and n = n]) simp_all
  have w2: "load32 m2 (?e - 4) = flags_image (r, st)" "load32 m2 (?e - 8) = ucast (seg_cs (kcpu st))" "load32 m2 (?e - 12) = eip r"
    using w [of 4] w [of 8] w [of 12] by (simp_all add: m1_def)
  define a where "a = (eax r2 AND NOT 0xff) OR 0x20"
  have run: "bmk_cpu_isr_clock code ra (enter_gate gd None (r, st)) =
    (r2\<lparr>eax := a, eip := eip r, eflags := flags_image (r, st), esp := ?e\<rparr>,
     st\<lparr>kheap := (kheap st)\<lparr>mem := m2\<rparr>, kcpu := outb 0x20 (ucast a) (kcpu st)\<rparr>)"
    using c w2 k(1-5) by (cases r, cases r2)
      (simp add: bmk_cpu_isr_clock_def enter_gate_eq iret_eq machine_defs m1_def r1_def a_def flags_image_bit bmk_isr_clock_def outb_def)
  have a: "a AND 0xff = 0x20" "ucast a = (0x20 :: u8)" using low_byte_set [of "eax r2"] by (simp_all add: a_def)
  show ?thesis using run stub a k(1-5) flags_image_again [of "(r, st)"]
    by (auto simp: outb_def flags_image_def)
qed

section \<open>Examples\<close>

text \<open>Compiled code that destroys every register it may.\<close>

definition sample_code :: compiled where
  "sample_code = (\<lambda>(m, r). (m, r\<lparr>eax := 1, ecx := 2, edx := 3, eflags := 0, esp := esp r + 4, eip := load32 m (esp r)\<rparr>))"

lemma sample_code_cdecl: "cdecl args n sample_code"
  by (simp add: cdecl_def sample_code_def)

definition sample_machine :: cpu_regs where
  "sample_machine = \<lparr>eax = 0x1234, ebx = 1, esi = 2, edi = 3, ebp = 4, esp = 0x200000, eip = 0x100000, ecx = 5, edx = 6, eflags = 2\<rparr>"

theorem isr_stub_transparent_witness:
  "\<exists>r' st'. INTRSTUB 10 sample_code 9 (enter_gate (fillgate (idt boot_cpu 42) 0x100120) None (sample_machine, sample_boot 0x41)) = (r', st') \<and>
     eax r' = 0x1234 \<and> ecx r' = 5 \<and> eip r' = 0x100000 \<and> isr_todo st' = isr_todo (sample_boot 0x41) OR push_bit 10 1 \<and>
     mem (kheap st') 0x200007 = mem (kheap (sample_boot 0x41)) 0x200007"
proof -
  obtain r' st' where s: "INTRSTUB 10 sample_code 9 (enter_gate (fillgate (idt boot_cpu 42) 0x100120) None (sample_machine, sample_boot 0x41)) = (r', st')"
    by fastforce
  from isr_stub_transparent [OF sample_code_cdecl _ _ fillgate_serves s, of 64]
  have t: "r' = sample_machine\<lparr>eflags := eflags r'\<rparr>" "st' = set_kmem (mem (kheap st')) (bmk_isr 10 (sample_boot 0x41))"
    "\<forall>x \<in> region (esp sample_machine) 36. mem (kheap st') x = mem (kheap (sample_boot 0x41)) x" by simp_all
  have "isr_todo st' = isr_todo (sample_boot 0x41) OR push_bit 10 1"
    by (subst t(2)) (simp add: set_kmem_def bmk_isr_def bmk_sched_wake_def set_runnable_def upd_thread_def Let_def)
  moreover have "eax r' = 0x1234" "ecx r' = 5" "eip r' = 0x100000" by (subst t(1), simp add: sample_machine_def)+
  ultimately show ?thesis using s t(3) by (auto simp: sample_machine_def region_def)
qed

theorem clock_stub_clobbers_witness:
  "\<exists>r' st'. bmk_cpu_isr_clock sample_code 9 (enter_gate (fillgate (idt boot_cpu 32) 0x100110) None (sample_machine, sample_boot 0x41)) = (r', st') \<and>
     eax r' AND 0xff = 0x20 \<and> eax sample_machine AND 0xff = 0x34"
proof -
  obtain r' st' where s: "bmk_cpu_isr_clock sample_code 9 (enter_gate (fillgate (idt boot_cpu 32) 0x100110) None (sample_machine, sample_boot 0x41)) = (r', st')"
    by fastforce
  from clock_stub_clobbers [OF sample_code_cdecl _ s, of 64] show ?thesis using s by (auto simp: sample_machine_def)
qed

end
