(* ===== verification/Stubs.thy ===== *)
theory Stubs
  imports Boot
begin

text \<open>
  What the rump kernel and the C library call without the kernel supporting it
  (\<^verbatim>\<open>undefs.c\<close>), the end of a program (\<^verbatim>\<open>_exit\<close> of \<^verbatim>\<open>libc_emul.c\<close>), and the access to \<^verbatim>\<open>errno\<close>
  (\<^verbatim>\<open>libc_errno.c\<close>).
\<close>

section \<open>The stubs\<close>

text \<open>A stub returns a value, or it stays in an empty loop for ever with the state it has reached.\<close>

datatype 's ending = Returned 's int | Spins 's

definition NOTHING :: "string \<Rightarrow> intr \<Rightarrow> intr ending" where
  "NOTHING name st = Spins (cons_message (''unimplemented: '' @ name @ [CHR 0x0A]) st)"

definition REALNOTHING :: "string \<Rightarrow> intr \<Rightarrow> intr ending" where
  "REALNOTHING name st = Returned st 1"

definition undefs :: "(string \<times> (string \<Rightarrow> intr \<Rightarrow> intr ending)) list" where
  "undefs =
    [(''rumpuser_anonmmap'', NOTHING),
     (''rumpuser_dl_bootstrap'', REALNOTHING),
     (''rumpuser_daemonize_begin'', NOTHING),
     (''rumpuser_daemonize_done'', NOTHING),
     (''rumpuser_exit'', NOTHING),
     (''rumpuser_kill'', NOTHING),
     (''rumpuser_open'', NOTHING),
     (''rumpuser_close'', NOTHING),
     (''rumpuser_getfileinfo'', REALNOTHING),
     (''rumpuser_bio'', NOTHING),
     (''rumpuser_iovread'', NOTHING),
     (''rumpuser_iovwrite'', NOTHING),
     (''rumpuser_sp_anonmmap'', NOTHING),
     (''rumpuser_sp_copyin'', NOTHING),
     (''rumpuser_sp_copyinstr'', NOTHING),
     (''rumpuser_sp_copyout'', NOTHING),
     (''rumpuser_sp_copyoutstr'', NOTHING),
     (''rumpuser_sp_fini'', NOTHING),
     (''rumpuser_sp_init'', NOTHING),
     (''rumpuser_sp_raise'', NOTHING),
     (''rumpuser_unmap'', NOTHING),
     (''__sigaction14'', REALNOTHING),
     (''__getrusage50'', NOTHING),
     (''__sigprocmask14'', REALNOTHING),
     (''_lwp_kill'', NOTHING),
     (''_lwp_self'', NOTHING),
     (''__wait450'', NOTHING),
     (''__fork'', NOTHING),
     (''__vfork14'', NOTHING),
     (''kill'', NOTHING),
     (''getpriority'', NOTHING),
     (''setpriority'', NOTHING)]"

definition execve :: "u32 \<Rightarrow> u32 \<Rightarrow> u32 \<Rightarrow> intr \<Rightarrow> intr ending" where
  "execve file argv envp st = Returned (cons_message (''execve not implemented'' @ [CHR 0x0A]) st) (- 1)"

text \<open>A call of a stub by its name, as the linker resolves it.\<close>

definition call_stub :: "string \<Rightarrow> intr \<Rightarrow> intr ending option" where
  "call_stub name st = map_option (\<lambda>f. f name st) (map_of undefs name)"

text \<open>\<^verbatim>\<open>printf\<close> is the C library's.\<close>

definition libc_exit :: "(string \<Rightarrow> intr \<Rightarrow> intr) \<Rightarrow> int \<Rightarrow> intr \<Rightarrow> intr ending" where
  "libc_exit printf eval st = Spins (printf (''oh no, more exits'' @ [CHR 0x0A]) st)"

text \<open>\<^verbatim>\<open>__errno\<close> passes on the pointer to the error number of the running thread, here its reader.\<close>

definition libc_errno :: "'a sched_scheme \<Rightarrow> u32" where
  "libc_errno st = bmk_sched_geterrno st"

section \<open>Properties\<close>

text \<open>No name has two definitions.\<close>

lemma undefs_distinct: "distinct (map fst undefs)"
  by (simp add: undefs_def)

text \<open>The only stubs that return are those for the dynamic linker, files and signals.\<close>

lemma stub_returns_iff:
  "(\<exists>st' v. call_stub name st = Some (Returned st' v)) \<longleftrightarrow>
   name \<in> {''rumpuser_dl_bootstrap'', ''rumpuser_getfileinfo'', ''__sigaction14'', ''__sigprocmask14''}"
  by (auto simp: call_stub_def undefs_def NOTHING_def REALNOTHING_def split: if_splits)

lemma cons_puts_literal_screen: "on_screen c \<Longrightarrow> on_screen (cons_puts_literal s c)"
  by (induction s arbitrary: c) (simp_all add: cons_puts_literal_def putc_on_screen)

text \<open>Every stub leaves the console usable and everything else alone.\<close>

lemma stub_frame:
  assumes "call_stub name st = Some e" "on_screen (kcons st)" "e = Returned st' v \<or> e = Spins st'"
  shows "\<exists>c. st' = st\<lparr>kcons := c\<rparr> \<and> on_screen c"
proof -
  obtain f where f: "(name, f) \<in> set undefs" "e = f name st" using assms(1) by (auto simp: call_stub_def dest: map_of_SomeD)
  then have "f = NOTHING \<or> f = REALNOTHING" by (auto simp: undefs_def)
  then show ?thesis using f(2) assms(2,3)
    by (auto simp: NOTHING_def REALNOTHING_def cons_message_def cons_puts_literal_screen intro: exI [of _ "kcons st"])
qed

text \<open>Each thread has its own error number: what one stores is not seen by another.\<close>

lemma errno_per_thread:
  assumes "t \<noteq> current_thread st"
  shows "libc_errno (bmk_sched_seterrno e st) = e"
    and "libc_errno ((bmk_sched_seterrno e st)\<lparr>current_thread := t\<rparr>) = libc_errno (st\<lparr>current_thread := t\<rparr>)"
  using assms by (simp_all add: libc_errno_def bmk_sched_geterrno_def bmk_sched_seterrno_def upd_thread_def)

end
