(* ===== verification/Spec2Isabelle.thy ===== *)
theory Spec2Isabelle
  imports Librt Queuekinds Pci Isrstub Stubs
begin

text \<open>
  Verification of rumpuser-baremetal, a small i386 kernel that runs a rump kernel (an operating
  system kernel as a library) on bare hardware. File names are relative to \<^verbatim>\<open>src/\<close>.

  \<^bold>\<open>The program.\<close> The boot loader enters \<^verbatim>\<open>_start32\<close> (\<^verbatim>\<open>arch/i386/locore32.S\<close>), which calls
  \<^verbatim>\<open>bmk_main\<close> (\<^verbatim>\<open>kernel.c\<close>): memory map, processor, scheduler and interrupt thread are set up and the
  application is started. Pages come from \<^verbatim>\<open>bmk_allocpg\<close> (\<^verbatim>\<open>kernel.c\<close>), memory from the power-of-two
  allocator of \<^verbatim>\<open>memalloc.c\<close>, on which the C library functions of \<^verbatim>\<open>libc_malloc.c\<close> and \<^verbatim>\<open>libc_emul.c\<close>
  rest. Threads are cooperative (\<^verbatim>\<open>sched.c\<close>, \<^verbatim>\<open>arch/i386/cpu_sched.c\<close>); interrupts only mark a line and
  wake the interrupt thread (\<^verbatim>\<open>intr.c\<close>). The rump kernel uses the hypercalls of \<^verbatim>\<open>rumpuser.c\<close>,
  \<^verbatim>\<open>rumppci.c\<close> and the locks of \<^verbatim>\<open>rumpfiber.c\<close>, and calls back through \<^verbatim>\<open>rumpuser__hyp\<close>.

  \<^bold>\<open>State.\<close> Memory is a flat map from 32-bit addresses to bytes; the heap with its free lists,
  headers and client data, the thread stacks, strings and the multiboot structures live in it.
  Static variables are fields of records: \<open>heap\<close> extends \<open>physmem\<close>; \<open>sched\<close> has a heap, the
  processor \<open>cpu\<close>, the console \<open>cons\<close> and the registers \<open>regs\<close> beside the variables of the
  scheduler, \<open>intr\<close> extends \<open>sched\<close>, and \<open>fiber\<close> extends \<open>intr\<close>. Objects with several
  fields and no role for their layout (threads, locks, handlers) are stores indexed by their
  address. Machine integers are words of their width.
  A routine that panics, fails an assertion or faults returns \<open>Halts\<close>, otherwise \<open>Returns\<close>. Device
  output is a log of port accesses. Addresses the linker assigns are in the record \<open>symbols\<close>.

  \<^bold>\<open>Theories and sources.\<close>
  \<^item> \<open>Prelude\<close>, \<open>Memory\<close>: machine types, outcomes, words, lists, loads and stores.
  \<^item> \<open>Librt\<close>: 64-bit division of \<^verbatim>\<open>librt/\<close>. Every routine equals the mathematical division.
  \<^item> \<open>Queue\<close>, \<open>Slist\<close>, \<open>Linklist\<close>, \<open>Simpleq\<close>, \<open>Stailq\<close>, \<open>Tailq\<close>, \<open>Circleq\<close>, \<open>Queuekinds\<close>:
    \<^verbatim>\<open>include/bmk/queue.h\<close>, each kind on a store of heads and links. The contracts are the locales
    \<open>linked_list\<close> and \<open>tail_queue\<close>, interpreted on all six kinds and on plain lists. All kinds show
    the same lists after the same operations; this justifies the lists used for the queues of the
    scheduler, the locks and the interrupt handlers. \<^verbatim>\<open>LIST_MOVE\<close> leaves a stale pointer.
  \<^item> \<open>Subr\<close>: \<^verbatim>\<open>subr.c\<close>, string and memory routines, with two that are wrong.
  \<^item> \<open>Kernel\<close>: \<^verbatim>\<open>kernel.c\<close>, page allocator, memory map and console.
  \<^item> \<open>Memalloc\<close>, \<open>Heapinv\<close>, \<open>Heapclient\<close>, \<open>Realloc\<close>, \<open>Heapframe\<close>: \<^verbatim>\<open>memalloc.c\<close>. \<open>heap_ok\<close> says that
    free and live blocks tile managed memory without overlap; every operation keeps it. The
    contract is the locale \<open>allocator\<close>; clients and allocator form a transition system in which live
    allocations stay disjoint and keep their bytes.
  \<^item> \<open>Libc\<close>: \<^verbatim>\<open>libc_malloc.c\<close> and the mapping functions of \<^verbatim>\<open>libc_emul.c\<close>.
  \<^item> \<open>Machdep\<close>: \<^verbatim>\<open>arch/i386/machdep.c\<close>, \<^verbatim>\<open>include/arch/i386/md.h\<close>, and the context switch of
    \<^verbatim>\<open>cpu_sched.c\<close> and \<^verbatim>\<open>locore32.S\<close> on registers and stack memory.
  \<^item> \<open>Threads\<close>, \<open>Threadinv\<close>, \<open>Threadcreate\<close>, \<open>Sched\<close>: \<^verbatim>\<open>sched.c\<close>. Functions that call \<^verbatim>\<open>bmk_sched\<close>
    are split there. The first runnable thread is chosen and the choice is fair.
  \<^item> \<open>Intr\<close>: \<^verbatim>\<open>intr.c\<close>. No interrupt is lost, and a pass serves exactly the pending lines.
  \<^item> \<open>System\<close>: all of this as one transition system with its safety, the isolation of suspended
    threads, and the transparency of context switches.
  \<^item> \<open>Boot\<close>: \<^verbatim>\<open>_start32\<close> and \<^verbatim>\<open>bmk_main\<close>; booting ends in an initial state of \<open>System\<close>.
  \<^item> \<open>Isrstub\<close>: the interrupt entry points of \<^verbatim>\<open>locore32.S\<close>, by instruction. Device interrupts are
    invisible to the interrupted thread; the clock and trap entry points are not in general.
  \<^item> \<open>Fiber\<close>, \<open>Fiberinv\<close>, \<open>Fibersync\<close>, \<open>Fibersteps\<close>, \<open>Fibercv\<close>, \<open>Fiberuse\<close>, \<open>Fibersample\<close>:
    \<^verbatim>\<open>rumpfiber.c\<close> and its concurrent users as a transition system. No wake-up is lost, mutexes
    exclude, counts are right; reader/writer locks do not exclude, and a wait can panic.
  \<^item> \<open>Rumpuser\<close>, \<open>Pci\<close>: \<^verbatim>\<open>rumpuser.c\<close>, \<^verbatim>\<open>rumppci.c\<close>.
  \<^item> \<open>Stubs\<close>: \<^verbatim>\<open>undefs.c\<close>, \<^verbatim>\<open>libc_errno.c\<close>, \<^verbatim>\<open>_exit\<close>. An endless loop is the value \<open>Spins\<close>.

  \<^bold>\<open>Arguments of the model.\<close> Code outside the sources is an argument: the application, the rump
  kernel's up-calls and interrupt handlers, \<^verbatim>\<open>pread\<close> and \<^verbatim>\<open>printf\<close> of the C library, the constants of
  foreign headers, the values devices and the clock deliver, and the compiled form of the C functions
  that the entry points call, of which only the calling convention (\<open>cdecl\<close>) is assumed.

  \<^bold>\<open>Loops.\<close> No fuel is used. Counting loops terminate by a measure. Loops that can run for ever
  (strings without an end, lists with a cycle, a scan of the memory map) are partial functions with
  the value \<open>None\<close> then, and the theorems state that they return. The idle loop of the scheduler
  recurses over the rounds it is given, the clock reading and interrupts of each; \<open>None\<close> is a
  scheduler that is idle after all of them, and \<open>sched_pick_progress\<close> shows that it returns when a
  thread is runnable or the clock reading of one of the rounds reaches its wake-up time.

  \<^bold>\<open>Not modelled.\<close> \<^verbatim>\<open>app.c\<close> is a demonstration made of calls into the rump kernel and the C
  library. Code that is not compiled in is left out: \<^verbatim>\<open>QUEUEDEBUG\<close>, \<^verbatim>\<open>MEMALLOC_TESTING\<close>, \<^verbatim>\<open>RCHECK\<close>,
  \<^verbatim>\<open>MSTATS\<close>. So are the macros of \<^verbatim>\<open>include/rumpuser_int.h\<close> that no source uses, the fields of the
  multiboot structures that the kernel does not read, and the 128-bit and floating-point
  types of \<^verbatim>\<open>librt/int_types.h\<close>. Timing, caches and the effect of stack overflow are outside the model.
\<close>

end
